(* ===== verification/Prelude.thy ===== *)
theory Prelude
  imports Main "HOL-Library.Word" "HOL-Library.AList" "HOL-Library.Extended_Nat"
begin

text \<open>
  The prelude: the errors the library throws, results of fallible code, JavaScript's
  insertion-ordered \<open>Map\<close>, and the operations on \<open>Uint8Array\<close> every component uses, with
  the lemmas about them that the component theories share.

  Sizes, offsets and indexes of the code are JavaScript numbers that are whole and below
  \<open>2 ^ 53\<close>, so they are \<open>nat\<close> here; where the code uses \<open>Infinity\<close> or a negative number the
  model uses \<open>enat\<close> or \<open>int\<close>. Bytes are \<open>8 word\<close>.
\<close>

named_theorems bytes_simps \<open>how the byte operations compose\<close>
named_theorems len_simps \<open>lengths of byte sequences\<close>

type_synonym byte = "8 word"
type_synonym bytes = "byte list"

section \<open>Errors and results\<close>

text \<open>
  What the code throws. \<open>SqliteError\<close> is the class of SQLiteError.ts with its result code;
  \<open>RangeError\<close> is what \<open>Uint8Array.prototype.set\<close> and the argument checks throw, and
  \<open>JsError\<close> any other \<open>Error\<close>, by the text of its message; \<open>Foreign\<close> is an error of the
  platform (a \<open>DOMException\<close>) that the code only passes on.
\<close>

datatype js_error =
    SqliteError nat
  | RangeError
  | JsError string
  | Foreign nat

type_synonym 'a result = "js_error + 'a"

abbreviation SQLITE_ERROR :: nat where "SQLITE_ERROR \<equiv> 1"
abbreviation SQLITE_BUSY :: nat where "SQLITE_BUSY \<equiv> 5"
abbreviation SQLITE_READONLY :: nat where "SQLITE_READONLY \<equiv> 8"
abbreviation SQLITE_CORRUPT :: nat where "SQLITE_CORRUPT \<equiv> 11"
abbreviation SQLITE_CANTOPEN :: nat where "SQLITE_CANTOPEN \<equiv> 14"
abbreviation SQLITE_MISUSE :: nat where "SQLITE_MISUSE \<equiv> 21"
abbreviation SQLITE_IOERR_READ :: nat where "SQLITE_IOERR_READ \<equiv> 266"
abbreviation SQLITE_IOERR_SHORT_READ :: nat where "SQLITE_IOERR_SHORT_READ \<equiv> 522"
abbreviation SQLITE_IOERR_WRITE :: nat where "SQLITE_IOERR_WRITE \<equiv> 778"
abbreviation SQLITE_IOERR_FSYNC :: nat where "SQLITE_IOERR_FSYNC \<equiv> 1034"
abbreviation SQLITE_IOERR_TRUNCATE :: nat where "SQLITE_IOERR_TRUNCATE \<equiv> 1546"

text \<open>Sequencing: an error ends the computation, as a throw does.\<close>

definition and_then :: "'a result \<Rightarrow> ('a \<Rightarrow> 'b result) \<Rightarrow> 'b result" where
  "and_then r f = (case r of Inl e \<Rightarrow> Inl e | Inr a \<Rightarrow> f a)"

lemma and_then_simps [simp]:
  "and_then (Inl e) f = Inl e" "and_then (Inr a) f = f a"
  by (simp_all add: and_then_def)

lemma and_then_eq_Inr:
  "and_then r f = Inr b \<longleftrightarrow> (\<exists>a. r = Inr a \<and> f a = Inr b)"
  by (cases r) simp_all

section \<open>JavaScript's Map\<close>

text \<open>
  A \<open>Map\<close> iterates in insertion order; setting a key it has keeps the key's place. This is
  \<open>AList.update\<close> on an association list with distinct keys; \<open>delete\<close> is \<open>AList.delete\<close> and
  \<open>get\<close> is \<open>map_of\<close>.
\<close>

abbreviation map_get :: "('k \<times> 'v) list \<Rightarrow> 'k \<Rightarrow> 'v option" where
  "map_get \<equiv> map_of"

abbreviation map_set :: "'k \<Rightarrow> 'v \<Rightarrow> ('k \<times> 'v) list \<Rightarrow> ('k \<times> 'v) list" where
  "map_set \<equiv> AList.update"

abbreviation map_delete :: "'k \<Rightarrow> ('k \<times> 'v) list \<Rightarrow> ('k \<times> 'v) list" where
  "map_delete \<equiv> AList.delete"

abbreviation map_has :: "('k \<times> 'v) list \<Rightarrow> 'k \<Rightarrow> bool" where
  "map_has m k \<equiv> map_of m k \<noteq> None"

text \<open>The keys of a \<open>Map\<close> are distinct; every operation keeps that.\<close>

definition map_ok :: "('k \<times> 'v) list \<Rightarrow> bool" where
  "map_ok m \<longleftrightarrow> distinct (map fst m)"

lemma map_ok_Nil [simp]: "map_ok []"
  by (simp add: map_ok_def)

lemma map_ok_set [simp]: "map_ok m \<Longrightarrow> map_ok (map_set k v m)"
  by (simp add: map_ok_def distinct_update)

lemma map_ok_delete [simp]: "map_ok m \<Longrightarrow> map_ok (map_delete k m)"
  by (simp add: map_ok_def distinct_delete)

lemma map_get_set: "map_get (map_set k v m) = (map_get m)(k \<mapsto> v)"
  by (rule update_conv')

lemma map_get_delete: "map_get (map_delete k m) = (map_get m)(k := None)"
  by (rule delete_conv')

text \<open>
  The contract of a \<open>Map\<close> with distinct keys, which the components use instead of the lists:
  what a lookup returns after each operation, and that a well-formed map stays well-formed.
\<close>

locale js_map =
  fixes get :: "'m \<Rightarrow> 'k \<Rightarrow> 'v option"
    and set_key :: "'k \<Rightarrow> 'v \<Rightarrow> 'm \<Rightarrow> 'm"
    and delete_key :: "'k \<Rightarrow> 'm \<Rightarrow> 'm"
    and ok :: "'m \<Rightarrow> bool"
  assumes get_set: "get (set_key k v m) = (get m)(k \<mapsto> v)"
    and get_delete: "get (delete_key k m) = (get m)(k := None)"
    and ok_set: "ok m \<Longrightarrow> ok (set_key k v m)"
    and ok_delete: "ok m \<Longrightarrow> ok (delete_key k m)"
begin

lemma get_set_same [simp]: "get (set_key k v m) k = Some v"
  by (simp add: get_set)

lemma get_set_other [simp]: "j \<noteq> k \<Longrightarrow> get (set_key k v m) j = get m j"
  by (simp add: get_set)

lemma get_delete_same [simp]: "get (delete_key k m) k = None"
  by (simp add: get_delete)

lemma get_delete_other [simp]: "j \<noteq> k \<Longrightarrow> get (delete_key k m) j = get m j"
  by (simp add: get_delete)

text \<open>Whatever holds of every value keeps holding when a value with it is set.\<close>

definition all_values :: "('k \<Rightarrow> 'v \<Rightarrow> bool) \<Rightarrow> 'm \<Rightarrow> bool" where
  "all_values P m \<longleftrightarrow> (\<forall>k v. get m k = Some v \<longrightarrow> P k v)"

lemma all_values_set: "all_values P m \<Longrightarrow> P k v \<Longrightarrow> all_values P (set_key k v m)"
  by (auto simp: all_values_def get_set)

lemma all_values_delete: "all_values P m \<Longrightarrow> all_values P (delete_key k m)"
  by (auto simp: all_values_def get_delete split: if_splits)

lemma move_to_end: "get m k = Some v \<Longrightarrow> get (set_key k v (delete_key k m)) = get m"
  by (auto simp: get_set get_delete)

end

interpretation jm: js_map map_of AList.update AList.delete map_ok
  by unfold_locales (simp_all add: map_get_set map_get_delete)

lemma length_map_set:
  "length (map_set k v m) = (if map_has m k then length m else Suc (length m))"
  by (induction m) auto

lemma length_map_delete_le: "length (map_delete k m) \<le> length m"
  by (simp add: AList.delete_eq)

lemma length_map_delete_has: "map_has m k \<Longrightarrow> length (map_delete k m) < length m"
proof (induction m)
  case Nil
  then show ?case by simp
next
  case (Cons p m)
  then show ?case
    by (cases "fst p = k") (auto simp: AList.delete_eq le_imp_less_Suc)
qed

section \<open>Chunks\<close>

text \<open>Position \<open>q\<close> lies in chunk \<open>i\<close> of size \<open>cs\<close>.\<close>

lemma div_eq_block:
  assumes "0 < (cs::nat)"
  shows "q div cs = i \<longleftrightarrow> i * cs \<le> q \<and> q < i * cs + cs"
proof
  assume "q div cs = i"
  then show "i * cs \<le> q \<and> q < i * cs + cs"
    using assms dividend_less_div_times [of cs q] by (auto simp: add.commute)
next
  assume "i * cs \<le> q \<and> q < i * cs + cs"
  then show "q div cs = i"
    by (intro div_nat_eqI) (auto simp: mult.commute)
qed

lemma upt_split: "i \<le> j \<Longrightarrow> j \<le> k \<Longrightarrow> [i..<k] = [i..<j] @ [j..<k]"
  using upt_add_eq_append [of i j "k - j"] by simp

section \<open>Byte sequences\<close>

text \<open>
  \<open>Uint8Array.prototype.subarray\<close> and \<open>Blob.prototype.slice\<close> with \<open>0 \<le> s\<close>: both clamp to the
  end, and are empty when \<open>e \<le> s\<close>.
\<close>

definition subarray :: "'a list \<Rightarrow> nat \<Rightarrow> nat \<Rightarrow> 'a list" where
  "subarray xs s e = take (e - s) (drop s xs)"

lemma length_subarray [simp, len_simps]: "length (subarray xs s e) = min e (length xs) - s"
  by (simp add: subarray_def)

lemma nth_subarray: "i < min e (length xs) - s \<Longrightarrow> subarray xs s e ! i = xs ! (s + i)"
  by (simp add: subarray_def)

lemma subarray_empty [simp]: "e \<le> s \<Longrightarrow> subarray xs s e = []"
  by (simp add: subarray_def)

lemma subarray_all [simp]: "length xs \<le> e \<Longrightarrow> subarray xs 0 e = xs"
  by (simp add: subarray_def)

lemma subarray_clamp: "length xs \<le> e \<Longrightarrow> subarray xs s e = subarray xs s (length xs)"
  by (simp add: subarray_def)

lemma subarray_min: "subarray xs s (min e (length xs)) = subarray xs s e"
  by (simp add: subarray_def min_def)

lemma subarray_append [bytes_simps]:
  "s \<le> m \<Longrightarrow> m \<le> e \<Longrightarrow> subarray xs s m @ subarray xs m e = subarray xs s e"
proof -
  assume a: "s \<le> m" "m \<le> e"
  then have "take (e - s) (drop s xs) =
      take (m - s) (drop s xs) @ take (e - s - (m - s)) (drop (m - s) (drop s xs))"
    by (metis add_diff_inverse_nat diff_le_mono not_less take_add)
  with a show ?thesis by (simp add: subarray_def)
qed

lemma subarray_subarray [bytes_simps]:
  "subarray (subarray xs a b) s e = subarray xs (a + s) (min b (a + e))"
  by (rule nth_equalityI) (auto simp: nth_subarray add.assoc)

lemma subarray_eqI:
  assumes "length ys = e - s" and "e \<le> length xs"
    and "\<And>i. i < e - s \<Longrightarrow> ys ! i = xs ! (s + i)"
  shows "ys = subarray xs s e"
  using assms by (intro nth_equalityI) (auto simp: nth_subarray)

text \<open>\<open>data\<close> over \<open>buf\<close> at \<open>off\<close>: what a write into a view of a buffer leaves in the buffer.\<close>

definition overwrite :: "'a list \<Rightarrow> 'a list \<Rightarrow> nat \<Rightarrow> 'a list" where
  "overwrite buf d off = take off buf @ d @ drop (off + length d) buf"

lemma length_overwrite [simp, len_simps]:
  "off + length d \<le> length buf \<Longrightarrow> length (overwrite buf d off) = length buf"
  by (simp add: overwrite_def)

lemma nth_overwrite:
  "off + length d \<le> length buf \<Longrightarrow> i < length buf \<Longrightarrow>
   overwrite buf d off ! i = (if off \<le> i \<and> i < off + length d then d ! (i - off) else buf ! i)"
  by (auto simp: overwrite_def nth_append min_def)

lemma overwrite_Nil [simp]: "overwrite buf [] off = buf"
  by (simp add: overwrite_def)

lemma overwrite_append [bytes_simps]:
  assumes "off + length d + length d' \<le> length buf"
  shows "overwrite (overwrite buf d off) d' (off + length d) = overwrite buf (d @ d') off"
  using assms by (intro nth_equalityI) (auto simp: nth_overwrite nth_append)

lemma map_upt_shift: "map f [a..<a + n] = map (\<lambda>q. f (a + (q - b))) [b..<b + n]"
  by (rule nth_equalityI) auto

lemma subarray_map_upt: "subarray (map g [0..<n]) s e = map g [s..<min e n]"
  by (rule nth_equalityI) (simp_all add: nth_subarray less_diff_conv add.commute)

text \<open>\<open>buf.set(d, off)\<close> throws a \<open>RangeError\<close> when \<open>d\<close> does not fit.\<close>

definition u8_set :: "bytes \<Rightarrow> bytes \<Rightarrow> nat \<Rightarrow> bytes result" where
  "u8_set buf d off =
     (if off + length d \<le> length buf then Inr (overwrite buf d off) else Inl RangeError)"

lemma u8_set_ok [simp]:
  "off + length d \<le> length buf \<Longrightarrow> u8_set buf d off = Inr (overwrite buf d off)"
  by (simp add: u8_set_def)

text \<open>\<open>new Uint8Array(n)\<close> is \<open>n\<close> zeros.\<close>

abbreviation zeros :: "nat \<Rightarrow> bytes" where
  "zeros n \<equiv> replicate n 0"

text \<open>\<open>buf.fill(0, s, e)\<close> clamps its bounds.\<close>

definition u8_fill0 :: "bytes \<Rightarrow> nat \<Rightarrow> nat \<Rightarrow> bytes" where
  "u8_fill0 buf s e =
     take s buf @ zeros (min e (length buf) - s) @ drop (max s e) buf"

lemma length_u8_fill0 [simp, len_simps]: "length (u8_fill0 buf s e) = length buf"
  by (auto simp: u8_fill0_def min_def max_def)

lemma nth_u8_fill0:
  "i < length buf \<Longrightarrow>
   u8_fill0 buf s e ! i = (if s \<le> i \<and> i < e then 0 else buf ! i)"
  by (auto simp: u8_fill0_def nth_append min_def max_def)

end
