(* ===== verification/Sync_File.thy ===== *)
theory Sync_File
  imports Prelude
begin

text \<open>
  The read side of the interface \<open>SyncFile\<close> of opfs.ts, and what its clients rely on. A file is
  a state and a function that reads into a buffer at an offset: it returns the new state, the
  buffer as it left it, and the number of bytes read or the error it threw. Every file of the
  library that only reads (\<open>readOnlyFile\<close>, \<open>readOnlyFileAt\<close>, the files of layers) is an instance
  of the locale below.
\<close>

type_synonym 'f reader = "'f \<Rightarrow> bytes \<Rightarrow> nat \<Rightarrow> 'f \<times> bytes \<times> nat result"

text \<open>
  A buffer after a read of \<open>content\<close> at \<open>ofs\<close>: as many bytes as there are, at the front, and
  the rest as it was.
\<close>

definition read_buffer :: "bytes \<Rightarrow> bytes \<Rightarrow> nat \<Rightarrow> bytes" where
  "read_buffer content buf ofs = overwrite buf (subarray content ofs (ofs + length buf)) 0"

definition read_count :: "bytes \<Rightarrow> bytes \<Rightarrow> nat \<Rightarrow> nat" where
  "read_count content buf ofs = min (length buf) (length content - ofs)"

lemma length_read_buffer [simp, len_simps]: "length (read_buffer c buf ofs) = length buf"
  by (simp add: read_buffer_def)

lemma read_count_le [simp]: "read_count c buf ofs \<le> length buf"
  by (simp add: read_count_def)

lemma nth_read_buffer:
  "i < length buf \<Longrightarrow>
   read_buffer c buf ofs ! i = (if i < read_count c buf ofs then c ! (ofs + i) else buf ! i)"
  by (auto simp: read_buffer_def read_count_def nth_overwrite nth_subarray)

lemma read_buffer_past_end [simp]: "length c \<le> ofs \<Longrightarrow> read_buffer c buf ofs = buf"
  by (rule nth_equalityI) (auto simp: nth_read_buffer read_count_def)

lemma read_buffer_Nil [simp]: "read_buffer c [] ofs = []"
  by (simp add: read_buffer_def overwrite_def)

lemma read_count_0: "min (ofs + length buf) (length c) \<le> ofs \<Longrightarrow>
  read_count c buf ofs = 0 \<and> read_buffer c buf ofs = buf"
  by (auto simp: read_count_def min_le_iff_disj)

lemma read_buffer_split:
  "read_buffer c buf ofs =
   subarray c ofs (ofs + read_count c buf ofs) @ drop (read_count c buf ofs) buf"
  by (rule nth_equalityI)
    (auto simp: nth_read_buffer nth_append nth_subarray read_count_def min_def)

text \<open>
  The contract: with a file in order, a read leaves it in order, keeps the length of the buffer,
  and if it returns, it returns the count and leaves the bytes of the content in the buffer. If it
  throws, nothing is known of the buffer. \<open>never_fails\<close> holds for files that cannot throw.
\<close>

locale sync_file =
  fixes read :: "'f reader"
    and ok :: "'f \<Rightarrow> bool"
    and content :: bytes
  assumes read_ok: "ok f \<Longrightarrow> read f buf ofs = (f', buf', r) \<Longrightarrow> ok f'"
    and read_length: "ok f \<Longrightarrow> read f buf ofs = (f', buf', r) \<Longrightarrow> length buf' = length buf"
    and read_Inr: "ok f \<Longrightarrow> read f buf ofs = (f', buf', Inr n) \<Longrightarrow>
      n = read_count content buf ofs \<and> buf' = read_buffer content buf ofs"
begin

lemma read_full:
  assumes "ok f" and "read f buf ofs = (f', buf', Inr n)" and "ofs + length buf \<le> length content"
  shows "n = length buf \<and> buf' = subarray content ofs (ofs + length buf)"
proof -
  from read_Inr [OF assms(1,2)] have n: "n = length buf" and b: "buf' = read_buffer content buf ofs"
    using assms(3) by (auto simp: read_count_def)
  have "read_buffer content buf ofs = subarray content ofs (ofs + length buf)"
    using assms(3)
    by (intro nth_equalityI) (auto simp: nth_read_buffer read_count_def nth_subarray)
  with n b show ?thesis by simp
qed

lemma read_short:
  assumes "ok f" and "read f buf ofs = (f', buf', Inr n)" and "n < length buf"
  shows "length content < ofs + length buf"
  using read_Inr [OF assms(1,2)] assms(3) by (auto simp: read_count_def)

text \<open>Two reads of the same bytes agree, whatever the file did in between.\<close>

lemma reads_agree:
  assumes "ok f" and "read f buf ofs = (f1, buf1, Inr n)"
    and "ok g" and "read g buf ofs = (g1, buf2, Inr m)"
  shows "n = m \<and> buf1 = buf2"
  using read_Inr [OF assms(1,2)] read_Inr [OF assms(3,4)] by simp

end

section \<open>Reading through a view, with zeros past the end\<close>

text \<open>
  \<open>fill\<close> of \<open>layerFile\<close> (snapshots.ts): read \<open>len\<close> bytes at \<open>pos\<close> of a file into a buffer at
  \<open>offset\<close>, with zeros past the file's end. \<open>buffer.subarray\<close> is a view, so what the file leaves
  in it is left in the buffer, also when it throws.
\<close>

definition fill :: "'f reader \<Rightarrow> 'f \<Rightarrow> bytes \<Rightarrow> nat \<Rightarrow> nat \<Rightarrow> nat \<Rightarrow> 'f \<times> bytes \<times> unit result" where
  "fill read f buffer offset len pos =
     (let part = subarray buffer offset (offset + len);
          (f', part', r) = read f part pos
      in case r of
           Inl e \<Rightarrow> (f', overwrite buffer part' offset, Inl e)
         | Inr n \<Rightarrow>
             let part'' = (if n < len then u8_fill0 part' n (length part') else part')
             in (f', overwrite buffer part'' offset, Inr ()))"

context sync_file
begin

lemma fill_ok: "ok f \<Longrightarrow> fill read f buf offset len pos = (f', buf', r) \<Longrightarrow> ok f'"
  by (auto simp: fill_def Let_def split: prod.splits sum.splits dest: read_ok)

lemma fill_length:
  assumes "ok f" and "fill read f buf offset len pos = (f', buf', r)" and "offset + len \<le> length buf"
  shows "length buf' = length buf"
  using assms by (auto simp: fill_def Let_def split: prod.splits sum.splits dest!: read_length)

lemma fill_Inr:
  assumes "ok f" and "fill read f buf offset len pos = (f', buf', Inr u)"
    and "offset + len \<le> length buf"
  shows "buf' = overwrite buf (map (\<lambda>i. if i < length content then content ! i else 0) [pos..<pos + len]) offset"
proof -
  define part where "part = subarray buf offset (offset + len)"
  have len_part: "length part = len"
    using assms(3) by (simp add: part_def)
  obtain part' n where rd: "read f part pos = (f', part', Inr n)"
    and buf': "buf' = overwrite buf (if n < len then u8_fill0 part' n (length part') else part') offset"
    using assms(2) by (auto simp: fill_def Let_def part_def split: prod.splits sum.splits)
  from read_Inr [OF assms(1) rd] have n: "n = read_count content part pos"
    and p': "part' = read_buffer content part pos" by auto
  have nth: "(if n < len then u8_fill0 part' n (length part') else part') ! i =
      (if pos + i < length content then content ! (pos + i) else 0)" if "i < len" for i
    using that by (auto simp: n p' len_part nth_u8_fill0 nth_read_buffer read_count_def)
  have "length (if n < len then u8_fill0 part' n (length part') else part') = len"
    by (simp add: p' len_part)
  then have "(if n < len then u8_fill0 part' n (length part') else part') =
      map (\<lambda>i. if i < length content then content ! i else 0) [pos..<pos + len]"
    by (intro nth_equalityI) (simp_all only: nth length_map length_upt nth_map nth_upt, simp_all)
  with buf' show ?thesis by simp
qed

end

end
