(* ===== verification/Base_Source.thy ===== *)
theory Base_Source
  imports Sync_File
begin

text \<open>
  \<open>BaseSource\<close> of snapshots.ts: content that does not change, a \<open>Blob\<close> or \<open>File\<close>, or bytes in
  memory. Both hold bytes; they differ in how a file reads them (Read_Only_File).
\<close>

datatype source = Bytes bytes | Blob bytes

fun source_bytes :: "source \<Rightarrow> bytes" where
  "source_bytes (Bytes b) = b"
| "source_bytes (Blob b) = b"

fun is_blob :: "source \<Rightarrow> bool" where
  "is_blob (Bytes _) = False"
| "is_blob (Blob _) = True"

definition sizeOf :: "source \<Rightarrow> nat" where
  "sizeOf src = (case src of Bytes b \<Rightarrow> length b | Blob b \<Rightarrow> length b)"

definition slice :: "source \<Rightarrow> nat \<Rightarrow> nat \<Rightarrow> source" where
  "slice src s e = (case src of Bytes b \<Rightarrow> Bytes (subarray b s e) | Blob b \<Rightarrow> Blob (subarray b s e))"

lemma sizeOf_bytes [simp]: "sizeOf src = length (source_bytes src)"
  by (cases src) (simp_all add: sizeOf_def)

lemma source_bytes_slice [simp, bytes_simps]:
  "source_bytes (slice src s e) = subarray (source_bytes src) s e"
  by (cases src) (simp_all add: slice_def)

lemma is_blob_slice [simp]: "is_blob (slice src s e) = is_blob src"
  by (cases src) (simp_all add: slice_def)

lemma slice_slice [bytes_simps]:
  "slice (slice src a b) s e = slice src (a + s) (min b (a + e))"
  by (cases src) (simp_all add: slice_def subarray_subarray)

end
