(* ===== verification/Read_Only_File.thy ===== *)
theory Read_Only_File
  imports Base_Source
begin

text \<open>
  \<open>readOnlyFile\<close> of snapshots.ts: a read-only \<open>SyncFile\<close> over a \<open>BaseSource\<close>. Bytes are copied
  out of the array. A \<open>Blob\<close> is read with \<open>FileReaderSync\<close>, in blocks where that pays: the file
  keeps where its previous read ended and a \<open>Map\<close> of blocks, least recently used first.

  \<open>FileReaderSync\<close> is the platform's: the parameter \<open>rd s e\<close> is what
  \<open>reader.readAsArrayBuffer(source.slice(s, e))\<close> gives, and \<open>reader_ok\<close> is what is documented of
  it: it returns exactly those bytes, or throws (\<open>NotReadableError\<close>). It may throw at some reads
  and return at others.
\<close>

type_synonym blob_reader = "nat \<Rightarrow> nat \<Rightarrow> bytes result"

definition reader_ok :: "blob_reader \<Rightarrow> bytes \<Rightarrow> bool" where
  "reader_ok rd b \<longleftrightarrow> (\<forall>s e d. rd s e = Inr d \<longrightarrow> d = subarray b s e)"

lemma reader_okD: "reader_ok rd b \<Longrightarrow> rd s e = Inr d \<Longrightarrow> d = subarray b s e"
  by (simp add: reader_ok_def)

text \<open>The closure's constants: the size of the Blob, \<open>blockSize\<close> and \<open>capacity\<close>.\<close>

record ro_params =
  blob_size :: nat
  blockSize :: nat
  capacity :: nat

type_synonym block_cache = "(nat \<times> bytes) list"

text \<open>Its variables: \<open>cached\<close> and \<open>previousEnd\<close>, which starts at \<open>-1\<close>.\<close>

record ro_state =
  cached :: block_cache
  previousEnd :: int

definition BLOCK_BYTES :: nat where "BLOCK_BYTES = 1048576"
definition CACHED_BLOCKS :: nat where "CACHED_BLOCKS = 4"

definition ro_init :: "block_cache \<Rightarrow> ro_state" where
  "ro_init c = \<lparr>cached = c, previousEnd = -1\<rparr>"

section \<open>The operations\<close>

text \<open>
  \<open>block(index)\<close>: a kept block moves to the end of the \<open>Map\<close>; another is read, and replaces the
  first one when the \<open>Map\<close> is full. A throw of the reader leaves the \<open>Map\<close> as it was.
\<close>

definition ro_block :: "blob_reader \<Rightarrow> ro_params \<Rightarrow> block_cache \<Rightarrow> nat \<Rightarrow> (bytes \<times> block_cache) result" where
  "ro_block rd p c index =
     (let keep = (\<lambda>d c'. if 0 < capacity p then map_set index d c' else c')
      in case map_get c index of
           Some d \<Rightarrow> Inr (d, keep d (map_delete index c))
         | None \<Rightarrow>
             let start = index * blockSize p
             in and_then (rd start (min (start + blockSize p) (blob_size p)))
                  (\<lambda>d. Inr (d, keep d (if capacity p \<le> length c \<and> 0 < capacity p
                                     then map_delete (fst (hd c)) c else c))))"

text \<open>
  The loop over the blocks of a read of \<open>ofs\<close> to \<open>stop\<close> (\<open>end\<close> in the code): the part of each block that is asked for
  is copied to its place in the buffer.
\<close>

primrec ro_copy :: "blob_reader \<Rightarrow> ro_params \<Rightarrow> nat \<Rightarrow> nat \<Rightarrow> nat list \<Rightarrow> block_cache \<Rightarrow> bytes \<Rightarrow>
    block_cache \<times> bytes \<times> unit result" where
  "ro_copy rd p ofs stop [] c buf = (c, buf, Inr ())"
| "ro_copy rd p ofs stop (i # is) c buf =
     (case ro_block rd p c i of
        Inl e \<Rightarrow> (c, buf, Inl e)
      | Inr (d, c') \<Rightarrow>
          let start = i * blockSize p;
              from = max ofs start;
              to = min stop (start + length d)
          in case u8_set buf (subarray d (from - start) (to - start)) (from - ofs) of
               Inl e \<Rightarrow> (c', buf, Inl e)
             | Inr buf' \<Rightarrow> ro_copy rd p ofs stop is c' buf')"

text \<open>Whether every block of the range is kept.\<close>

definition all_kept :: "block_cache \<Rightarrow> nat list \<Rightarrow> bool" where
  "all_kept c is \<longleftrightarrow> list_all (\<lambda>i. map_has c i) is"

definition ro_blocks :: "ro_params \<Rightarrow> nat \<Rightarrow> nat \<Rightarrow> nat list" where
  "ro_blocks p ofs stop = [ofs div blockSize p..<Suc ((stop - 1) div blockSize p)]"

text \<open>Whether a read goes by whole blocks: it continues the previous one, or needs no other.\<close>

definition ro_whole :: "ro_params \<Rightarrow> ro_state \<Rightarrow> nat \<Rightarrow> nat \<Rightarrow> bool" where
  "ro_whole p st ofs stop \<longleftrightarrow>
     (0 < capacity p \<and> previousEnd st \<le> int ofs \<and> int ofs < previousEnd st + int (blockSize p))
     \<or> all_kept (cached st) (ro_blocks p ofs stop)"

definition ro_read_blob :: "blob_reader \<Rightarrow> ro_params \<Rightarrow> ro_state reader" where
  "ro_read_blob rd p st buf ofs =
     (let stop = min (ofs + length buf) (blob_size p)
      in if stop \<le> ofs then (st, buf, Inr 0)
         else
           let whole = ro_whole p st ofs stop;
               st' = st\<lparr>previousEnd := int stop\<rparr>
           in if \<not> whole then
                (case and_then (rd ofs stop) (\<lambda>d. u8_set buf d 0) of
                   Inl e \<Rightarrow> (st', buf, Inl e)
                 | Inr buf' \<Rightarrow> (st', buf', Inr (stop - ofs)))
              else
                (case ro_copy rd p ofs stop (ro_blocks p ofs stop) (cached st) buf of
                   (c, buf', Inl e) \<Rightarrow> (st'\<lparr>cached := c\<rparr>, buf', Inl e)
                 | (c, buf', Inr _) \<Rightarrow> (st'\<lparr>cached := c\<rparr>, buf', Inr (stop - ofs))))"

text \<open>For bytes: \<open>source.subarray(at, at + buffer.length)\<close>, copied to the front of the buffer.\<close>

definition ro_read_bytes :: "bytes \<Rightarrow> unit reader" where
  "ro_read_bytes b st buf ofs =
     (let d = subarray b ofs (ofs + length buf)
      in case u8_set buf d 0 of
           Inl e \<Rightarrow> (st, buf, Inl e)
         | Inr buf' \<Rightarrow> (st, buf', Inr (length d)))"

text \<open>The file: bytes need no state, so their \<open>ro_state\<close> stays as it is.\<close>

definition ro_read :: "blob_reader \<Rightarrow> nat \<Rightarrow> nat \<Rightarrow> source \<Rightarrow> ro_state reader" where
  "ro_read rd bs cap src st buf ofs =
     (case src of
        Bytes b \<Rightarrow> (case ro_read_bytes b () buf ofs of (_, buf', r) \<Rightarrow> (st, buf', r))
      | Blob b \<Rightarrow>
          ro_read_blob rd \<lparr>blob_size = length b, blockSize = bs, capacity = cap\<rparr> st buf ofs)"

text \<open>\<open>write\<close> and \<open>truncate\<close> throw; \<open>flush\<close> and \<open>close\<close> do nothing.\<close>

definition ro_write :: "bytes \<Rightarrow> nat \<Rightarrow> nat result" where
  "ro_write buf ofs = Inl (SqliteError SQLITE_READONLY)"

definition ro_truncate :: "nat \<Rightarrow> unit result" where
  "ro_truncate n = Inl (SqliteError SQLITE_READONLY)"

definition ro_getSize :: "source \<Rightarrow> nat" where
  "ro_getSize src = sizeOf src"

section \<open>What the blocks hold\<close>

text \<open>
  The invariant: every kept block is the block of the Blob at its index, the keys are distinct,
  and no more blocks are kept than the capacity.
\<close>

definition block_of :: "bytes \<Rightarrow> nat \<Rightarrow> nat \<Rightarrow> bytes" where
  "block_of b bs i = subarray b (i * bs) (i * bs + bs)"

definition cache_ok :: "bytes \<Rightarrow> nat \<Rightarrow> nat \<Rightarrow> block_cache \<Rightarrow> bool" where
  "cache_ok b bs cap c \<longleftrightarrow>
     map_ok c \<and> length c \<le> cap \<and> jm.all_values (\<lambda>i d. d = block_of b bs i) c"

lemma cache_ok_Nil [simp]: "cache_ok b bs cap []"
  by (simp add: cache_ok_def jm.all_values_def)

lemma cache_ok_get: "cache_ok b bs cap c \<Longrightarrow> map_get c i = Some d \<Longrightarrow> d = block_of b bs i"
  by (simp add: cache_ok_def jm.all_values_def)

lemma cache_ok_cap0: "cache_ok b bs 0 c \<Longrightarrow> c = []"
  by (simp add: cache_ok_def)

lemma cache_ok_delete: "cache_ok b bs cap c \<Longrightarrow> cache_ok b bs cap (map_delete i c)"
  using length_map_delete_le [of i c] by (auto simp: cache_ok_def intro: jm.all_values_delete)

text \<open>Making room and setting a new block, or moving a kept one, keeps the invariant.\<close>

lemma cache_ok_set:
  "cache_ok b bs cap c \<Longrightarrow> length c < cap \<or> map_has c i \<Longrightarrow>
   cache_ok b bs cap (map_set i (block_of b bs i) c)"
  by (auto simp: cache_ok_def length_map_set intro: jm.all_values_set)

lemma length_evict:
  "map_ok c \<Longrightarrow> c \<noteq> [] \<Longrightarrow> length (map_delete (fst (hd c)) c) < length c"
  by (rule length_map_delete_has) (cases c; auto)

section \<open>Reads give the bytes of the Blob\<close>

lemma ro_block_Inr:
  assumes "reader_ok rd b" and "blob_size p = length b"
    and "cache_ok b (blockSize p) (capacity p) c"
    and "ro_block rd p c i = Inr (d, c')"
  shows "d = block_of b (blockSize p) i \<and> cache_ok b (blockSize p) (capacity p) c'"
proof (cases "map_get c i")
  case (Some x)
  then have x: "x = block_of b (blockSize p) i"
    using assms(3) by (rule cache_ok_get [rotated])
  have "length (map_delete i c) < capacity p"
    using length_map_delete_has [of c i] assms(3) Some by (simp add: cache_ok_def)
  then show ?thesis
    using assms(3,4) Some x cache_ok_delete [OF assms(3), of i]
    by (auto simp: ro_block_def Let_def intro: cache_ok_set split: if_splits)
next
  case None
  let ?c = "if capacity p \<le> length c \<and> 0 < capacity p then map_delete (fst (hd c)) c else c"
  from None assms(4) have rd: "rd (i * blockSize p) (min (i * blockSize p + blockSize p) (blob_size p)) = Inr d"
    and c': "c' = (if 0 < capacity p then map_set i d ?c else ?c)"
    by (auto simp: ro_block_def Let_def and_then_eq_Inr)
  from assms(1) rd
  have "d = subarray b (i * blockSize p) (min (i * blockSize p + blockSize p) (length b))"
    unfolding assms(2) by (rule reader_okD)
  then have d: "d = block_of b (blockSize p) i"
    by (simp only: subarray_min block_of_def)
  have ok: "cache_ok b (blockSize p) (capacity p) ?c"
    using assms(3) by (auto intro: cache_ok_delete)
  have "length ?c < capacity p" if "0 < capacity p"
    using that length_evict [of c] assms(3) by (cases "c = []") (auto simp: cache_ok_def)
  with ok d c' show ?thesis by (auto intro!: cache_ok_set)
qed

text \<open>The part of a block that a read of \<open>ofs\<close> to \<open>stop\<close> asks for.\<close>

lemma block_part:
  assumes "i * bs \<le> stop" and "stop \<le> length b" and "ofs \<le> i * bs + bs"
  shows "subarray (block_of b bs i) (max ofs (i * bs) - i * bs)
      (min stop (i * bs + length (block_of b bs i)) - i * bs)
    = subarray b (max ofs (i * bs)) (min stop (i * bs + bs))"
  using assms by (auto simp: block_of_def subarray_subarray min_def max_def intro: arg_cong)

text \<open>
  What the loop leaves in the buffer: the bytes of the blocks it went through, where the read asks
  for them, and everything else as it was.
\<close>

definition asked :: "nat \<Rightarrow> nat \<Rightarrow> nat \<Rightarrow> nat list \<Rightarrow> nat \<Rightarrow> bool" where
  "asked bs ofs stop is q \<longleftrightarrow> ofs \<le> q \<and> q < stop \<and> q div bs \<in> set is"

lemma ro_copy_ok:
  assumes "reader_ok rd b" and "blob_size p = length b" and "0 < blockSize p"
    and "stop \<le> length b" and "stop \<le> ofs + length buf"
    and "\<And>i. i \<in> set is \<Longrightarrow> i * blockSize p < stop \<and> ofs \<le> i * blockSize p + blockSize p"
    and "cache_ok b (blockSize p) (capacity p) c"
    and "ro_copy rd p ofs stop is c buf = (c', buf', r)"
  shows "cache_ok b (blockSize p) (capacity p) c' \<and> length buf' = length buf
    \<and> (r = Inr () \<longrightarrow> (\<forall>j < length buf. buf' ! j =
          (if asked (blockSize p) ofs stop is (ofs + j) then b ! (ofs + j) else buf ! j)))"
  using assms(5-8)
proof (induction "is" arbitrary: c buf)
  case Nil
  then show ?case by (simp add: asked_def)
next
  case (Cons i "is")
  let ?bs = "blockSize p"
  show ?case
  proof (cases "ro_block rd p c i")
    case (Inl e)
    with Cons.prems show ?thesis by auto
  next
    case (Inr dc)
    obtain d c1 where dc: "dc = (d, c1)" by (cases dc)
    from ro_block_Inr [OF assms(1,2) Cons.prems(3)] Inr dc
    have d: "d = block_of b ?bs i" and c1: "cache_ok b ?bs (capacity p) c1" by auto
    define lo where "lo = max ofs (i * ?bs)"
    define hi where "hi = min stop (i * ?bs + ?bs)"
    have i: "i * ?bs < stop" "ofs \<le> i * ?bs + ?bs" using Cons.prems(2) [of i] by auto
    have hi: "hi \<le> length b" "hi \<le> ofs + length buf" "ofs \<le> lo"
      using assms(4) Cons.prems(1) by (auto simp: hi_def lo_def)
    have part: "subarray d (lo - i * ?bs) (min stop (i * ?bs + length d) - i * ?bs) = subarray b lo hi"
      using block_part [of i ?bs stop b ofs] i assms(4) by (simp add: d lo_def hi_def)
    have len: "length (subarray b lo hi) = hi - lo" using hi by simp
    then have fits: "lo - ofs + length (subarray b lo hi) \<le> length buf"
      using hi Cons.prems(1) i by (auto simp: lo_def hi_def)
    define buf1 where "buf1 = overwrite buf (subarray b lo hi) (lo - ofs)"
    have len1: "length buf1 = length buf" using fits by (simp add: buf1_def)
    have eq: "ro_copy rd p ofs stop is c1 buf1 = (c', buf', r)"
      using Cons.prems(4) Inr dc part fits by (simp add: Let_def buf1_def lo_def)
    have asked_i: "asked ?bs ofs stop [i] q \<longleftrightarrow> lo \<le> q \<and> q < hi" for q
      using div_eq_block [OF assms(3), of q i] by (auto simp: asked_def lo_def hi_def)
    have nth1: "buf1 ! j = (if asked ?bs ofs stop [i] (ofs + j) then b ! (ofs + j) else buf ! j)"
      if j: "j < length buf" for j
      unfolding asked_i buf1_def nth_overwrite [OF fits j] len
      using hi by (auto simp: nth_subarray add.commute)
    have IH: "cache_ok b ?bs (capacity p) c' \<and> length buf' = length buf1
      \<and> (r = Inr () \<longrightarrow> (\<forall>j < length buf1. buf' ! j =
            (if asked ?bs ofs stop is (ofs + j) then b ! (ofs + j) else buf1 ! j)))"
      by (rule Cons.IH) (use Cons.prems(1,2) len1 c1 eq in auto)
    show ?thesis
    proof (intro conjI impI allI)
      show "cache_ok b ?bs (capacity p) c'" and "length buf' = length buf"
        using IH len1 by simp_all
    next
      fix j
      assume "r = Inr ()" and j: "j < length buf"
      with IH len1 have "buf' ! j = (if asked ?bs ofs stop is (ofs + j) then b ! (ofs + j) else buf1 ! j)"
        by simp
      with nth1 [OF j] show "buf' ! j =
          (if asked ?bs ofs stop (i # is) (ofs + j) then b ! (ofs + j) else buf ! j)"
        by (auto simp: asked_def split: if_splits)
    qed
  qed
qed

text \<open>A file is in order while its blocks are, for a reader that keeps its contract.\<close>

definition ro_ok :: "blob_reader \<Rightarrow> nat \<Rightarrow> nat \<Rightarrow> source \<Rightarrow> ro_state \<Rightarrow> bool" where
  "ro_ok rd bs cap src st \<longleftrightarrow>
     (case src of Bytes b \<Rightarrow> True
      | Blob b \<Rightarrow> reader_ok rd b \<and> 0 < bs \<and> cache_ok b bs cap (cached st))"

lemma ro_ok_init: "reader_ok rd (source_bytes src) \<Longrightarrow> 0 < bs \<Longrightarrow> ro_ok rd bs cap src (ro_init [])"
  by (cases src) (simp_all add: ro_ok_def ro_init_def)

lemma ro_read_bytes_eq:
  "ro_read_bytes b st buf ofs = (st, read_buffer b buf ofs, Inr (read_count b buf ofs))"
proof -
  have "length (subarray b ofs (ofs + length buf)) = read_count b buf ofs"
    by (simp add: read_count_def; arith)
  then show ?thesis
    by (simp add: ro_read_bytes_def Let_def read_buffer_def u8_set_def)
qed

lemma ro_blocks_asked:
  assumes "0 < bs" and "ofs < stop"
  shows "i \<in> set (ro_blocks p ofs stop) \<Longrightarrow> blockSize p = bs \<Longrightarrow> i * bs < stop \<and> ofs \<le> i * bs + bs"
    and "blockSize p = bs \<Longrightarrow> asked bs ofs stop (ro_blocks p ofs stop) q \<longleftrightarrow> ofs \<le> q \<and> q < stop"
proof -
  assume i: "i \<in> set (ro_blocks p ofs stop)" and p: "blockSize p = bs"
  then have lo: "ofs div bs \<le> i" and hi: "i \<le> (stop - 1) div bs"
    by (auto simp: ro_blocks_def)
  have "ofs < (ofs div bs) * bs + bs"
    using assms(1) div_eq_block [of bs ofs "ofs div bs"] by simp
  moreover have "(ofs div bs) * bs \<le> i * bs" "i * bs \<le> (stop - 1) div bs * bs"
    using lo hi by simp_all
  moreover have "(stop - 1) div bs * bs \<le> stop - 1" by simp
  ultimately show "i * bs < stop \<and> ofs \<le> i * bs + bs" using assms(2) by linarith
next
  assume "blockSize p = bs"
  moreover have "q div bs \<le> (stop - 1) div bs" if "q < stop"
    using that by (intro div_le_mono) simp
  moreover have "ofs div bs \<le> q div bs" if "ofs \<le> q"
    using that by (rule div_le_mono)
  ultimately show "asked bs ofs stop (ro_blocks p ofs stop) q \<longleftrightarrow> ofs \<le> q \<and> q < stop"
    by (auto simp: asked_def ro_blocks_def less_Suc_eq_le)
qed

lemma ro_read_blob_ok:
  assumes "reader_ok rd b" and "p = \<lparr>blob_size = length b, blockSize = bs, capacity = cap\<rparr>"
    and "0 < bs" and "cache_ok b bs cap (cached st)"
    and "ro_read_blob rd p st buf ofs = (st', buf', r)"
  shows "cache_ok b bs cap (cached st') \<and> length buf' = length buf
    \<and> (\<forall>n. r = Inr n \<longrightarrow> n = read_count b buf ofs \<and> buf' = read_buffer b buf ofs)"
proof -
  define stop where "stop = min (ofs + length buf) (length b)"
  consider (past) "stop \<le> ofs" | (direct) "ofs < stop" "\<not> ro_whole p st ofs stop"
    | (blocks) "ofs < stop" "ro_whole p st ofs stop" by linarith
  then show ?thesis
  proof cases
    case past
    then show ?thesis
      using assms(4,5) read_count_0 [of ofs buf b]
      by (auto simp: ro_read_blob_def Let_def assms(2) stop_def)
  next
    case direct
    have buf: "overwrite buf (subarray b ofs stop) 0 = read_buffer b buf ofs"
      by (simp add: read_buffer_def stop_def subarray_min)
    from direct assms(4,5) show ?thesis
      by (auto simp: ro_read_blob_def Let_def assms(2) stop_def [symmetric] and_then_def u8_set_def
          read_count_def buf dest!: reader_okD [OF assms(1)] split: sum.splits if_splits)
        (auto simp: stop_def)
  next
    case blocks
    obtain c buf1 r1 where cp: "ro_copy rd p ofs stop (ro_blocks p ofs stop) (cached st) buf = (c, buf1, r1)"
      by (cases "ro_copy rd p ofs stop (ro_blocks p ofs stop) (cached st) buf")
    have st': "cached st' = c" "buf' = buf1"
      and r: "\<And>n. r = Inr n \<Longrightarrow> r1 = Inr () \<and> n = stop - ofs"
      using assms(5) blocks cp
      by (auto simp: ro_read_blob_def Let_def assms(2) stop_def [symmetric] split: sum.splits)
    have bs: "blockSize p = bs" by (simp add: assms(2))
    have cp_ok: "cache_ok b bs cap c \<and> length buf1 = length buf
      \<and> (r1 = Inr () \<longrightarrow> (\<forall>j < length buf. buf1 ! j =
          (if asked bs ofs stop (ro_blocks p ofs stop) (ofs + j) then b ! (ofs + j) else buf ! j)))"
      using ro_copy_ok [OF assms(1) _ _ _ _ _ _ cp] assms(2-4) blocks
        ro_blocks_asked(1) [OF assms(3) blocks(1) _ bs]
      by (auto simp: stop_def)
    moreover have "buf1 = read_buffer b buf ofs" if "r1 = Inr ()"
      using cp_ok that ro_blocks_asked(2) [OF assms(3) blocks(1) bs]
      by (intro nth_equalityI) (auto simp: nth_read_buffer read_count_def stop_def)
    ultimately show ?thesis
      using st' r by (auto simp: read_count_def stop_def)
  qed
qed

lemma ro_read_all:
  assumes "ro_ok rd bs cap src st" and "ro_read rd bs cap src st buf ofs = (st', buf', r)"
  shows "ro_ok rd bs cap src st' \<and> length buf' = length buf
    \<and> (\<forall>n. r = Inr n \<longrightarrow> n = read_count (source_bytes src) buf ofs
            \<and> buf' = read_buffer (source_bytes src) buf ofs)"
proof (cases src)
  case (Bytes b)
  then show ?thesis using assms by (auto simp: ro_read_def ro_read_bytes_eq ro_ok_def)
next
  case (Blob b)
  then show ?thesis
    using assms ro_read_blob_ok [of rd b _ bs cap st buf ofs st' buf' r]
    by (simp add: ro_read_def ro_ok_def)
qed

interpretation ro: sync_file "ro_read rd bs cap src" "ro_ok rd bs cap src" "source_bytes src"
  for rd bs cap src
  by unfold_locales (blast dest: ro_read_all)+

section \<open>When the Blob is read\<close>

text \<open>A kept block is not read again: it is moved to the end of the \<open>Map\<close>, which keeps every block.\<close>

lemma ro_block_kept:
  "0 < capacity p \<Longrightarrow> map_get c i = Some d \<Longrightarrow>
   ro_block rd p c i = Inr (d, map_set i d (map_delete i c))"
  by (simp add: ro_block_def)

lemma all_kept_move:
  "map_get c i = Some d \<Longrightarrow> all_kept (map_set i d (map_delete i c)) is = all_kept c is"
  by (simp add: all_kept_def jm.move_to_end)

lemma ro_copy_kept:
  "0 < capacity p \<Longrightarrow> all_kept c is \<Longrightarrow>
   ro_copy rd p ofs stop is c buf = ro_copy rd' p ofs stop is c buf"
proof (induction "is" arbitrary: c buf)
  case Nil
  then show ?case by simp
next
  case (Cons i "is")
  then obtain d where d: "map_get c i = Some d" and kept: "all_kept c is"
    by (auto simp: all_kept_def)
  let ?c = "map_set i d (map_delete i c)"
  have "ro_copy rd p ofs stop is ?c buf' = ro_copy rd' p ofs stop is ?c buf'" for buf'
    using Cons.prems(1) d kept by (intro Cons.IH) (simp_all add: all_kept_move)
  then show ?case
    by (simp add: ro_block_kept [OF Cons.prems(1) d] Let_def split: sum.split)
qed

text \<open>After the loop the last block it went through is kept.\<close>

lemma ro_block_keeps:
  "0 < capacity p \<Longrightarrow> ro_block rd p c i = Inr (d, c') \<Longrightarrow> map_has c' i"
  by (auto simp: ro_block_def Let_def and_then_eq_Inr split: option.splits)

lemma ro_copy_keeps_last:
  "0 < capacity p \<Longrightarrow> ro_copy rd p ofs stop (is @ [i]) c buf = (c', buf', Inr ()) \<Longrightarrow> map_has c' i"
proof (induction "is" arbitrary: c buf)
  case Nil
  then show ?case
    by (auto simp: Let_def split: sum.splits prod.splits dest: ro_block_keeps)
next
  case (Cons j "is")
  then show ?case by (auto simp: Let_def split: sum.splits prod.splits)
qed

lemma ro_read_blob_past:
  "min (ofs + length buf) (blob_size p) \<le> ofs \<Longrightarrow> ro_read_blob rd p st buf ofs = (st, buf, Inr 0)"
  by (simp only: ro_read_blob_def Let_def if_True)

lemma ro_read_blob_kept:
  assumes "0 < capacity p"
    and "all_kept (cached st) (ro_blocks p ofs (min (ofs + length buf) (blob_size p)))"
  shows "ro_read_blob rd p st buf ofs = ro_read_blob rd' p st buf ofs"
proof -
  have "ro_whole p st ofs (min (ofs + length buf) (blob_size p))"
    using assms(2) by (simp add: ro_whole_def)
  then show ?thesis
    by (simp add: ro_read_blob_def Let_def ro_copy_kept [OF assms, where rd = rd and rd' = rd'])
qed

lemma ro_read_blob_keeps_last:
  assumes "0 < capacity p" and "ro_read_blob rd p st buf ofs = (st', buf', Inr n)"
    and "ofs < stop" and "stop = min (ofs + length buf) (blob_size p)" and "ro_whole p st ofs stop"
  shows "map_has (cached st') ((stop - 1) div blockSize p)"
proof -
  have "ofs div blockSize p \<le> (stop - 1) div blockSize p"
    using assms(3) by (intro div_le_mono) simp
  then have "ro_blocks p ofs stop =
      [ofs div blockSize p..<(stop - 1) div blockSize p] @ [(stop - 1) div blockSize p]"
    by (simp add: ro_blocks_def)
  with assms show ?thesis
    by (auto simp: ro_read_blob_def Let_def split: sum.splits prod.splits
        dest: ro_copy_keeps_last)
qed

section \<open>Properties\<close>

text \<open>
  C1. Whatever the cache holds and whichever reads of the Blob throw, a read that returns gives the
  bytes of the source: as many as there are from the offset on, at the front of the buffer, the
  rest of the buffer as it was. The blocks kept stay true blocks of the Blob, at most
  \<open>capacity\<close> of them.
\<close>

theorem ro_read_correct:
  assumes "reader_ok rd b" and "0 < bs" and "cache_ok b bs cap (cached st)"
    and "ro_read rd bs cap (Blob b) st buf ofs = (st', buf', r)"
  shows "cache_ok b bs cap (cached st') \<and> length buf' = length buf
    \<and> (\<forall>n. r = Inr n \<longrightarrow> n = min (length buf) (length b - ofs)
            \<and> buf' = subarray b ofs (ofs + n) @ drop n buf)"
proof -
  have ok: "ro_ok rd bs cap (Blob b) st" using assms by (simp add: ro_ok_def)
  have "buf' = subarray b ofs (ofs + n) @ drop n buf"
    if "n = read_count b buf ofs" "buf' = read_buffer b buf ofs" for n
  proof -
    have "subarray b ofs (ofs + length buf) = subarray b ofs (ofs + n)"
      using that(1) by (auto simp: read_count_def subarray_def min_def)
    then show ?thesis
      using that by (simp add: read_buffer_def overwrite_def read_count_def min_def; arith?)
  qed
  with ro_read_all [OF ok assms(4)] show ?thesis
    by (auto simp: ro_ok_def read_count_def)
qed

definition whole_reader :: "bytes \<Rightarrow> blob_reader" where
  "whole_reader b s e = Inr (subarray b s e)"

lemma reader_ok_whole: "reader_ok (whole_reader b) b"
  by (simp add: reader_ok_def whole_reader_def)

theorem ro_read_correct_witness:
  "fst (snd (ro_read (whole_reader [1, 2, 3, 4, 5]) 2 2 (Blob [1, 2, 3, 4, 5]) (ro_init []) [9, 9, 9] 1))
    = [2, 3, 4]"
proof -
  let ?b = "[1, 2, 3, 4, 5] :: bytes"
  obtain st' buf' r where rd: "ro_read (whole_reader ?b) 2 2 (Blob ?b) (ro_init []) [9, 9, 9] 1 = (st', buf', r)"
    by (cases "ro_read (whole_reader ?b) 2 2 (Blob ?b) (ro_init []) [9, 9, 9] 1")
  have r: "r = Inr 3"
    using rd by (simp add: ro_read_def ro_read_blob_def ro_whole_def ro_init_def ro_blocks_def
        all_kept_def whole_reader_def Let_def subarray_def eval_nat_numeral split: if_splits sum.splits)
  have "cache_ok ?b 2 2 (cached (ro_init []))" by (simp add: ro_init_def)
  with ro_read_correct [OF reader_ok_whole _ _ rd] r have "buf' = subarray ?b 1 4 @ drop 3 [9, 9, 9]"
    by simp
  then have b: "buf' = [2, 3, 4]" by (simp add: subarray_def)
  show ?thesis by (simp only: rd b fst_conv snd_conv)
qed

text \<open>
  A scan reads a block once: after a read that went by whole blocks, a read of any bytes of the
  block it ended in does the same whatever the Blob's reader does, since it reads nothing from it.
\<close>

theorem ro_scan_reads_block_once:
  assumes "0 < cap" and "ro_read rd bs cap (Blob b) st buf ofs = (st1, buf1, Inr n)"
    and "stop = min (ofs + length buf) (length b)" and "ofs < stop"
    and "ro_whole \<lparr>blob_size = length b, blockSize = bs, capacity = cap\<rparr> st ofs stop"
    and "(stop - 1) div bs * bs \<le> ofs2" and "ofs2 + length buf2 \<le> (stop - 1) div bs * bs + bs"
    and "0 < bs"
  shows "ro_read rd' bs cap (Blob b) st1 buf2 ofs2 = ro_read rd'' bs cap (Blob b) st1 buf2 ofs2"
proof -
  let ?p = "\<lparr>blob_size = length b, blockSize = bs, capacity = cap\<rparr>"
  let ?i = "(stop - 1) div bs" and ?stop2 = "min (ofs2 + length buf2) (length b)"
  have kept: "map_has (cached st1) ?i"
    using ro_read_blob_keeps_last [of ?p rd st buf ofs st1 buf1 n stop] assms
    by (simp add: ro_read_def)
  have blocks: "set (ro_blocks ?p ofs2 ?stop2) \<subseteq> {?i}" if "ofs2 < ?stop2"
  proof -
    have "?stop2 \<le> ofs2 + length buf2" by simp
    with that have "ofs2 div bs = ?i" and "(?stop2 - 1) div bs = ?i"
      using assms(6,7) unfolding div_eq_block [OF assms(8)] by linarith+
    then show ?thesis by (simp add: ro_blocks_def)
  qed
  show ?thesis
  proof (cases "ofs2 < ?stop2")
    case True
    then have "all_kept (cached st1) (ro_blocks ?p ofs2 ?stop2)"
      using kept blocks by (auto simp: all_kept_def list_all_iff)
    then show ?thesis
      using ro_read_blob_kept [of ?p st1 ofs2 buf2 rd' rd''] assms(1) by (simp add: ro_read_def)
  next
    case False
    then have "ro_read_blob r ?p st1 buf2 ofs2 = (st1, buf2, Inr 0)" for r
      by (intro ro_read_blob_past) (auto simp: min_le_iff_disj)
    then show ?thesis by (simp add: ro_read_def)
  qed
qed

theorem ro_scan_reads_block_once_witness:
  "ro_read (\<lambda>s e. Inl (Foreign 1)) 4 2 (Blob [1, 2, 3, 4, 5])
      (fst (ro_read (whole_reader [1, 2, 3, 4, 5]) 4 2 (Blob [1, 2, 3, 4, 5]) (ro_init []) [0, 0] 0)) [0, 0] 2
    = ro_read (whole_reader [1, 2, 3, 4, 5]) 4 2 (Blob [1, 2, 3, 4, 5])
      (fst (ro_read (whole_reader [1, 2, 3, 4, 5]) 4 2 (Blob [1, 2, 3, 4, 5]) (ro_init []) [0, 0] 0)) [0, 0] 2"
proof -
  let ?b = "[1, 2, 3, 4, 5] :: bytes"
  let ?r = "ro_read (whole_reader ?b) 4 2 (Blob ?b) (ro_init []) [0, 0] 0"
  have "\<exists>st1 buf1 n. ?r = (st1, buf1, Inr n)"
    by (simp add: ro_read_def ro_read_blob_def ro_whole_def ro_init_def ro_blocks_def
        all_kept_def whole_reader_def Let_def subarray_def ro_block_def u8_set_def)
  then obtain st1 buf1 n where r: "?r = (st1, buf1, Inr n)" by blast
  have "ro_read rd' 4 2 (Blob ?b) st1 [0, 0] 2 = ro_read rd'' 4 2 (Blob ?b) st1 [0, 0] 2" for rd' rd''
    by (rule ro_scan_reads_block_once [OF _ r refl]) (simp_all add: ro_whole_def ro_init_def)
  then show ?thesis by (simp only: r fst_conv)
qed

end
