(* ===== verification/Delta_Runs.thy ===== *)
theory Delta_Runs
  imports Read_Only_File
begin

text \<open>
  The records of snapshots.ts (\<open>SnapshotInfo\<close>, \<open>DeltaLayout\<close>, \<open>StoredSnapshot\<close>) and \<open>runs\<close>: how
  a range of bytes of a delta is read from its own pages, the layer below, or as zeros.

  Times (\<open>createdAt\<close>) are JavaScript numbers of milliseconds with a fraction, here \<open>rat\<close>; a
  \<open>SnapshotMeta\<close> is a value that survives structured cloning.
\<close>

datatype js_value =
    Undefined
  | Null
  | Bool bool
  | Num rat
  | Str string
  | Arr "js_value list"
  | Obj "(string \<times> js_value) list"

type_synonym snapshot_meta = "(string \<times> js_value) list"

record snapshot_info =
  si_key :: string
  si_branch :: string
  si_meta :: snapshot_meta
  si_createdAt :: rat
  si_size :: nat
  si_parent :: "string option"

record delta_layout =
  dl_parent :: string
  dl_parentCreatedAt :: rat
  dl_chunkSize :: nat
  dl_visible :: nat
  dl_pages :: "nat list"
  dl_depth :: nat
  dl_chainBytes :: nat

record stored_snapshot =
  st_info :: snapshot_info
  st_source :: source
  st_delta :: "delta_layout option"

section \<open>Runs\<close>

text \<open>
  A run of bytes \<open>from\<close> to \<open>to\<close>: the delta's own pages from \<open>at\<close> of its content on, the layer
  below, or zeros.
\<close>

datatype run = Own nat nat nat | Below nat nat | Zero nat nat

fun run_from :: "run \<Rightarrow> nat" where
  "run_from (Own f t a) = f"
| "run_from (Below f t) = f"
| "run_from (Zero f t) = f"

fun run_to :: "run \<Rightarrow> nat" where
  "run_to (Own f t a) = t"
| "run_to (Below f t) = t"
| "run_to (Zero f t) = t"

text \<open>\<open>new Map(delta.pages.map((page, slot) => [page, slot]))\<close>\<close>

definition slots :: "nat list \<Rightarrow> (nat \<times> nat) list" where
  "slots pages = fold (\<lambda>(page, slot) m. map_set page slot m) (zip pages [0..<length pages]) []"

text \<open>
  The inner loops: \<open>next\<close> goes up while it starts before \<open>bnd\<close> and the next chunk is of the same
  kind. With \<open>chunkSize\<close> 0 the numbers of the code become \<open>NaN\<close> and its loops end at once; layouts
  have chunks of at least 512 bytes.
\<close>

function advance :: "(nat \<Rightarrow> bool) \<Rightarrow> nat \<Rightarrow> nat \<Rightarrow> nat \<Rightarrow> nat" where
  "advance same cs bnd nxt =
     (if 0 < cs \<and> nxt * cs < bnd \<and> same nxt then advance same cs bnd (Suc nxt) else nxt)"
  by pat_completeness auto
termination
proof (relation "measure (\<lambda>(same, cs, bnd, nxt). bnd - nxt)")
  fix same :: "nat \<Rightarrow> bool" and cs bnd nxt :: nat
  assume "0 < cs \<and> nxt * cs < bnd \<and> same nxt"
  moreover from this have "nxt \<le> nxt * cs" by (cases cs) auto
  ultimately have "nxt < bnd" by linarith
  then show "((same, cs, bnd, Suc nxt), (same, cs, bnd, nxt))
      \<in> measure (\<lambda>(same, cs, bnd, nxt). bnd - nxt)" by (simp add: diff_less_mono2)
qed simp

declare advance.simps [simp del]

text \<open>The run that starts at \<open>p\<close>, for bytes up to \<open>stop\<close>.\<close>

definition next_run :: "delta_layout \<Rightarrow> nat \<Rightarrow> nat \<Rightarrow> run" where
  "next_run delta p stop =
     (let cs = dl_chunkSize delta;
          visible = dl_visible delta;
          sl = slots (dl_pages delta);
          chunk = p div cs
      in case map_get sl chunk of
           Some slot \<Rightarrow>
             let nxt = advance (\<lambda>n. map_get sl n = Some (slot + n - chunk)) cs stop (chunk + 1)
             in Own p (min (nxt * cs) stop) (slot * cs + p - chunk * cs)
         | None \<Rightarrow>
             if p < visible then
               let nxt = advance (\<lambda>n. \<not> map_has sl n) cs (min stop visible) (chunk + 1)
               in Below p (min (min (nxt * cs) stop) visible)
             else
               let nxt = advance (\<lambda>n. \<not> map_has sl n) cs stop (chunk + 1)
               in Zero p (min (nxt * cs) stop))"

lemma advance_ge: "nxt \<le> advance same cs bnd nxt"
proof (induction same cs bnd nxt rule: advance.induct)
  case (1 same cs bnd nxt)
  then show ?case by (subst advance.simps) (auto simp: Suc_le_eq)
qed

lemma advance_same:
  "n < advance same cs bnd nxt \<Longrightarrow> nxt \<le> n \<Longrightarrow> same n"
proof (induction same cs bnd nxt rule: advance.induct)
  case (1 same cs bnd nxt)
  show ?case
  proof (cases "0 < cs \<and> nxt * cs < bnd \<and> same nxt")
    case True
    with "1.prems" have "n < advance same cs bnd (Suc nxt)"
      by (simp add: advance.simps [of same cs bnd nxt])
    with "1.IH" True "1.prems"(2) show ?thesis by (cases "n = nxt") auto
  next
    case False
    with "1.prems" show ?thesis by (simp add: advance.simps [of same cs bnd nxt] del: not_gr_zero)
  qed
qed

lemma div_next: "0 < (cs::nat) \<Longrightarrow> p < (p div cs + 1) * cs"
  using div_eq_block [of cs p "p div cs"] by simp

text \<open>Every run starts where it should, is not empty and ends by \<open>stop\<close>: the loop over runs ends.\<close>

lemma next_run_bounds:
  assumes "0 < dl_chunkSize delta" and "p < stop"
  shows "run_from (next_run delta p stop) = p"
    and "p < run_to (next_run delta p stop)"
    and "run_to (next_run delta p stop) \<le> stop"
proof -
  let ?cs = "dl_chunkSize delta"
  have adv: "p < advance same ?cs bnd (Suc (p div ?cs)) * ?cs" for same bnd
  proof -
    have "(p div ?cs + 1) * ?cs \<le> advance same ?cs bnd (Suc (p div ?cs)) * ?cs"
      using advance_ge [of "Suc (p div ?cs)" same ?cs bnd] by (intro mult_le_mono1) simp
    then show ?thesis using div_next [OF assms(1), of p] by linarith
  qed
  show "run_from (next_run delta p stop) = p"
    by (simp add: next_run_def Let_def split: option.split)
  show "p < run_to (next_run delta p stop)"
    using adv assms(2) by (simp add: next_run_def Let_def split: option.split)
  show "run_to (next_run delta p stop) \<le> stop"
    by (simp add: next_run_def Let_def min_le_iff_disj split: option.split)
qed

function runs :: "delta_layout \<Rightarrow> nat \<Rightarrow> nat \<Rightarrow> run list" where
  "runs delta p stop =
     (if 0 < dl_chunkSize delta \<and> p < stop
      then next_run delta p stop # runs delta (run_to (next_run delta p stop)) stop
      else [])"
  by pat_completeness auto
termination
  by (relation "measure (\<lambda>(delta, p, stop). stop - p)")
    (auto intro: diff_less_mono2 dest: next_run_bounds(2))

declare runs.simps [simp del]

section \<open>What the runs hold\<close>

text \<open>
  Where byte \<open>q\<close> of a delta comes from: from its content when its chunk has a page, at the page's
  slot; else from the layer below while it is visible there; else it is zero.
\<close>

datatype origin = FromOwn nat | FromBelow nat | FromZero

definition origin_of :: "delta_layout \<Rightarrow> nat \<Rightarrow> origin" where
  "origin_of delta q =
     (let cs = dl_chunkSize delta
      in case map_get (slots (dl_pages delta)) (q div cs) of
           Some slot \<Rightarrow> FromOwn (slot * cs + q mod cs)
         | None \<Rightarrow> if q < dl_visible delta then FromBelow q else FromZero)"

fun run_origin :: "run \<Rightarrow> nat \<Rightarrow> origin" where
  "run_origin (Own f t a) q = FromOwn (a + (q - f))"
| "run_origin (Below f t) q = FromBelow q"
| "run_origin (Zero f t) q = FromZero"

lemma advance_chunks:
  assumes "0 < cs" and "p \<le> q" and "q < advance same cs bnd (Suc (p div cs)) * cs"
  shows "q div cs = p div cs \<or> p div cs < q div cs \<and> same (q div cs)"
proof -
  have "p div cs \<le> q div cs" using assms(2) by (rule div_le_mono)
  moreover have "q div cs < advance same cs bnd (Suc (p div cs))"
    using assms(1,3) by (simp add: less_mult_imp_div_less)
  ultimately show ?thesis
    using advance_same [of "q div cs" same cs bnd "Suc (p div cs)"] by (auto simp: Suc_le_eq)
qed

lemma slot_arith:
  assumes "0 < (cs::nat)" and "p \<le> q" and "s = slot + q div cs - p div cs"
  shows "slot * cs + p - p div cs * cs + (q - p) = s * cs + q mod cs"
proof -
  have le: "p div cs \<le> q div cs" using assms(2) by (rule div_le_mono)
  have p: "p div cs * cs \<le> p" by simp
  have q: "q div cs * cs + q mod cs = q" by simp
  have "s * cs + p div cs * cs = slot * cs + q div cs * cs"
    using assms(3) le by (simp flip: add_mult_distrib)
  with p q assms(2) show ?thesis by linarith
qed

lemma next_run_origin:
  assumes "0 < dl_chunkSize delta" and "p < stop"
    and "p \<le> q" and "q < run_to (next_run delta p stop)"
  shows "run_origin (next_run delta p stop) q = origin_of delta q"
proof (cases "map_get (slots (dl_pages delta)) (p div dl_chunkSize delta)")
  case (Some slot)
  let ?cs = "dl_chunkSize delta" and ?sl = "map_get (slots (dl_pages delta))"
  have q: "q < advance (\<lambda>n. ?sl n = Some (slot + n - p div ?cs)) ?cs stop (Suc (p div ?cs)) * ?cs"
    using assms(4) Some by (simp add: next_run_def Let_def)
  have "?sl (q div ?cs) = Some (slot + q div ?cs - p div ?cs)"
    using advance_chunks [OF assms(1,3) q] Some by auto
  then show ?thesis
    using Some slot_arith [OF assms(1,3) refl, of slot]
    by (simp add: next_run_def Let_def origin_of_def)
next
  case None
  let ?cs = "dl_chunkSize delta" and ?sl = "map_get (slots (dl_pages delta))"
  have "\<exists>bnd. q < advance (\<lambda>n. ?sl n = None) ?cs bnd (Suc (p div ?cs)) * ?cs"
    using assms(4) None by (auto simp: next_run_def Let_def split: if_splits)
  then have "?sl (q div ?cs) = None"
    using advance_chunks [OF assms(1,3)] None by metis
  then show ?thesis
    using None assms(3,4) by (auto simp: next_run_def Let_def origin_of_def split: if_splits)
qed

text \<open>Consecutive runs: each starts where the one before ended.\<close>

fun chained :: "nat \<Rightarrow> run list \<Rightarrow> nat \<Rightarrow> bool" where
  "chained p [] stop = (p = stop)"
| "chained p (r # rs) stop = (run_from r = p \<and> p < run_to r \<and> chained (run_to r) rs stop)"

lemma chained_bounds: "chained p rs stop \<Longrightarrow> p \<le> stop \<and> (\<forall>r \<in> set rs. p \<le> run_from r \<and> run_from r < run_to r \<and> run_to r \<le> stop)"
  by (induction p rs stop rule: chained.induct) fastforce+

lemma runs_chained:
  "0 < dl_chunkSize delta \<Longrightarrow> p \<le> stop \<Longrightarrow> chained p (runs delta p stop) stop"
proof (induction delta p stop rule: runs.induct)
  case (1 delta p stop)
  show ?case
  proof (cases "p < stop")
    case True
    then show ?thesis
      using "1.IH" "1.prems" next_run_bounds [OF "1.prems"(1) True]
      by (subst runs.simps) simp
  next
    case False
    then show ?thesis using "1.prems" by (subst runs.simps) simp
  qed
qed

lemma runs_origin:
  "r \<in> set (runs delta p stop) \<Longrightarrow> run_from r \<le> q \<Longrightarrow> q < run_to r \<Longrightarrow>
   run_origin r q = origin_of delta q"
proof (induction delta p stop rule: runs.induct)
  case (1 delta p stop)
  show ?case
  proof (cases "0 < dl_chunkSize delta \<and> p < stop")
    case True
    then have "r = next_run delta p stop \<or> r \<in> set (runs delta (run_to (next_run delta p stop)) stop)"
      using "1.prems"(1) by (subst (asm) runs.simps) auto
    then show ?thesis
      using "1.IH" "1.prems" True next_run_origin [of delta p stop q] next_run_bounds(1) [of delta p stop]
      by auto
  next
    case False
    then show ?thesis using "1.prems"(1) by (subst (asm) runs.simps) auto
  qed
qed

text \<open>The bytes of the runs, one after the other, are the bytes of the range.\<close>

lemma chained_bytes:
  "chained p rs stop \<Longrightarrow>
   concat (map (\<lambda>r. map (\<lambda>q. g q) [run_from r..<run_to r]) rs) = map g [p..<stop]"
proof (induction p rs stop rule: chained.induct)
  case (1 p stop)
  then show ?case by simp
next
  case (2 p r rs stop)
  then have "run_to r \<le> stop" and "p \<le> run_to r" using chained_bounds by fastforce+
  then have "[p..<stop] = [p..<run_to r] @ [run_to r..<stop]"
    by (intro upt_split)
  with 2 show ?case by simp
qed

section \<open>Slots\<close>

lemma map_get_fold_set:
  "map_get (fold (\<lambda>(k, v) m. map_set k v m) xs m) = map_get m ++ map_of (rev xs)"
proof (induction xs arbitrary: m)
  case Nil
  then show ?case by simp
next
  case (Cons x xs)
  then show ?case
    by (cases x) (auto simp: map_get_set map_add_def fun_eq_iff split: option.splits)
qed

lemma slots_get: "map_get (slots pages) = map_of (rev (zip pages [0..<length pages]))"
  by (simp add: slots_def map_get_fold_set)

lemma slots_None: "map_get (slots pages) c = None \<longleftrightarrow> c \<notin> set pages"
proof -
  have "fst ` set (zip pages [0..<length pages]) = set pages"
    by (metis length_map list.set_map map_fst_zip map_nth)
  then show ?thesis by (simp add: slots_get map_of_eq_None_iff)
qed

lemma slots_Some:
  assumes "map_get (slots pages) c = Some s"
  shows "s < length pages \<and> pages ! s = c"
proof -
  from assms have "(c, s) \<in> set (zip pages [0..<length pages])"
    unfolding slots_get by (metis map_of_SomeD set_rev)
  then show ?thesis by (auto simp: set_zip)
qed

lemma slots_distinct:
  assumes "distinct pages" and "s < length pages"
  shows "map_get (slots pages) (pages ! s) = Some s"
proof -
  have "map_get (slots pages) (pages ! s) \<noteq> None"
    using assms(2) by (simp add: slots_None)
  then obtain s' where s': "map_get (slots pages) (pages ! s) = Some s'" by blast
  from slots_Some [OF s'] assms have "s' = s" by (blast dest: nth_eq_iff_index_eq [THEN iffD1])
  with s' show ?thesis by simp
qed

section \<open>Properties\<close>

text \<open>
  C3. The runs of a range of a delta cover it without gap or overlap, none of them empty, and every
  byte of a run comes from where the layout says that byte comes from.
\<close>

theorem runs_correct:
  assumes "0 < dl_chunkSize delta" and "p \<le> stop"
  shows "chained p (runs delta p stop) stop \<and>
    (\<forall>r \<in> set (runs delta p stop). \<forall>q. run_from r \<le> q \<and> q < run_to r \<longrightarrow>
       run_origin r q = origin_of delta q)"
  using runs_chained [OF assms] runs_origin by blast

theorem runs_correct_witness:
  "chained 1 (runs \<lparr>dl_parent = ''a'', dl_parentCreatedAt = 1, dl_chunkSize = 4, dl_visible = 10,
      dl_pages = [1, 3], dl_depth = 1, dl_chainBytes = 8\<rparr> 1 18) 18"
proof -
  let ?d = "\<lparr>dl_parent = ''a'', dl_parentCreatedAt = 1, dl_chunkSize = 4, dl_visible = 10,
      dl_pages = [1, 3], dl_depth = 1, dl_chainBytes = 8\<rparr>"
  have "0 < dl_chunkSize ?d" and "(1::nat) \<le> 18" by simp_all
  then show ?thesis using runs_correct [of ?d 1 18] by blast
qed

end
