(* ===== verification/Layers.thy ===== *)
theory Layers
  imports Delta_Runs
begin

text \<open>
  Layers of snapshots.ts: a stored snapshot and, for a delta, the layer it lies over; the file that
  reads a layer (\<open>layerFile\<close>), its content (\<open>layerContent\<close>), and the base a database reads
  (\<open>baseOf\<close>). The meaning of a layer is \<open>layer_bytes\<close>, the bytes of the database it holds; both
  ways of reading are shown to give those bytes.
\<close>

text \<open>
  Layers are objects, and the \<open>WeakMap\<close>s of the code are keyed by the object; \<open>layer_id\<close> is its
  identity. \<open>layer_below\<close> is \<open>below?\<close>.
\<close>

datatype layer = Layer (layer_id: nat) (layer_stored: stored_snapshot) (layer_below: "layer option")

abbreviation layer_info :: "layer \<Rightarrow> snapshot_info" where
  "layer_info l \<equiv> st_info (layer_stored l)"

abbreviation layer_source :: "layer \<Rightarrow> source" where
  "layer_source l \<equiv> st_source (layer_stored l)"

abbreviation layer_delta :: "layer \<Rightarrow> delta_layout option" where
  "layer_delta l \<equiv> st_delta (layer_stored l)"

text \<open>The layers from \<open>l\<close> down.\<close>

fun layer_chain :: "layer \<Rightarrow> layer list" where
  "layer_chain (Layer i st None) = [Layer i st None]"
| "layer_chain (Layer i st (Some b)) = Layer i st (Some b) # layer_chain b"

section \<open>The database a layer holds\<close>

definition byte_or_0 :: "bytes \<Rightarrow> nat \<Rightarrow> byte" where
  "byte_or_0 b q = (if q < length b then b ! q else 0)"

fun origin_byte :: "bytes \<Rightarrow> bytes \<Rightarrow> origin \<Rightarrow> byte" where
  "origin_byte own below (FromOwn a) = byte_or_0 own a"
| "origin_byte own below (FromBelow q) = byte_or_0 below q"
| "origin_byte own below FromZero = 0"

fun layer_bytes :: "layer \<Rightarrow> bytes" where
  "layer_bytes (Layer i st None) = source_bytes (st_source st)"
| "layer_bytes (Layer i st (Some b)) =
     (case st_delta st of
        None \<Rightarrow> source_bytes (st_source st)
      | Some d \<Rightarrow> map (\<lambda>q. origin_byte (source_bytes (st_source st)) (layer_bytes b) (origin_of d q))
                   [0..<si_size (st_info st)])"

section \<open>The file of a layer\<close>

text \<open>
  The state of the file: the blocks of every layer, which all files share (\<open>layerCaches\<close>), and
  where the previous read of each layer's own file ended, which is this file's.
\<close>

record layer_file_state =
  lf_caches :: "nat \<Rightarrow> block_cache"
  lf_ends :: "nat \<Rightarrow> int"

text \<open>\<open>readOnlyFile(layer.source, {cache})\<close>\<close>

definition lf_get :: "layer_file_state \<Rightarrow> nat \<Rightarrow> ro_state" where
  "lf_get f i = \<lparr>cached = lf_caches f i, previousEnd = lf_ends f i\<rparr>"

definition lf_put :: "layer_file_state \<Rightarrow> nat \<Rightarrow> ro_state \<Rightarrow> layer_file_state" where
  "lf_put f i st = f\<lparr>lf_caches := (lf_caches f)(i := cached st),
                     lf_ends := (lf_ends f)(i := previousEnd st)\<rparr>"

lemma lf_get_put: "lf_get (lf_put f i st) j = (if j = i then st else lf_get f j)"
  by (simp add: lf_get_def lf_put_def)

definition own_read :: "(nat \<Rightarrow> blob_reader) \<Rightarrow> nat \<Rightarrow> source \<Rightarrow> layer_file_state reader" where
  "own_read rd i src f buf ofs =
     (case ro_read (rd i) BLOCK_BYTES CACHED_BLOCKS src (lf_get f i) buf ofs of
        (st, buf', r) \<Rightarrow> (lf_put f i st, buf', r))"

text \<open>One run of a read at \<open>ofs\<close>, and all of them in order, up to the first that throws.\<close>

definition read_run :: "'f reader \<Rightarrow> 'f reader \<Rightarrow> nat \<Rightarrow> run \<Rightarrow> 'f \<Rightarrow> bytes \<Rightarrow> 'f \<times> bytes \<times> unit result" where
  "read_run own lower ofs r f buf =
     (let len = run_to r - run_from r;
          offset = run_from r - ofs
      in case r of
           Own from to pos \<Rightarrow> fill own f buf offset len pos
         | Below from to \<Rightarrow> fill lower f buf offset len from
         | Zero from to \<Rightarrow> (f, u8_fill0 buf offset (offset + len), Inr ()))"

primrec read_runs :: "'f reader \<Rightarrow> 'f reader \<Rightarrow> nat \<Rightarrow> run list \<Rightarrow> 'f \<Rightarrow> bytes \<Rightarrow> 'f \<times> bytes \<times> unit result" where
  "read_runs own lower ofs [] f buf = (f, buf, Inr ())"
| "read_runs own lower ofs (r # rs) f buf =
     (case read_run own lower ofs r f buf of
        (f', buf', Inl e) \<Rightarrow> (f', buf', Inl e)
      | (f', buf', Inr _) \<Rightarrow> read_runs own lower ofs rs f' buf')"

fun layer_read :: "(nat \<Rightarrow> blob_reader) \<Rightarrow> layer \<Rightarrow> layer_file_state reader" where
  "layer_read rd (Layer i st None) = own_read rd i (st_source st)"
| "layer_read rd (Layer i st (Some b)) =
     (case st_delta st of
        None \<Rightarrow> own_read rd i (st_source st)
      | Some d \<Rightarrow>
          (\<lambda>f buf ofs.
             let stop = min (ofs + length buf) (si_size (st_info st))
             in if stop \<le> ofs then (f, buf, Inr 0)
                else
                  (case read_runs (own_read rd i (st_source st)) (layer_read rd b) ofs
                          (runs d ofs stop) f buf of
                     (f', buf', Inl e) \<Rightarrow> (f', buf', Inl e)
                   | (f', buf', Inr _) \<Rightarrow> (f', buf', Inr (stop - ofs)))))"

definition layer_getSize :: "layer \<Rightarrow> nat" where
  "layer_getSize l =
     (if layer_delta l = None \<or> layer_below l = None then sizeOf (layer_source l)
      else si_size (layer_info l))"

section \<open>The content of a layer\<close>

definition add_part :: "source \<Rightarrow> nat \<Rightarrow> nat \<Rightarrow> source list result" where
  "add_part src s e =
     (if sizeOf src < e then Inl (SqliteError SQLITE_IOERR_READ)
      else Inr (if s < e then [slice src s e] else []))"

text \<open>The results of a list of steps, one after the other, or the first error.\<close>

primrec collect_all :: "'a list result list \<Rightarrow> 'a list result" where
  "collect_all [] = Inr []"
| "collect_all (r # rs) = and_then r (\<lambda>xs. and_then (collect_all rs) (\<lambda>ys. Inr (xs @ ys)))"

fun collect :: "layer \<Rightarrow> nat \<Rightarrow> nat \<Rightarrow> source list result" where
  "collect (Layer i st None) s e = add_part (st_source st) s e"
| "collect (Layer i st (Some b)) s e =
     (case st_delta st of
        None \<Rightarrow> add_part (st_source st) s e
      | Some d \<Rightarrow>
          collect_all (map (\<lambda>r. case r of
              Own from to pos \<Rightarrow> add_part (st_source st) pos (pos + to - from)
            | Below from to \<Rightarrow> collect b from to
            | Zero from to \<Rightarrow> Inr [Bytes (zeros (to - from))]) (runs d s e)))"

text \<open>Copying the parts into a new array of \<open>n\<close> bytes, which throws if they do not fit.\<close>

primrec set_parts :: "source list \<Rightarrow> nat \<Rightarrow> bytes \<Rightarrow> bytes result" where
  "set_parts [] pos buf = Inr buf"
| "set_parts (p # ps) pos buf =
     and_then (u8_set buf (source_bytes p) pos) (set_parts ps (pos + sizeOf p))"

definition layerContent :: "layer \<Rightarrow> nat \<Rightarrow> nat \<Rightarrow> source result" where
  "layerContent l s e =
     (if layer_delta l = None \<and> s = 0 \<and> e = sizeOf (layer_source l) then Inr (layer_source l)
      else if si_size (layer_info l) < e then Inl (SqliteError SQLITE_IOERR_READ)
      else and_then (collect l s e) (\<lambda>parts.
        case parts of
          [p] \<Rightarrow> Inr p
        | _ \<Rightarrow>
            if list_ex is_blob parts then Inr (Blob (concat (map source_bytes parts)))
            else if e < s then Inl RangeError
            else and_then (set_parts parts 0 (zeros (e - s))) (\<lambda>b. Inr (Bytes b))))"

section \<open>The base a database reads\<close>

record base =
  b_info :: snapshot_info
  b_layer :: layer
  b_keys :: "string list"
  b_depth :: nat
  b_chainBytes :: nat

definition baseOf :: "layer \<Rightarrow> base" where
  "baseOf l = \<lparr>b_info = layer_info l, b_layer = l,
     b_keys = map (\<lambda>x. si_key (layer_info x)) (layer_chain l),
     b_depth = (case layer_delta l of None \<Rightarrow> 0 | Some d \<Rightarrow> dl_depth d),
     b_chainBytes = (case layer_delta l of None \<Rightarrow> 0 | Some d \<Rightarrow> dl_chainBytes d)\<rparr>"

definition infoOf :: "base option \<Rightarrow> snapshot_info option" where
  "infoOf b = map_option b_info b"

text \<open>\<open>base.content(start, end)\<close>, by default all of it\<close>

definition base_content :: "base \<Rightarrow> nat \<Rightarrow> nat \<Rightarrow> source result" where
  "base_content b s e = layerContent (b_layer b) s e"

section \<open>Reading a layer's file\<close>

lemma map_byte_or_0:
  "map (\<lambda>i. if i < length c then c ! i else 0) [a..<a + n] = map (byte_or_0 c) [a..<a + n]"
  by (simp add: byte_or_0_def)

lemma fill_bytes:
  assumes "sync_file rd ok c" and "ok f" and "fill rd f buf offset len pos = (f', buf', r)"
    and "offset + len \<le> length buf"
  shows "ok f' \<and> length buf' = length buf
    \<and> (r = Inr () \<longrightarrow> buf' = overwrite buf (map (byte_or_0 c) [pos..<pos + len]) offset)"
  using sync_file.fill_ok [OF assms(1-3)] sync_file.fill_length [OF assms]
    sync_file.fill_Inr [OF assms(1,2) _ assms(4)] assms(3) by (simp add: map_byte_or_0)

lemma u8_fill0_overwrite:
  "offset + len \<le> length buf \<Longrightarrow> u8_fill0 buf offset (offset + len) = overwrite buf (zeros len) offset"
  by (simp add: u8_fill0_def overwrite_def max_def)

text \<open>One run: its bytes are left at their place in the buffer.\<close>

lemma read_run_ok:
  assumes "sync_file own ok c1" and "sync_file lower ok c2" and "ok f"
    and "ofs \<le> run_from r" and "run_from r \<le> run_to r" and "run_to r \<le> ofs + length buf"
    and "read_run own lower ofs r f buf = (f', buf', res)"
  shows "ok f' \<and> length buf' = length buf \<and>
    (res = Inr () \<longrightarrow> buf' = overwrite buf
       (map (\<lambda>q. origin_byte c1 c2 (run_origin r q)) [run_from r..<run_to r]) (run_from r - ofs))"
proof -
  have fits: "run_from r - ofs + (run_to r - run_from r) \<le> length buf"
    using assms(4-6) by simp
  show ?thesis
  proof (cases r)
    case (Own s t a)
    then have fl: "fill own f buf (s - ofs) (t - s) a = (f', buf', res)"
      using assms(7) by (simp add: read_run_def Let_def)
    have "map (byte_or_0 c1) [a..<a + (t - s)] = map (\<lambda>q. byte_or_0 c1 (a + (q - s))) [s..<t]"
      using map_upt_shift [of "byte_or_0 c1" a "t - s" s] assms(5) Own by simp
    then show ?thesis
      using fill_bytes [OF assms(1,3) fl] fits Own by simp
  next
    case (Below s t)
    then have fl: "fill lower f buf (s - ofs) (t - s) s = (f', buf', res)"
      using assms(7) by (simp add: read_run_def Let_def)
    then show ?thesis
      using fill_bytes [OF assms(2,3) fl] fits assms(5) Below by simp
  next
    case (Zero s t)
    have "map (\<lambda>q. 0 :: byte) [s..<t] = zeros (t - s)"
      by (simp add: map_replicate_const)
    then show ?thesis
      using Zero assms(3,7) fits by (auto simp: read_run_def Let_def u8_fill0_overwrite)
  qed
qed

text \<open>All runs of a range: \<open>g\<close> says where each byte comes from.\<close>

lemma read_runs_ok:
  assumes "sync_file own ok c1" and "sync_file lower ok c2"
    and "\<And>r q. r \<in> set rs \<Longrightarrow> run_from r \<le> q \<Longrightarrow> q < run_to r \<Longrightarrow> run_origin r q = g q"
    and "chained p rs stop" and "ok f" and "ofs \<le> p" and "stop \<le> ofs + length buf"
    and "read_runs own lower ofs rs f buf = (f', buf', res)"
  shows "ok f' \<and> length buf' = length buf \<and>
    (res = Inr () \<longrightarrow> buf' = overwrite buf (map (\<lambda>q. origin_byte c1 c2 (g q)) [p..<stop]) (p - ofs))"
  using assms(3-8)
proof (induction rs arbitrary: p f buf)
  case Nil
  then show ?case by simp
next
  case (Cons r rs)
  obtain f1 buf1 res1 where r1: "read_run own lower ofs r f buf = (f1, buf1, res1)"
    by (cases "read_run own lower ofs r f buf")
  have ch: "run_from r = p" "p < run_to r" "chained (run_to r) rs stop" "run_to r \<le> stop"
    using Cons.prems(2) chained_bounds [of "run_to r" rs stop] by auto
  define A where "A = map (\<lambda>q. origin_byte c1 c2 (g q)) [p..<run_to r]"
  have A: "A = map (\<lambda>q. origin_byte c1 c2 (run_origin r q)) [run_from r..<run_to r]"
    using Cons.prems(1) [of r] ch by (simp add: A_def)
  have one: "ok f1 \<and> length buf1 = length buf \<and> (res1 = Inr () \<longrightarrow> buf1 = overwrite buf A (p - ofs))"
    using read_run_ok [OF assms(1,2) Cons.prems(3) _ _ _ r1] ch Cons.prems(4,5) A by simp
  show ?case
  proof (cases res1)
    case (Inl e)
    then show ?thesis using r1 one Cons.prems(6) by auto
  next
    case (Inr u)
    define B where "B = map (\<lambda>q. origin_byte c1 c2 (g q)) [run_to r..<stop]"
    have rest: "read_runs own lower ofs rs f1 buf1 = (f', buf', res)"
      using Cons.prems(6) r1 Inr by simp
    have IH: "ok f' \<and> length buf' = length buf1 \<and> (res = Inr () \<longrightarrow> buf' = overwrite buf1 B (run_to r - ofs))"
      unfolding B_def
      by (rule Cons.IH [OF Cons.prems(1) ch(3) _ _ _ rest])
        (use one Cons.prems(4,5) ch in auto)
    have "overwrite (overwrite buf A (p - ofs)) B (p - ofs + length A) = overwrite buf (A @ B) (p - ofs)"
      using ch Cons.prems(4,5) by (intro overwrite_append) (simp add: A_def B_def)
    moreover have "p - ofs + length A = run_to r - ofs"
      using ch Cons.prems(4) by (simp add: A_def)
    moreover have "A @ B = map (\<lambda>q. origin_byte c1 c2 (g q)) [p..<stop]"
      using upt_split [of p "run_to r" stop] ch by (simp add: A_def B_def)
    ultimately show ?thesis using IH one Inr by auto
  qed
qed

text \<open>
  The files of a set of layers share their blocks; they are in order when every layer of the set
  keeps true blocks of its own content. Distinct layers are distinct objects.
\<close>

definition caches_ok :: "(nat \<Rightarrow> blob_reader) \<Rightarrow> layer set \<Rightarrow> layer_file_state \<Rightarrow> bool" where
  "caches_ok rd U f \<longleftrightarrow> (\<forall>l \<in> U. ro_ok (rd (layer_id l)) BLOCK_BYTES CACHED_BLOCKS (layer_source l)
      (lf_get f (layer_id l)))"

definition distinct_ids :: "layer set \<Rightarrow> bool" where
  "distinct_ids U \<longleftrightarrow> (\<forall>l \<in> U. \<forall>m \<in> U. layer_id l = layer_id m \<longrightarrow> layer_source l = layer_source m)"

fun chunks_ok :: "layer \<Rightarrow> bool" where
  "chunks_ok (Layer i st None) = True"
| "chunks_ok (Layer i st (Some b)) =
     ((case st_delta st of None \<Rightarrow> True | Some d \<Rightarrow> 0 < dl_chunkSize d) \<and> chunks_ok b)"

lemma own_sync:
  assumes "l \<in> U" and "distinct_ids U"
  shows "sync_file (own_read rd (layer_id l) (layer_source l)) (caches_ok rd U) (source_bytes (layer_source l))"
proof -
  let ?i = "layer_id l" and ?src = "layer_source l"
  have ro: "ro_ok (rd ?i) BLOCK_BYTES CACHED_BLOCKS ?src (lf_get f ?i)" if "caches_ok rd U f" for f
    using that assms(1) by (simp add: caches_ok_def)
  have all: "caches_ok rd U f' \<and> length buf' = length buf \<and>
      (\<forall>n. r = Inr n \<longrightarrow> n = read_count (source_bytes ?src) buf ofs \<and> buf' = read_buffer (source_bytes ?src) buf ofs)"
    if ok: "caches_ok rd U f" and rd: "own_read rd ?i ?src f buf ofs = (f', buf', r)" for f buf ofs f' buf' r
  proof -
    obtain st where st: "ro_read (rd ?i) BLOCK_BYTES CACHED_BLOCKS ?src (lf_get f ?i) buf ofs = (st, buf', r)"
      and f': "f' = lf_put f ?i st"
      using rd by (auto simp: own_read_def split: prod.splits)
    note res = ro_read_all [OF ro [OF ok] st]
    have "caches_ok rd U f'"
      unfolding caches_ok_def
    proof
      fix m assume m: "m \<in> U"
      show "ro_ok (rd (layer_id m)) BLOCK_BYTES CACHED_BLOCKS (layer_source m) (lf_get f' (layer_id m))"
      proof (cases "layer_id m = ?i")
        case True
        then have "layer_source m = ?src" using assms m unfolding distinct_ids_def by blast
        then show ?thesis using res [THEN conjunct1] True by (simp add: f' lf_get_put)
      next
        case False
        then show ?thesis using ok m by (simp add: f' lf_get_put caches_ok_def)
      qed
    qed
    with res show ?thesis by blast
  qed
  then show ?thesis by unfold_locales blast+
qed

text \<open>The file of a layer reads the database the layer holds, with or without the deltas above.\<close>

lemma layer_read_delta:
  assumes "sync_file own ok c1" and "sync_file lower ok c2" and "0 < dl_chunkSize d" and "ok f"
    and "stop = min (ofs + length buf) n" and "ofs < stop"
    and "read_runs own lower ofs (runs d ofs stop) f buf = (f', buf', res)"
  shows "ok f' \<and> length buf' = length buf \<and>
    (res = Inr () \<longrightarrow>
      buf' = read_buffer (map (\<lambda>q. origin_byte c1 c2 (origin_of d q)) [0..<n]) buf ofs)"
proof -
  let ?g = "\<lambda>q. origin_byte c1 c2 (origin_of d q)"
  have ch: "chained ofs (runs d ofs stop) stop"
    using assms(3,6) by (intro runs_chained) simp_all
  have "stop \<le> ofs + length buf" using assms(5) by simp
  from read_runs_ok [OF assms(1,2) runs_origin ch assms(4) order_refl this assms(7)]
  have "ok f' \<and> length buf' = length buf \<and> (res = Inr () \<longrightarrow> buf' = overwrite buf (map ?g [ofs..<stop]) 0)"
    by simp
  moreover have "subarray (map ?g [0..<n]) ofs (ofs + length buf) = map ?g [ofs..<stop]"
    by (simp add: subarray_map_upt assms(5))
  ultimately show ?thesis by (simp add: read_buffer_def)
qed

lemma layer_sync:
  "set (layer_chain l) \<subseteq> U \<Longrightarrow> distinct_ids U \<Longrightarrow> chunks_ok l \<Longrightarrow>
   sync_file (layer_read rd l) (caches_ok rd U) (layer_bytes l)"
proof (induction l rule: layer_chain.induct)
  case (1 i st)
  then show ?case using own_sync [of "Layer i st None" U rd] by simp
next
  case (2 i st b)
  have own: "sync_file (own_read rd i (st_source st)) (caches_ok rd U) (source_bytes (st_source st))"
    using own_sync [of "Layer i st (Some b)" U rd] "2.prems" by simp
  show ?case
  proof (cases "st_delta st")
    case None
    then show ?thesis using own by simp
  next
    case (Some d)
    have low: "sync_file (layer_read rd b) (caches_ok rd U) (layer_bytes b)"
      using "2" by simp
    have cs: "0 < dl_chunkSize d" using "2.prems"(3) Some by simp
    let ?L = "Layer i st (Some b)"
    let ?n = "si_size (st_info st)"
    have all: "caches_ok rd U f' \<and> length buf' = length buf \<and>
      (\<forall>n. r = Inr n \<longrightarrow> n = read_count (layer_bytes ?L) buf ofs \<and> buf' = read_buffer (layer_bytes ?L) buf ofs)"
      if ok: "caches_ok rd U f" and rd: "layer_read rd ?L f buf ofs = (f', buf', r)" for f buf ofs f' buf' r
    proof (cases "min (ofs + length buf) ?n \<le> ofs")
      case True
      then have "f' = f" "buf' = buf" "r = Inr 0"
        using rd Some by (simp_all only: layer_read.simps option.case Let_def if_True) auto
      then show ?thesis
        using ok True read_count_0 [of ofs buf "layer_bytes ?L"] Some by simp
    next
      case False
      obtain res where rr: "read_runs (own_read rd i (st_source st)) (layer_read rd b) ofs
          (runs d ofs (min (ofs + length buf) ?n)) f buf = (f', buf', res)"
        and r: "\<And>n. r = Inr n \<Longrightarrow> res = Inr () \<and> n = min (ofs + length buf) ?n - ofs"
        using rd Some False
        by (auto simp only: layer_read.simps option.case Let_def if_False split: prod.splits sum.splits)
      have len: "read_count (layer_bytes ?L) buf ofs = min (ofs + length buf) ?n - ofs"
        using Some by (simp add: read_count_def; arith)
      from layer_read_delta [OF own low cs ok refl _ rr] False r Some len
      show ?thesis by (auto simp: not_le)
    qed
    then show ?thesis by unfold_locales blast+
  qed
qed

interpretation lf: sync_file "layer_read rd l"
  "\<lambda>f. set (layer_chain l) \<subseteq> U \<and> distinct_ids U \<and> chunks_ok l \<and> caches_ok rd U f" "layer_bytes l"
  for rd l U
proof
  fix f buf ofs f' buf' r n
  assume ok: "set (layer_chain l) \<subseteq> U \<and> distinct_ids U \<and> chunks_ok l \<and> caches_ok rd U f"
  then have s: "sync_file (layer_read rd l) (caches_ok rd U) (layer_bytes l)"
    by (intro layer_sync) simp_all
  {
    assume rd: "layer_read rd l f buf ofs = (f', buf', r)"
    show "set (layer_chain l) \<subseteq> U \<and> distinct_ids U \<and> chunks_ok l \<and> caches_ok rd U f'"
      using ok sync_file.read_ok [OF s _ rd] by blast
    show "length buf' = length buf"
      using ok sync_file.read_length [OF s _ rd] by blast
  }
  assume rd: "layer_read rd l f buf ofs = (f', buf', Inr n)"
  show "n = read_count (layer_bytes l) buf ofs \<and> buf' = read_buffer (layer_bytes l) buf ofs"
    using ok sync_file.read_Inr [OF s _ rd] by blast
qed

section \<open>The content of a layer is the database it holds\<close>

text \<open>
  Layers that hold together: a full snapshot holds as many bytes as it says; a delta has chunks of
  a positive size, its pages, and a layer below with every byte that shows of it.
\<close>

fun layer_wf :: "layer \<Rightarrow> bool" where
  "layer_wf (Layer i st None) \<longleftrightarrow>
     st_delta st = None \<and> si_size (st_info st) = length (source_bytes (st_source st))"
| "layer_wf (Layer i st (Some b)) \<longleftrightarrow>
     (case st_delta st of
        None \<Rightarrow> False
      | Some d \<Rightarrow> 0 < dl_chunkSize d
          \<and> length (dl_pages d) * dl_chunkSize d \<le> length (source_bytes (st_source st))
          \<and> dl_visible d \<le> si_size (layer_info b) \<and> layer_wf b)"

lemma layer_wf_length: "layer_wf l \<Longrightarrow> length (layer_bytes l) = si_size (layer_info l)"
  by (induction l rule: layer_chain.induct) (auto split: option.splits)

lemma layer_wf_chunks: "layer_wf l \<Longrightarrow> chunks_ok l"
  by (induction l rule: layer_chain.induct) (auto split: option.splits)

abbreviation parts_bytes :: "source list \<Rightarrow> bytes" where
  "parts_bytes ps \<equiv> concat (map source_bytes ps)"

lemma subarray_byte_or_0: "e \<le> length b \<Longrightarrow> subarray b s e = map (byte_or_0 b) [s..<e]"
  by (rule nth_equalityI) (auto simp: nth_subarray byte_or_0_def)

lemma add_part_ok:
  "e \<le> length (source_bytes src) \<Longrightarrow>
   \<exists>ps. add_part src s e = Inr ps \<and> parts_bytes ps = map (byte_or_0 (source_bytes src)) [s..<e]"
  by (simp add: add_part_def subarray_byte_or_0)

lemma collect_all_ok:
  assumes "\<And>r. r \<in> set rs \<Longrightarrow> \<exists>ps. F r = Inr ps \<and> parts_bytes ps = G r"
  shows "\<exists>ps. collect_all (map F rs) = Inr ps \<and> parts_bytes ps = concat (map G rs)"
  using assms
proof (induction rs)
  case Nil
  then show ?case by simp
next
  case (Cons r rs)
  then obtain ps qs where "F r = Inr ps" "parts_bytes ps = G r"
    and "collect_all (map F rs) = Inr qs" "parts_bytes qs = concat (map G rs)"
    by (meson list.set_intros)
  then show ?case by simp
qed

text \<open>A run of a delta reads within the delta's pages and within what shows of the layer below.\<close>

lemma own_run_end:
  assumes "0 < dl_chunkSize d" and "Own s t a \<in> set (runs d p stop)" and "s < t"
  shows "a + (t - s) \<le> length (dl_pages d) * dl_chunkSize d"
proof -
  have q: "s \<le> t - 1" "t - 1 < t" using assms(3) by simp_all
  then have "origin_of d (t - 1) = FromOwn (a + (t - 1 - s))"
    using runs_origin [OF assms(2), of "t - 1"] by simp
  then obtain slot where sl: "map_get (slots (dl_pages d)) ((t - 1) div dl_chunkSize d) = Some slot"
    and a: "a + (t - 1 - s) = slot * dl_chunkSize d + (t - 1) mod dl_chunkSize d"
    by (auto simp: origin_of_def Let_def split: option.splits if_splits)
  have "Suc slot * dl_chunkSize d \<le> length (dl_pages d) * dl_chunkSize d"
    using slots_Some [OF sl] by (intro mult_le_mono1) simp
  moreover have "(t - 1) mod dl_chunkSize d < dl_chunkSize d" using assms(1) by simp
  ultimately show ?thesis using a assms(3) by simp
qed

lemma below_run_end:
  assumes "Below s t \<in> set (runs d p stop)" and "s < t"
  shows "t \<le> dl_visible d"
proof -
  have "s \<le> t - 1" "t - 1 < t" using assms(2) by simp_all
  then have "origin_of d (t - 1) = FromBelow (t - 1)"
    using runs_origin [OF assms(1), of "t - 1"] by simp
  then show ?thesis by (auto simp: origin_of_def Let_def split: option.splits if_splits)
qed

lemma collect_ok:
  "layer_wf l \<Longrightarrow> s \<le> e \<Longrightarrow> e \<le> si_size (layer_info l) \<Longrightarrow>
   \<exists>ps. collect l s e = Inr ps \<and> parts_bytes ps = subarray (layer_bytes l) s e"
proof (induction l arbitrary: s e rule: layer_chain.induct)
  case (1 i st)
  then show ?case using add_part_ok [of e "st_source st" s] by (simp add: subarray_byte_or_0)
next
  case (2 i st b)
  then obtain d where d: "st_delta st = Some d" and cs: "0 < dl_chunkSize d"
    and own: "length (dl_pages d) * dl_chunkSize d \<le> length (source_bytes (st_source st))"
    and vis: "dl_visible d \<le> si_size (layer_info b)" and wf: "layer_wf b"
    by (auto split: option.splits)
  let ?src = "source_bytes (st_source st)"
  let ?g = "\<lambda>q. origin_byte ?src (layer_bytes b) (origin_of d q)"
  let ?F = "\<lambda>r. case r of Own from to pos \<Rightarrow> add_part (st_source st) pos (pos + to - from)
      | Below from to \<Rightarrow> collect b from to | Zero from to \<Rightarrow> Inr [Bytes (zeros (to - from))]"
  have ch: "chained s (runs d s e) e" using cs "2.prems"(2) by (rule runs_chained)
  have run: "\<exists>ps. ?F r = Inr ps \<and> parts_bytes ps = map ?g [run_from r..<run_to r]"
    if r: "r \<in> set (runs d s e)" for r
  proof -
    have lt: "run_from r < run_to r" using chained_bounds [OF ch] r by blast
    have g: "map ?g [run_from r..<run_to r] =
        map (\<lambda>q. origin_byte ?src (layer_bytes b) (run_origin r q)) [run_from r..<run_to r]"
      using runs_origin [OF r] by simp
    show ?thesis
    proof (cases r)
      case (Own f t a)
      have "a + (t - f) \<le> length ?src"
        using own_run_end [OF cs] r lt own Own by fastforce
      moreover have "map (byte_or_0 ?src) [a..<a + (t - f)] = map (\<lambda>q. byte_or_0 ?src (a + (q - f))) [f..<t]"
        using map_upt_shift [of "byte_or_0 ?src" a "t - f" f] lt Own by simp
      ultimately show ?thesis
        unfolding g using add_part_ok [of "a + (t - f)" "st_source st" a] Own lt by simp
    next
      case (Below f t)
      have t: "t \<le> si_size (layer_info b)" using below_run_end r lt vis Below by fastforce
      then have "\<exists>ps. collect b f t = Inr ps \<and> parts_bytes ps = subarray (layer_bytes b) f t"
        using "2.IH" [OF wf] lt Below by simp
      then show ?thesis
        unfolding g using Below t layer_wf_length [OF wf] by (simp add: subarray_byte_or_0)
    next
      case (Zero f t)
      then show ?thesis unfolding g by (simp add: map_replicate_const)
    qed
  qed
  have "\<exists>ps. collect_all (map ?F (runs d s e)) = Inr ps
      \<and> parts_bytes ps = concat (map (\<lambda>r. map ?g [run_from r..<run_to r]) (runs d s e))"
    by (rule collect_all_ok) (rule run)
  then obtain ps where
    "collect_all (map ?F (runs d s e)) = Inr ps" and "parts_bytes ps = map ?g [s..<e]"
    unfolding chained_bytes [OF ch] by blast
  then show ?case
    using d "2.prems"(3) by (simp add: subarray_map_upt min_def)
qed

lemma set_parts_ok:
  "pos + length (parts_bytes ps) \<le> length buf \<Longrightarrow>
   set_parts ps pos buf = Inr (overwrite buf (parts_bytes ps) pos)"
proof (induction ps arbitrary: pos buf)
  case Nil
  then show ?case by simp
next
  case (Cons p ps)
  then show ?case
    using overwrite_append [of pos "source_bytes p" "parts_bytes ps" buf] by (simp add: add.assoc)
qed

lemma overwrite_whole: "length d = length buf \<Longrightarrow> overwrite buf d 0 = d"
  by (simp add: overwrite_def)

lemma layerContent_ok:
  assumes "layer_wf l" and "s \<le> e" and "e \<le> si_size (layer_info l)"
  shows "\<exists>src. layerContent l s e = Inr src \<and> source_bytes src = subarray (layer_bytes l) s e"
proof (cases "layer_delta l = None \<and> s = 0 \<and> e = sizeOf (layer_source l)")
  case True
  then show ?thesis
    using assms(1) by (cases l rule: layer_chain.cases) (auto simp: layerContent_def split: option.splits)
next
  case False
  obtain ps where ps: "collect l s e = Inr ps" "parts_bytes ps = subarray (layer_bytes l) s e"
    using collect_ok [OF assms] by blast
  have "length (parts_bytes ps) = e - s"
    using ps(2) layer_wf_length [OF assms(1)] assms(3) by simp
  then have "set_parts ps 0 (zeros (e - s)) = Inr (parts_bytes ps)"
    by (simp add: set_parts_ok overwrite_whole)
  with False ps assms show ?thesis
    by (auto simp: layerContent_def split: list.split)
qed

section \<open>Properties\<close>

text \<open>
  C4. The content of a layer, for any range of the database, is the bytes of the database the layer
  holds, composed through every delta below; a range past the end fails with
  \<open>SQLITE_IOERR_READ\<close>.
\<close>

theorem layer_content_correct:
  assumes "layer_wf l" and "s \<le> e"
  shows "(e \<le> si_size (layer_info l) \<longrightarrow>
      (\<exists>src. layerContent l s e = Inr src \<and> source_bytes src = subarray (layer_bytes l) s e))
    \<and> (si_size (layer_info l) < e \<longrightarrow> layerContent l s e = Inl (SqliteError SQLITE_IOERR_READ))"
proof (intro conjI impI)
  assume "e \<le> si_size (layer_info l)"
  then show "\<exists>src. layerContent l s e = Inr src \<and> source_bytes src = subarray (layer_bytes l) s e"
    by (rule layerContent_ok [OF assms])
next
  assume e: "si_size (layer_info l) < e"
  have "\<not> (layer_delta l = None \<and> s = 0 \<and> e = sizeOf (layer_source l))"
    using e assms(1) by (cases l rule: layer_chain.cases) (auto split: option.splits)
  with e show "layerContent l s e = Inl (SqliteError SQLITE_IOERR_READ)"
    by (auto simp: layerContent_def)
qed

definition ex_info :: "string \<Rightarrow> nat \<Rightarrow> string option \<Rightarrow> snapshot_info" where
  "ex_info k n par = \<lparr>si_key = k, si_branch = [], si_meta = [], si_createdAt = 1, si_size = n, si_parent = par\<rparr>"

definition ex_full :: layer where
  "ex_full = Layer 0 \<lparr>st_info = ex_info ''a'' 6 None, st_source = Blob [1, 2, 3, 4, 5, 6], st_delta = None\<rparr> None"

definition ex_delta :: layer where
  "ex_delta = Layer 1 \<lparr>st_info = ex_info ''b'' 8 (Some ''a''), st_source = Blob [7, 8],
     st_delta = Some \<lparr>dl_parent = ''a'', dl_parentCreatedAt = 1, dl_chunkSize = 2, dl_visible = 5,
       dl_pages = [1], dl_depth = 1, dl_chainBytes = 2\<rparr>\<rparr> (Some ex_full)"

lemma ex_delta_wf: "layer_wf ex_delta"
  by (simp add: ex_delta_def ex_full_def ex_info_def)

lemma ex_delta_bytes: "layer_bytes ex_delta = [1, 2, 7, 8, 5, 0, 0, 0]"
  by (simp add: ex_delta_def ex_full_def ex_info_def origin_of_def slots_def byte_or_0_def
      upt_conv_Cons)

theorem layer_content_correct_witness:
  "\<exists>src. layerContent ex_delta 1 7 = Inr src \<and> source_bytes src = [2, 7, 8, 5, 0, 0]"
proof -
  have "si_size (layer_info ex_delta) = 8" by (simp add: ex_delta_def ex_info_def)
  then show ?thesis
    using layer_content_correct [OF ex_delta_wf, of 1 7]
    by (simp add: ex_delta_bytes subarray_def)
qed

text \<open>
  C5. However files over the same layers share their blocks and whichever reads of Blobs throw: a
  read through a layer's file that returns leaves in the buffer the bytes that \<open>layerContent\<close>
  gives for the range, and keeps the shared blocks true for every layer.
\<close>

theorem layer_file_reads_content:
  assumes "layer_wf l" and "set (layer_chain l) \<subseteq> U" and "distinct_ids U" and "caches_ok rd U f"
    and "layer_read rd l f buf ofs = (f', buf', r)"
  shows "caches_ok rd U f' \<and> length buf' = length buf \<and>
    (\<forall>n. r = Inr n \<longrightarrow> n = min (length buf) (si_size (layer_info l) - ofs) \<and>
       (ofs \<le> si_size (layer_info l) \<longrightarrow>
          (\<exists>src. layerContent l ofs (ofs + n) = Inr src \<and> buf' = source_bytes src @ drop n buf)))"
proof -
  have ok: "set (layer_chain l) \<subseteq> U \<and> distinct_ids U \<and> chunks_ok l \<and> caches_ok rd U f"
    using assms(2-4) layer_wf_chunks [OF assms(1)] by blast
  note len = layer_wf_length [OF assms(1)]
  have "\<exists>src. layerContent l ofs (ofs + n) = Inr src \<and> buf' = source_bytes src @ drop n buf"
    if "r = Inr n" and le: "ofs \<le> si_size (layer_info l)" for n
  proof -
    have n: "n = read_count (layer_bytes l) buf ofs" and b: "buf' = read_buffer (layer_bytes l) buf ofs"
      using lf.read_Inr [OF ok] assms(5) that(1) by blast+
    then have "ofs + n \<le> si_size (layer_info l)"
      using le len by (simp add: read_count_def)
    then obtain src where src: "layerContent l ofs (ofs + n) = Inr src"
      and sb: "source_bytes src = subarray (layer_bytes l) ofs (ofs + n)"
      using layerContent_ok [OF assms(1), of ofs "ofs + n"] by auto
    have "buf' = subarray (layer_bytes l) ofs (ofs + n) @ drop n buf"
      using n b by (simp add: read_buffer_split)
    with src sb show ?thesis by auto
  qed
  moreover have "n = min (length buf) (si_size (layer_info l) - ofs)" if "r = Inr n" for n
    using lf.read_Inr [OF ok] assms(5) that len by (simp add: read_count_def)
  ultimately show ?thesis
    using lf.read_ok [OF ok assms(5)] lf.read_length [OF ok assms(5)] by blast
qed

definition ex_reader :: "nat \<Rightarrow> blob_reader" where
  "ex_reader i = whole_reader (if i = 0 then [1, 2, 3, 4, 5, 6] else [7, 8])"

definition ex_files :: layer_file_state where
  "ex_files = \<lparr>lf_caches = (\<lambda>_. []), lf_ends = (\<lambda>_. -1)\<rparr>"

theorem layer_file_reads_content_witness:
  "case layer_read ex_reader ex_delta ex_files [9, 9, 9] 1 of
     (f', buf', r) \<Rightarrow> length buf' = 3 \<and> (r = Inr 3 \<longrightarrow>
       (\<exists>src. layerContent ex_delta 1 4 = Inr src \<and> buf' = source_bytes src))"
proof -
  obtain f' buf' r where rd: "layer_read ex_reader ex_delta ex_files [9, 9, 9] 1 = (f', buf', r)"
    by (cases "layer_read ex_reader ex_delta ex_files [9, 9, 9] 1")
  have chain: "set (layer_chain ex_delta) \<subseteq> {ex_delta, ex_full}"
    by (simp add: ex_delta_def ex_full_def)
  have ids: "distinct_ids {ex_delta, ex_full}"
    by (simp add: distinct_ids_def ex_delta_def ex_full_def)
  have caches: "caches_ok ex_reader {ex_delta, ex_full} ex_files"
    by (simp add: caches_ok_def ex_delta_def ex_full_def ro_ok_def ex_reader_def reader_ok_whole
        ex_files_def lf_get_def BLOCK_BYTES_def)
  have "si_size (layer_info ex_delta) = 8" by (simp add: ex_delta_def ex_info_def)
  with layer_file_reads_content [OF ex_delta_wf chain ids caches rd]
  have "length buf' = 3" and "r = Inr 3 \<Longrightarrow> \<exists>src. layerContent ex_delta 1 4 = Inr src \<and> buf' = source_bytes src"
    by auto
  then show ?thesis unfolding rd by simp
qed

end
