(* ===== verification/Page_Runs.thy ===== *)
theory Page_Runs
  imports Layers
begin

text \<open>
  A snapshot to write (\<open>NewSnapshot\<close> of snapshots.ts), and the runs its pages are written in
  (\<open>pageRuns\<close>, \<open>pageRun\<close>). The base a snapshot goes over and its ranges may fail to be read, so
  they are results; a page is a view of the Wasm heap, here its bytes.
\<close>

record new_delta =
  nd_parent :: string
  nd_parentCreatedAt :: rat
  nd_depth :: nat
  nd_chainBytes :: nat

record new_snapshot =
  ns_key :: string
  ns_branch :: string
  ns_meta :: snapshot_meta
  ns_base :: "source option result"
  ns_baseRange :: "(nat \<Rightarrow> nat \<Rightarrow> source result) option"
  ns_visible :: nat
  ns_size :: nat
  ns_chunkSize :: nat
  ns_pages :: "nat list"
  ns_page :: "nat \<Rightarrow> bytes"
  ns_delta :: "new_delta option"

definition WRITE_BYTES :: nat where "WRITE_BYTES = 4194304"

section \<open>Runs of pages\<close>

definition perRun :: "nat \<Rightarrow> nat" where
  "perRun cs = max 1 (WRITE_BYTES div cs)"

text \<open>The inner loop: \<open>stop\<close> (\<open>end\<close> in the code) goes up while the run may go on.\<close>

function run_end :: "nat list \<Rightarrow> nat \<Rightarrow> bool \<Rightarrow> nat \<Rightarrow> nat \<Rightarrow> nat" where
  "run_end pages cs consecutive i stop =
     (if stop < length pages \<and> stop - i < perRun cs
         \<and> (\<not> consecutive \<or> pages ! stop = pages ! (stop - 1) + 1)
      then run_end pages cs consecutive i (stop + 1) else stop)"
  by pat_completeness auto
termination
  by (relation "measure (\<lambda>(pages, cs, consecutive, i, stop). length pages - stop)") auto

declare run_end.simps [simp del]

lemma run_end_ge: "stop \<le> run_end pages cs c i stop"
proof (induction pages cs c i stop rule: run_end.induct)
  case (1 pages cs c i stop)
  then show ?case by (subst run_end.simps) (auto simp: Suc_le_eq)
qed

function pageRuns_from :: "nat list \<Rightarrow> nat \<Rightarrow> bool \<Rightarrow> nat \<Rightarrow> (nat \<times> nat) list" where
  "pageRuns_from pages cs consecutive i =
     (if i < length pages
      then (i, run_end pages cs consecutive i (i + 1))
             # pageRuns_from pages cs consecutive (run_end pages cs consecutive i (i + 1))
      else [])"
  by pat_completeness auto
termination
proof (relation "measure (\<lambda>(pages, cs, consecutive, i). length pages - i)")
  fix pages :: "nat list" and cs c i
  assume "i < length pages"
  moreover have "i + 1 \<le> run_end pages cs c i (i + 1)" by (rule run_end_ge)
  ultimately show "((pages, cs, c, run_end pages cs c i (i + 1)), (pages, cs, c, i))
      \<in> measure (\<lambda>(pages, cs, consecutive, i). length pages - i)" by auto
qed simp

declare pageRuns_from.simps [simp del]

definition pageRuns :: "nat list \<Rightarrow> nat \<Rightarrow> bool \<Rightarrow> (nat \<times> nat) list" where
  "pageRuns pages cs consecutive = pageRuns_from pages cs consecutive 0"

text \<open>\<open>pageRun\<close>: pages \<open>[i, stop)\<close> copied one after the other; a page too long for it throws.\<close>

primrec set_pages :: "(nat \<Rightarrow> bytes) \<Rightarrow> nat \<Rightarrow> nat \<Rightarrow> nat list \<Rightarrow> bytes \<Rightarrow> bytes result" where
  "set_pages page cs i [] buf = Inr buf"
| "set_pages page cs i (k # ks) buf =
     and_then (u8_set buf (page k) ((k - i) * cs)) (set_pages page cs i ks)"

definition pageRun :: "new_snapshot \<Rightarrow> nat \<Rightarrow> nat \<Rightarrow> bytes result" where
  "pageRun s i stop =
     set_pages (ns_page s) (ns_chunkSize s) i [i..<stop] (zeros ((stop - i) * ns_chunkSize s))"

section \<open>What the runs are\<close>

text \<open>Runs \<open>[i, e)\<close> one after the other, from \<open>p\<close> to \<open>n\<close>.\<close>

fun run_chain :: "nat \<Rightarrow> (nat \<times> nat) list \<Rightarrow> nat \<Rightarrow> bool" where
  "run_chain p [] n = (p = n)"
| "run_chain p (r # rs) n = (fst r = p \<and> p < snd r \<and> run_chain (snd r) rs n)"

lemma run_chain_le: "run_chain p rs n \<Longrightarrow> p \<le> n"
  by (induction p rs n rule: run_chain.induct) auto

lemma run_end_le: "stop \<le> length pages \<Longrightarrow> run_end pages cs c i stop \<le> length pages"
proof (induction pages cs c i stop rule: run_end.induct)
  case (1 pages cs c i stop)
  then show ?case by (subst run_end.simps) auto
qed

lemma run_end_size: "stop - i \<le> perRun cs \<Longrightarrow> i < stop \<Longrightarrow> run_end pages cs c i stop - i \<le> perRun cs"
proof (induction pages cs c i stop rule: run_end.induct)
  case (1 pages cs c i stop)
  then show ?case by (subst run_end.simps) auto
qed

lemma run_end_consecutive:
  "stop \<le> k \<Longrightarrow> k < run_end pages cs True i stop \<Longrightarrow> pages ! k = pages ! (k - 1) + 1"
proof (induction pages cs True i stop rule: run_end.induct)
  case (1 pages cs i stop)
  show ?case
  proof (cases "stop < length pages \<and> stop - i < perRun cs \<and> pages ! stop = pages ! (stop - 1) + 1")
    case True
    then have "k < run_end pages cs True i (stop + 1)"
      using "1.prems"(2) by (subst (asm) run_end.simps) simp
    with "1.hyps" True "1.prems"(1) show ?thesis by (cases "k = stop") auto
  next
    case False
    then have "run_end pages cs True i stop = stop" by (subst run_end.simps) auto
    with "1.prems" show ?thesis by simp
  qed
qed

lemma run_end_consecutive_run:
  assumes "i \<le> k" and "k < run_end pages cs True i (i + 1)"
  shows "pages ! k = pages ! i + (k - i)"
  using assms
proof (induction k rule: dec_induct)
  case base
  then show ?case by simp
next
  case (step k)
  then show ?case
    using run_end_consecutive [of "i + 1" "Suc k" pages cs i] by simp
qed

lemma pageRuns_from_chain:
  "i \<le> length pages \<Longrightarrow> run_chain i (pageRuns_from pages cs c i) (length pages)"
proof (induction pages cs c i rule: pageRuns_from.induct)
  case (1 pages cs c i)
  show ?case
  proof (cases "i < length pages")
    case True
    then show ?thesis
      using "1.IH" run_end_ge [of "i + 1" pages cs c i] run_end_le [of "i + 1" pages cs c i]
      by (subst pageRuns_from.simps) simp
  next
    case False
    then show ?thesis using "1.prems" by (subst pageRuns_from.simps) simp
  qed
qed

lemma pageRuns_from_mem:
  "(a, e) \<in> set (pageRuns_from pages cs c i) \<Longrightarrow>
   a < length pages \<and> e = run_end pages cs c a (a + 1)"
proof (induction pages cs c i rule: pageRuns_from.induct)
  case (1 pages cs c i)
  then show ?case by (subst (asm) pageRuns_from.simps) (auto split: if_splits)
qed

lemma pageRuns_chain: "run_chain 0 (pageRuns pages cs c) (length pages)"
  by (simp add: pageRuns_def pageRuns_from_chain)

lemma pageRuns_mem:
  assumes "(a, e) \<in> set (pageRuns pages cs c)"
  shows "a < e" and "e \<le> length pages" and "e - a \<le> perRun cs"
    and "c \<Longrightarrow> a \<le> k \<Longrightarrow> k < e \<Longrightarrow> pages ! k = pages ! a + (k - a)"
proof -
  from assms have a: "a < length pages" and e: "e = run_end pages cs c a (a + 1)"
    using pageRuns_from_mem by (auto simp: pageRuns_def)
  show "a < e" using run_end_ge [of "a + 1" pages cs c a] e by simp
  show "e \<le> length pages" using run_end_le [of "a + 1" pages cs c a] a e by simp
  show "e - a \<le> perRun cs" using run_end_size [of "a + 1" a cs pages c] e by (simp add: perRun_def)
  show "pages ! k = pages ! a + (k - a)" if c "a \<le> k" "k < e"
    using run_end_consecutive_run [of a k pages cs] that e by simp
qed

section \<open>The bytes of a run\<close>

lemma set_pages_ok:
  assumes "i \<le> p" and "p \<le> stop" and "\<And>k. i \<le> k \<Longrightarrow> k < stop \<Longrightarrow> length (page k) = cs"
    and "length buf = (stop - i) * cs"
  shows "set_pages page cs i [p..<stop] buf =
    Inr (overwrite buf (concat (map page [p..<stop])) ((p - i) * cs))"
  using assms
proof (induction "stop - p" arbitrary: p buf)
  case 0
  then show ?case by simp
next
  case (Suc n)
  then have p: "p < stop" by simp
  have cat: "length (concat (map page [q..<stop])) = (stop - q) * cs" if "i \<le> q" "q \<le> stop" for q
  proof -
    have "map (length \<circ> page) [q..<stop] = replicate (stop - q) cs"
      using that Suc.prems(3) by (intro nth_equalityI) auto
    then show ?thesis by (simp add: length_concat sum_list_replicate)
  qed
  have len: "(p - i) * cs + cs + (stop - Suc p) * cs = (stop - i) * cs"
  proof -
    have "(p - i) + 1 + (stop - Suc p) = stop - i" using p Suc.prems(1) by simp
    then show ?thesis by (metis add_mult_distrib mult_1)
  qed
  have fits: "(p - i) * cs + length (page p) \<le> length buf"
    using len Suc.prems(3) [of p] p Suc.prems(1,4) by simp
  have step: "(Suc p - i) * cs = (p - i) * cs + length (page p)"
    using Suc.prems(1) Suc.prems(3) [of p] p by (simp add: Suc_diff_le)
  have "set_pages page cs i [Suc p..<stop] (overwrite buf (page p) ((p - i) * cs)) =
      Inr (overwrite (overwrite buf (page p) ((p - i) * cs)) (concat (map page [Suc p..<stop])) ((Suc p - i) * cs))"
    using Suc.hyps(2) Suc.prems p fits by (intro Suc.hyps(1)) auto
  also have "\<dots> = Inr (overwrite buf (page p @ concat (map page [Suc p..<stop])) ((p - i) * cs))"
    unfolding step using fits len cat [of "Suc p"] p Suc.prems(1,3,4)
    by (intro arg_cong [where f = Inr] overwrite_append) simp
  finally show ?case
    using p fits by (simp add: upt_conv_Cons)
qed

lemma pageRun_ok:
  assumes "i \<le> stop" and "\<And>k. i \<le> k \<Longrightarrow> k < stop \<Longrightarrow> length (ns_page s k) = ns_chunkSize s"
  shows "pageRun s i stop = Inr (concat (map (ns_page s) [i..<stop]))"
proof -
  have "length (concat (map (ns_page s) [i..<stop])) = (stop - i) * ns_chunkSize s"
  proof -
    have "map (length \<circ> ns_page s) [i..<stop] = replicate (stop - i) (ns_chunkSize s)"
      using assms by (intro nth_equalityI) auto
    then show ?thesis by (simp add: length_concat sum_list_replicate)
  qed
  then show ?thesis
    using set_pages_ok [OF order_refl assms(1), of "ns_page s" "ns_chunkSize s" "zeros ((stop - i) * ns_chunkSize s)"]
      assms by (simp add: pageRun_def overwrite_whole)
qed

lemma perRun_bytes: "perRun cs * cs \<le> max cs WRITE_BYTES"
proof -
  have "WRITE_BYTES div cs * cs \<le> WRITE_BYTES" by simp
  then show ?thesis by (auto simp: perRun_def max_def)
qed

section \<open>Properties\<close>

text \<open>
  C6. The runs of pages go through every page once, in order; a run is no larger than
  \<open>WRITE_BYTES\<close> (or one page), its pages follow each other in the file where that is asked for,
  and what is copied for it is its pages one after the other.
\<close>

theorem pageRuns_correct:
  assumes "\<And>k. k < length (ns_pages s) \<Longrightarrow> length (ns_page s k) = ns_chunkSize s"
  shows "run_chain 0 (pageRuns (ns_pages s) (ns_chunkSize s) c) (length (ns_pages s)) \<and>
    (\<forall>a e. (a, e) \<in> set (pageRuns (ns_pages s) (ns_chunkSize s) c) \<longrightarrow>
       (e - a) * ns_chunkSize s \<le> max (ns_chunkSize s) WRITE_BYTES
       \<and> (c \<longrightarrow> (\<forall>k. a \<le> k \<and> k < e \<longrightarrow> ns_pages s ! k = ns_pages s ! a + (k - a)))
       \<and> pageRun s a e = Inr (concat (map (ns_page s) [a..<e])))"
proof (intro conjI allI impI)
  fix a e
  assume r: "(a, e) \<in> set (pageRuns (ns_pages s) (ns_chunkSize s) c)"
  have "(e - a) * ns_chunkSize s \<le> perRun (ns_chunkSize s) * ns_chunkSize s"
    using pageRuns_mem(3) [OF r] by (rule mult_le_mono1)
  then show "(e - a) * ns_chunkSize s \<le> max (ns_chunkSize s) WRITE_BYTES"
    using perRun_bytes le_trans by blast
  show "pageRun s a e = Inr (concat (map (ns_page s) [a..<e]))"
    using pageRuns_mem(1,2) [OF r] assms by (intro pageRun_ok) auto
  fix k
  assume "c" "a \<le> k \<and> k < e"
  then show "ns_pages s ! k = ns_pages s ! a + (k - a)"
    using pageRuns_mem(4) [OF r] by blast
qed (rule pageRuns_chain)

definition ex_new :: new_snapshot where
  "ex_new = \<lparr>ns_key = ''k'', ns_branch = [], ns_meta = [], ns_base = Inr (Some (Bytes [1, 2, 3, 4, 5])),
     ns_baseRange = None, ns_visible = 5, ns_size = 12, ns_chunkSize = 2, ns_pages = [1, 2, 4],
     ns_page = (\<lambda>k. [of_nat (10 * k), of_nat (10 * k + 1)]), ns_delta = None\<rparr>"

theorem pageRuns_correct_witness:
  "run_chain 0 (pageRuns [1, 2, 4] 2 True) 3"
proof -
  have "\<And>k. k < length (ns_pages ex_new) \<Longrightarrow> length (ns_page ex_new k) = ns_chunkSize ex_new"
    by (simp add: ex_new_def)
  note pageRuns_correct [OF this, of True]
  then have "run_chain 0 (pageRuns (ns_pages ex_new) (ns_chunkSize ex_new) True) (length (ns_pages ex_new))" ..
  then show ?thesis by (simp add: ex_new_def eval_nat_numeral)
qed

end
