(* ===== verification/Snapshot_Write.thy ===== *)
theory Snapshot_Write
  imports Page_Runs
begin

text \<open>
  What the stores of snapshots.ts write for a \<open>NewSnapshot\<close>: the memory store's bytes, the file
  the directory store writes through a \<open>FileWriter\<close>, and the Blob \<open>composeBlob\<close> builds for the
  IndexedDB store, each in full or as the pages of a delta. All of them are shown to be the same
  content, the pages over what stays of the base.
\<close>

section \<open>The old content\<close>

text \<open>\<open>baseRange(snapshot, start, end)\<close>; without a base, slicing it is a \<open>TypeError\<close>.\<close>

definition baseRange :: "new_snapshot \<Rightarrow> nat \<Rightarrow> nat \<Rightarrow> source result" where
  "baseRange s start stop =
     (case ns_baseRange s of
        Some f \<Rightarrow> f start stop
      | None \<Rightarrow> and_then (ns_base s) (\<lambda>b.
          case b of Some src \<Rightarrow> Inr (slice src start stop) | None \<Rightarrow> Inl (JsError ''TypeError'')))"

text \<open>\<open>storedAs\<close>: the snapshot as a store wrote it.\<close>

definition layoutOf :: "new_snapshot \<Rightarrow> new_delta \<Rightarrow> delta_layout" where
  "layoutOf s nd = \<lparr>dl_parent = nd_parent nd, dl_parentCreatedAt = nd_parentCreatedAt nd,
     dl_chunkSize = ns_chunkSize s, dl_visible = ns_visible s, dl_pages = ns_pages s,
     dl_depth = nd_depth nd, dl_chainBytes = nd_chainBytes nd\<rparr>"

definition storedAs :: "new_snapshot \<Rightarrow> rat \<Rightarrow> source \<Rightarrow> stored_snapshot" where
  "storedAs s createdAt src =
     \<lparr>st_info = \<lparr>si_key = ns_key s, si_branch = ns_branch s, si_meta = ns_meta s,
                 si_createdAt = createdAt, si_size = ns_size s,
                 si_parent = map_option nd_parent (ns_delta s)\<rparr>,
      st_source = src,
      st_delta = map_option (layoutOf s) (ns_delta s)\<rparr>"

section \<open>The memory store's bytes\<close>

text \<open>\<open>subarray(0, n)\<close> with a negative \<open>n\<close> leaves out \<open>-n\<close> bytes at the end.\<close>

definition subarray_to :: "bytes \<Rightarrow> int \<Rightarrow> bytes" where
  "subarray_to d n = (if n < 0 then take (nat (int (length d) + n)) d else take (nat n) d)"

lemma subarray_to_diff: "m \<le> n \<Longrightarrow> subarray_to d (int n - int m) = take (n - m) d"
  by (simp add: subarray_to_def flip: of_nat_diff)

text \<open>The pages from the \<open>i\<close>-th on, each at its place in the database, cut off at its end.\<close>

primrec place_pages :: "(nat \<Rightarrow> bytes) \<Rightarrow> nat \<Rightarrow> nat \<Rightarrow> nat \<Rightarrow> nat list \<Rightarrow> bytes \<Rightarrow> bytes result" where
  "place_pages page cs n i [] data = Inr data"
| "place_pages page cs n i (index # rest) data =
     (let start = index * cs
      in and_then (u8_set data (subarray_to (page i) (int n - int start)) start)
           (place_pages page cs n (Suc i) rest))"

definition memory_data :: "new_snapshot \<Rightarrow> bytes result" where
  "memory_data s =
     (case ns_delta s of
        Some _ \<Rightarrow>
          set_pages (ns_page s) (ns_chunkSize s) 0 [0..<length (ns_pages s)]
            (zeros (length (ns_pages s) * ns_chunkSize s))
      | None \<Rightarrow>
          let data = zeros (ns_size s);
              keep = min (ns_visible s) (ns_size s)
          in and_then (and_then (ns_base s) (\<lambda>b.
               case b of
                 Some src \<Rightarrow> if 0 < keep then u8_set data (source_bytes (slice src 0 keep)) 0 else Inr data
               | None \<Rightarrow> Inr data))
             (place_pages (ns_page s) (ns_chunkSize s) (ns_size s) 0 (ns_pages s)))"

section \<open>The directory store's file\<close>

text \<open>
  A \<open>FileWriter\<close>'s file is the bytes written so far: writing past the end fills with zeros, and
  \<open>truncate\<close> shortens it or lengthens it with zeros, as the interface says.
\<close>

definition writer_write :: "bytes \<Rightarrow> bytes \<Rightarrow> nat \<Rightarrow> bytes" where
  "writer_write file d pos =
     (let file' = file @ zeros (pos + length d - length file) in overwrite file' d pos)"

definition writer_truncate :: "bytes \<Rightarrow> nat \<Rightarrow> bytes" where
  "writer_truncate file n = take n file @ zeros (n - length file)"

text \<open>What a delta file starts with: \<open>'SQLite delta\0\0\0\0'\<close>.\<close>

definition DELTA_MARKER :: bytes where
  "DELTA_MARKER = [83, 81, 76, 105, 116, 101, 32, 100, 101, 108, 116, 97, 0, 0, 0, 0]"

primrec writeRuns :: "new_snapshot \<Rightarrow> (nat \<Rightarrow> nat) \<Rightarrow> (nat \<times> nat) list \<Rightarrow> bytes \<Rightarrow> bytes result" where
  "writeRuns s position [] file = Inr file"
| "writeRuns s position (r # rs) file =
     and_then (pageRun s (fst r) (snd r))
       (\<lambda>d. writeRuns s position rs (writer_write file d (position (fst r))))"

definition writePages :: "new_snapshot \<Rightarrow> (nat \<Rightarrow> nat) \<Rightarrow> bytes \<Rightarrow> bytes result" where
  "writePages s position file =
     writeRuns s position (pageRuns (ns_pages s) (ns_chunkSize s) (ns_delta s = None)) file"

text \<open>\<open>keep(stop)\<close>: the old content from \<open>pos\<close> (\<open>at\<close> in the code) on, as far as it shows.\<close>

definition keep_to :: "new_snapshot \<Rightarrow> nat \<Rightarrow> nat \<times> bytes \<Rightarrow> (nat \<times> bytes) result" where
  "keep_to s stop st =
     (let (pos, file) = st;
          to = min (min stop (ns_visible s)) (ns_size s)
      in and_then (if pos < to
                   then and_then (baseRange s pos to)
                          (\<lambda>src. Inr (writer_write file (source_bytes src) pos))
                   else Inr file)
           (\<lambda>file'. Inr (max pos stop, file')))"

primrec keep_pages :: "new_snapshot \<Rightarrow> nat list \<Rightarrow> nat \<times> bytes \<Rightarrow> (nat \<times> bytes) result" where
  "keep_pages s [] st = Inr st"
| "keep_pages s (index # rest) st =
     and_then (keep_to s (index * ns_chunkSize s) st)
       (\<lambda>(pos, file). keep_pages s rest ((index + 1) * ns_chunkSize s, file))"

definition directory_file :: "new_snapshot \<Rightarrow> bytes result" where
  "directory_file s =
     (case ns_delta s of
        Some _ \<Rightarrow>
          writePages s (\<lambda>i. length DELTA_MARKER + i * ns_chunkSize s) (writer_write [] DELTA_MARKER 0)
      | None \<Rightarrow>
          and_then (keep_pages s (ns_pages s) (0, [])) (\<lambda>st.
          and_then (keep_to s (ns_size s) st) (\<lambda>(_, file).
          and_then (writePages s (\<lambda>i. ns_pages s ! i * ns_chunkSize s) file) (\<lambda>file'.
          Inr (writer_truncate file' (ns_size s))))))"

section \<open>The IndexedDB store's Blob\<close>

text \<open>\<open>fill(end)\<close> of \<open>composeBlob\<close>: the old content up to \<open>stop\<close>, and zeros past what shows of it.\<close>

definition fill_to :: "new_snapshot \<Rightarrow> nat \<Rightarrow> nat \<times> bytes \<Rightarrow> (nat \<times> bytes) result" where
  "fill_to s stop st =
     (let (pos, parts) = st;
          keep = min stop (ns_visible s)
      in and_then
           (if pos < keep
            then (case ns_baseRange s of
                    Some f \<Rightarrow> and_then (f pos keep) (\<lambda>src. Inr (parts @ source_bytes src))
                  | None \<Rightarrow> and_then (ns_base s) (\<lambda>b.
                      case b of
                        Some src \<Rightarrow> Inr (parts @ source_bytes (slice src pos keep))
                      | None \<Rightarrow> Inr parts))
            else Inr parts)
           (\<lambda>parts'. Inr (stop, parts' @ zeros (stop - max pos keep))))"

primrec compose_runs :: "new_snapshot \<Rightarrow> (nat \<times> nat) list \<Rightarrow> nat \<times> bytes \<Rightarrow> (nat \<times> bytes) result" where
  "compose_runs s [] st = Inr st"
| "compose_runs s (r # rs) st =
     (let start = ns_pages s ! fst r * ns_chunkSize s
      in and_then (fill_to s start st) (\<lambda>(_, parts).
         let len = min ((snd r - fst r) * ns_chunkSize s) (ns_size s - start)
         in and_then (pageRun s (fst r) (snd r)) (\<lambda>d.
              compose_runs s rs (start + len, parts @ take len d))))"

definition composeBlob :: "new_snapshot \<Rightarrow> source result" where
  "composeBlob s =
     and_then (compose_runs s (pageRuns (ns_pages s) (ns_chunkSize s) True) (0, [])) (\<lambda>st.
     and_then (fill_to s (ns_size s) st) (\<lambda>(_, parts). Inr (Blob parts)))"

primrec pageRun_all :: "new_snapshot \<Rightarrow> (nat \<times> nat) list \<Rightarrow> bytes result" where
  "pageRun_all s [] = Inr []"
| "pageRun_all s (r # rs) =
     and_then (pageRun s (fst r) (snd r)) (\<lambda>d. and_then (pageRun_all s rs) (\<lambda>ds. Inr (d @ ds)))"

definition idb_blob :: "new_snapshot \<Rightarrow> source result" where
  "idb_blob s =
     (case ns_delta s of
        Some _ \<Rightarrow> and_then (pageRun_all s (pageRuns (ns_pages s) (ns_chunkSize s) False)) (\<lambda>b. Inr (Blob b))
      | None \<Rightarrow> composeBlob s)"

section \<open>The content of a new snapshot\<close>

text \<open>
  What a snapshot to write promises (\<open>NewSnapshot\<close>): chunks of a positive size, pages in ascending
  order that start before \<open>size\<close>, each of a whole chunk; and \<open>b\<close> is the content they go over, of
  which \<open>visible\<close> bytes are there.
\<close>

definition ns_pages_ok :: "new_snapshot \<Rightarrow> bool" where
  "ns_pages_ok s \<longleftrightarrow> 0 < ns_chunkSize s \<and> sorted_wrt (<) (ns_pages s)
     \<and> (\<forall>i \<in> set (ns_pages s). i * ns_chunkSize s < ns_size s)
     \<and> (\<forall>k < length (ns_pages s). length (ns_page s k) = ns_chunkSize s)"

definition ns_base_ok :: "new_snapshot \<Rightarrow> bytes \<Rightarrow> bool" where
  "ns_base_ok s b \<longleftrightarrow> ns_visible s \<le> length b
     \<and> (ns_base s = Inr None \<and> ns_visible s = 0 \<or> (\<exists>src. ns_base s = Inr (Some src) \<and> source_bytes src = b))
     \<and> (\<forall>f. ns_baseRange s = Some f \<longrightarrow> (\<forall>a e. a \<le> e \<and> e \<le> ns_visible s \<longrightarrow>
          (\<exists>src. f a e = Inr src \<and> source_bytes src = subarray b a e)))"

text \<open>The new content: the page of the chunk, else the old content as far as it shows, else zero.\<close>

definition ns_byte :: "new_snapshot \<Rightarrow> bytes \<Rightarrow> nat \<Rightarrow> byte" where
  "ns_byte s b q =
     (case map_get (slots (ns_pages s)) (q div ns_chunkSize s) of
        Some k \<Rightarrow> ns_page s k ! (q mod ns_chunkSize s)
      | None \<Rightarrow> if q < ns_visible s then byte_or_0 b q else 0)"

definition new_bytes :: "new_snapshot \<Rightarrow> bytes \<Rightarrow> bytes" where
  "new_bytes s b = map (ns_byte s b) [0..<ns_size s]"

definition pages_bytes :: "new_snapshot \<Rightarrow> bytes" where
  "pages_bytes s = concat (map (ns_page s) [0..<length (ns_pages s)])"

lemma length_concat_blocks:
  "(\<And>k. i \<le> k \<Longrightarrow> k < e \<Longrightarrow> length (page k) = cs) \<Longrightarrow> length (concat (map page [i..<e])) = (e - i) * cs"
proof -
  assume a: "\<And>k. i \<le> k \<Longrightarrow> k < e \<Longrightarrow> length (page k) = cs"
  have "map (length \<circ> page) [i..<e] = replicate (e - i) cs"
    using a by (intro nth_equalityI) auto
  then show ?thesis by (simp add: length_concat sum_list_replicate)
qed

lemma nth_concat_blocks:
  assumes "\<And>k. i \<le> k \<Longrightarrow> k < e \<Longrightarrow> length (page k) = cs" and "i \<le> k" and "k < e" and "r < cs"
  shows "concat (map page [i..<e]) ! ((k - i) * cs + r) = page k ! r"
proof -
  have "[i..<e] = [i..<k] @ k # [Suc k..<e]"
    using assms(2,3) upt_split [of i k e] by (simp add: upt_conv_Cons)
  moreover have "length (concat (map page [i..<k])) = (k - i) * cs"
    using assms by (intro length_concat_blocks) auto
  ultimately show ?thesis
    using assms(1) [of k] assms(2-4) by (simp add: nth_append)
qed

lemma ns_pages_okD:
  assumes "ns_pages_ok s"
  shows "0 < ns_chunkSize s" and "distinct (ns_pages s)"
    and "k < length (ns_pages s) \<Longrightarrow> length (ns_page s k) = ns_chunkSize s"
    and "k < length (ns_pages s) \<Longrightarrow> ns_pages s ! k * ns_chunkSize s < ns_size s"
    and "j < k \<Longrightarrow> k < length (ns_pages s) \<Longrightarrow> ns_pages s ! j < ns_pages s ! k"
  using assms by (auto simp: ns_pages_ok_def strict_sorted_iff sorted_wrt_nth_less)

lemma ns_byte_page:
  assumes "ns_pages_ok s" and "k < length (ns_pages s)" and "q div ns_chunkSize s = ns_pages s ! k"
  shows "ns_byte s b q = ns_page s k ! (q mod ns_chunkSize s)"
  using slots_distinct [OF ns_pages_okD(2) [OF assms(1)] assms(2)] assms(3)
  by (simp add: ns_byte_def)

lemma ns_byte_old:
  "q div ns_chunkSize s \<notin> set (ns_pages s) \<Longrightarrow>
   ns_byte s b q = (if q < ns_visible s then byte_or_0 b q else 0)"
  by (simp add: ns_byte_def slots_None [THEN iffD2])

text \<open>Between two pages that follow each other there is no other.\<close>

lemma pages_gap:
  assumes "ns_pages_ok s" and "p \<le> length (ns_pages s)"
    and "p \<noteq> 0 \<Longrightarrow> ns_pages s ! (p - 1) < c" and "p < length (ns_pages s) \<Longrightarrow> c < ns_pages s ! p"
  shows "c \<notin> set (ns_pages s)"
proof
  assume "c \<in> set (ns_pages s)"
  then obtain k where k: "k < length (ns_pages s)" "ns_pages s ! k = c" by (auto simp: in_set_conv_nth)
  show False
  proof (cases "k < p")
    case True
    have last: "p - 1 < length (ns_pages s)" using True assms(2) by linarith
    from True have "k < p - 1 \<or> k = p - 1" by linarith
    then have "ns_pages s ! k \<le> ns_pages s ! (p - 1)"
      using ns_pages_okD(5) [OF assms(1), of k "p - 1"] last by auto
    with assms(3) True k(2) show False by simp
  next
    case False
    then have "ns_pages s ! p \<le> ns_pages s ! k"
      using ns_pages_okD(5) [OF assms(1), of p k] k(1) by (cases "k = p") auto
    with assms(4) False k show False by simp
  qed
qed

text \<open>The content as a layer: a delta over a layer that holds \<open>b\<close>.\<close>

lemma origin_new:
  assumes "ns_pages_ok s"
  shows "origin_byte (pages_bytes s) b (origin_of (layoutOf s nd) q) = ns_byte s b q"
proof (cases "map_get (slots (ns_pages s)) (q div ns_chunkSize s)")
  case None
  then show ?thesis by (simp add: origin_of_def layoutOf_def ns_byte_def)
next
  case (Some k)
  have k: "k < length (ns_pages s)" using slots_Some [OF Some] by simp
  have r: "q mod ns_chunkSize s < ns_chunkSize s" using ns_pages_okD(1) [OF assms] by simp
  have "length (pages_bytes s) = length (ns_pages s) * ns_chunkSize s"
    unfolding pages_bytes_def using length_concat_blocks [of 0 "length (ns_pages s)" "ns_page s" "ns_chunkSize s"]
      ns_pages_okD(3) [OF assms] by simp
  moreover have "k * ns_chunkSize s + q mod ns_chunkSize s < length (ns_pages s) * ns_chunkSize s"
    using k r by (metis add_less_cancel_left less_le_trans mult_Suc_right mult_le_mono1 Suc_leI
        mult.commute add.commute)
  moreover have "pages_bytes s ! (k * ns_chunkSize s + q mod ns_chunkSize s) = ns_page s k ! (q mod ns_chunkSize s)"
    unfolding pages_bytes_def using nth_concat_blocks [of 0 "length (ns_pages s)" "ns_page s" "ns_chunkSize s" k]
      ns_pages_okD(3) [OF assms] k r by simp
  ultimately show ?thesis
    using Some by (simp add: origin_of_def layoutOf_def ns_byte_def byte_or_0_def Let_def)
qed

section \<open>Every store writes that content\<close>

lemma place_pages_ok:
  assumes "0 < cs" and "distinct ps" and "\<And>j. j < length ps \<Longrightarrow> length (page (i + j)) = cs \<and> ps ! j * cs < n"
    and "length data = n"
  shows "\<exists>out. place_pages page cs n i ps data = Inr out \<and> length out = n \<and>
    (\<forall>q < n. (\<forall>j < length ps. ps ! j = q div cs \<longrightarrow> out ! q = page (i + j) ! (q mod cs)) \<and>
       (q div cs \<notin> set ps \<longrightarrow> out ! q = data ! q))"
  using assms(2-4)
proof (induction ps arbitrary: i data)
  case Nil
  then show ?case by simp
next
  case (Cons x ps)
  have x: "length (page i) = cs" "x * cs < n" using Cons.prems(2) [of 0] by auto
  define d where "d = take (n - x * cs) (page i)"
  have d: "subarray_to (page i) (int n - int (x * cs)) = d"
    unfolding d_def using x by (intro subarray_to_diff) simp
  have fits: "x * cs + length d \<le> length data" using x Cons.prems(3) by (simp add: d_def)
  define data1 where "data1 = overwrite data d (x * cs)"
  have len1: "length data1 = n" using fits Cons.prems(3) by (simp add: data1_def)
  have nth1: "data1 ! q = (if q div cs = x then page i ! (q mod cs) else data ! q)" if "q < n" for q
  proof -
    have "q div cs = x \<longleftrightarrow> x * cs \<le> q \<and> q < x * cs + length d"
      using div_eq_block [OF assms(1), of q x] x that by (auto simp: d_def)
    moreover have "d ! (q - x * cs) = page i ! (q mod cs)" if "q div cs = x" "q < n"
    proof -
      have "x * cs \<le> q" using that(1) by auto
      then have "q - x * cs < n - x * cs" using that(2) by (intro diff_less_mono)
      moreover have "q - x * cs = q mod cs" using that(1) by (auto simp: modulo_nat_def)
      ultimately show ?thesis by (simp add: d_def)
    qed
    ultimately show ?thesis
      using that fits Cons.prems(3) by (simp add: data1_def nth_overwrite)
  qed
  have "\<exists>out. place_pages page cs n (Suc i) ps data1 = Inr out \<and> length out = n \<and>
      (\<forall>q < n. (\<forall>j < length ps. ps ! j = q div cs \<longrightarrow> out ! q = page (Suc i + j) ! (q mod cs)) \<and>
         (q div cs \<notin> set ps \<longrightarrow> out ! q = data1 ! q))"
    using Cons.prems(1) Cons.prems(2) [of "Suc _"] len1 by (intro Cons.IH) fastforce+
  then obtain out where out: "place_pages page cs n (Suc i) ps data1 = Inr out" "length out = n"
    and nth: "\<And>q j. q < n \<Longrightarrow> j < length ps \<Longrightarrow> ps ! j = q div cs \<Longrightarrow> out ! q = page (Suc i + j) ! (q mod cs)"
      "\<And>q. q < n \<Longrightarrow> q div cs \<notin> set ps \<Longrightarrow> out ! q = data1 ! q"
    by blast
  have "place_pages page cs n i (x # ps) data = Inr out"
    using out(1) d fits by (simp add: Let_def data1_def)
  moreover have "out ! q = page (i + j) ! (q mod cs)"
    if "q < n" "j < length (x # ps)" "(x # ps) ! j = q div cs" for q j
  proof (cases j)
    case 0
    then have "q div cs \<notin> set ps" using that(3) Cons.prems(1) by simp
    then show ?thesis using nth(2) [OF that(1)] nth1 [OF that(1)] 0 that(3) by simp
  next
    case (Suc j')
    then show ?thesis using nth(1) [OF that(1), of j'] that(2,3) by simp
  qed
  moreover have "out ! q = data ! q" if "q < n" "q div cs \<notin> set (x # ps)" for q
    using nth(2) [OF that(1)] nth1 [OF that(1)] that(2) by simp
  ultimately show ?case using out(2) by blast
qed

lemma memory_full:
  assumes "ns_pages_ok s" and "ns_base_ok s b" and "ns_delta s = None"
  shows "memory_data s = Inr (new_bytes s b)"
proof -
  let ?keep = "min (ns_visible s) (ns_size s)"
  define data where "data = overwrite (zeros (ns_size s)) (subarray b 0 ?keep) 0"
  have vis: "ns_visible s \<le> length b" using assms(2) by (simp add: ns_base_ok_def)
  have keep: "length (subarray b 0 ?keep) = ?keep" using vis by simp
  have len: "length data = ns_size s" by (simp add: data_def keep)
  have nth: "data ! q = (if q < ns_visible s then byte_or_0 b q else 0)" if "q < ns_size s" for q
    using that keep assms(2)
    by (auto simp: data_def nth_overwrite nth_subarray byte_or_0_def ns_base_ok_def)
  have base: "and_then (ns_base s) (\<lambda>b. case b of
      Some src \<Rightarrow> if 0 < ?keep then u8_set (zeros (ns_size s)) (source_bytes (slice src 0 ?keep)) 0
                  else Inr (zeros (ns_size s))
    | None \<Rightarrow> Inr (zeros (ns_size s))) = Inr data"
    using assms(2) keep by (auto simp: ns_base_ok_def data_def)
  have "\<exists>out. place_pages (ns_page s) (ns_chunkSize s) (ns_size s) 0 (ns_pages s) data = Inr out
      \<and> length out = ns_size s \<and>
    (\<forall>q < ns_size s. (\<forall>j < length (ns_pages s). ns_pages s ! j = q div ns_chunkSize s \<longrightarrow>
          out ! q = ns_page s (0 + j) ! (q mod ns_chunkSize s)) \<and>
       (q div ns_chunkSize s \<notin> set (ns_pages s) \<longrightarrow> out ! q = data ! q))"
    using ns_pages_okD [OF assms(1)] len by (intro place_pages_ok) auto
  then obtain out where out: "place_pages (ns_page s) (ns_chunkSize s) (ns_size s) 0 (ns_pages s) data = Inr out"
    "length out = ns_size s"
    and page: "\<And>q j. q < ns_size s \<Longrightarrow> j < length (ns_pages s) \<Longrightarrow> ns_pages s ! j = q div ns_chunkSize s \<Longrightarrow>
        out ! q = ns_page s j ! (q mod ns_chunkSize s)"
    and old: "\<And>q. q < ns_size s \<Longrightarrow> q div ns_chunkSize s \<notin> set (ns_pages s) \<Longrightarrow> out ! q = data ! q"
    by auto
  have "out = new_bytes s b"
  proof (rule nth_equalityI)
    fix q assume "q < length out"
    then have q: "q < ns_size s" using out(2) by simp
    show "out ! q = new_bytes s b ! q"
    proof (cases "q div ns_chunkSize s \<in> set (ns_pages s)")
      case True
      then obtain j where "j < length (ns_pages s)" "ns_pages s ! j = q div ns_chunkSize s"
        by (auto simp: in_set_conv_nth)
      then show ?thesis using page [OF q] ns_byte_page [OF assms(1)] q by (simp add: new_bytes_def)
    next
      case False
      then show ?thesis using old [OF q] nth [OF q] q by (simp add: new_bytes_def ns_byte_old)
    qed
  qed (simp add: out(2) new_bytes_def)
  then show ?thesis
    using out(1) by (simp only: memory_data_def assms(3) Let_def option.case base and_then_simps)
qed

lemma memory_delta:
  assumes "ns_pages_ok s" and "ns_delta s = Some nd"
  shows "memory_data s = Inr (pages_bytes s)"
proof -
  have "length (concat (map (ns_page s) [0..<length (ns_pages s)])) = length (ns_pages s) * ns_chunkSize s"
    using length_concat_blocks [of 0 "length (ns_pages s)" "ns_page s" "ns_chunkSize s"]
      ns_pages_okD(3) [OF assms(1)] by simp
  moreover have "set_pages (ns_page s) (ns_chunkSize s) 0 [0..<length (ns_pages s)]
        (zeros (length (ns_pages s) * ns_chunkSize s)) =
      Inr (overwrite (zeros (length (ns_pages s) * ns_chunkSize s))
             (concat (map (ns_page s) [0..<length (ns_pages s)])) ((0 - 0) * ns_chunkSize s))"
    using ns_pages_okD(3) [OF assms(1)] by (intro set_pages_ok) auto
  ultimately show ?thesis
    by (simp add: memory_data_def assms(2) pages_bytes_def overwrite_whole)
qed


section \<open>The directory store\<close>

lemma byte_or_0_write:
  "byte_or_0 (writer_write file d pos) q =
     (if pos \<le> q \<and> q < pos + length d then d ! (q - pos) else byte_or_0 file q)"
  by (auto simp: writer_write_def Let_def byte_or_0_def nth_overwrite nth_append)

lemma byte_or_0_truncate:
  "q < n \<Longrightarrow> writer_truncate file n ! q = byte_or_0 file q"
  by (auto simp: writer_truncate_def byte_or_0_def nth_append min_def)

lemma length_truncate [simp]: "length (writer_truncate file n) = n"
  by (simp add: writer_truncate_def)

lemma writer_write_end: "writer_write file d (length file) = file @ d"
  by (simp add: writer_write_def overwrite_def)

lemma baseRange_ok:
  assumes "ns_base_ok s b" and "i \<le> e" and "e \<le> ns_visible s" and "i < e"
  shows "\<exists>src. baseRange s i e = Inr src \<and> source_bytes src = subarray b i e"
proof (cases "ns_baseRange s")
  case (Some f)
  then show ?thesis using assms by (simp add: baseRange_def ns_base_ok_def)
next
  case None
  then show ?thesis using assms by (auto simp: baseRange_def ns_base_ok_def)
qed

lemma keep_to_ok:
  assumes "ns_base_ok s b"
  shows "\<exists>file'. keep_to s stop (pos, file) = Inr (max pos stop, file') \<and>
    (\<forall>q. byte_or_0 file' q =
       (if pos \<le> q \<and> q < min stop (min (ns_visible s) (ns_size s)) then byte_or_0 b q else byte_or_0 file q))"
proof (cases "pos < min (min stop (ns_visible s)) (ns_size s)")
  case True
  let ?to = "min (min stop (ns_visible s)) (ns_size s)"
  obtain src where src: "baseRange s pos ?to = Inr src" "source_bytes src = subarray b pos ?to"
    using baseRange_ok [OF assms, of pos ?to] True by (auto simp: min_le_iff_disj)
  have "?to \<le> length b" using assms by (simp add: ns_base_ok_def min_le_iff_disj)
  then have "byte_or_0 (writer_write file (subarray b pos ?to) pos) q =
      (if pos \<le> q \<and> q < ?to then byte_or_0 b q else byte_or_0 file q)" for q
    using True unfolding byte_or_0_write by (auto simp: nth_subarray byte_or_0_def)
  then show ?thesis using True src by (simp add: keep_to_def Let_def min.assoc)
next
  case False
  then show ?thesis by (auto simp: keep_to_def Let_def)
qed

lemma keep_pages_ok:
  assumes "ns_base_ok s b" and "0 < ns_chunkSize s" and "set ps \<subseteq> A" and "sorted_wrt (<) ps"
    and "\<forall>i \<in> set ps. pos \<le> i * ns_chunkSize s"
    and "\<forall>q. q div ns_chunkSize s \<notin> A \<longrightarrow>
      byte_or_0 fl q = (if q < min pos (min (ns_visible s) (ns_size s)) then byte_or_0 b q else 0)"
  shows "\<exists>pos' file'. keep_pages s ps (pos, fl) = Inr (pos', file') \<and>
    (\<forall>q. q div ns_chunkSize s \<notin> A \<longrightarrow>
      byte_or_0 file' q = (if q < min pos' (min (ns_visible s) (ns_size s)) then byte_or_0 b q else 0))"
  using assms(3-6)
proof (induction ps arbitrary: pos fl)
  case Nil
  then show ?case by simp
next
  case (Cons i ps)
  let ?cs = "ns_chunkSize s"
  let ?m = "min (ns_visible s) (ns_size s)"
  obtain file1 where k: "keep_to s (i * ?cs) (pos, fl) = Inr (max pos (i * ?cs), file1)"
    and b1: "\<And>q. byte_or_0 file1 q = (if pos \<le> q \<and> q < min (i * ?cs) ?m then byte_or_0 b q else byte_or_0 fl q)"
    using keep_to_ok [OF assms(1)] by blast
  have "byte_or_0 file1 q = (if q < min ((i + 1) * ?cs) ?m then byte_or_0 b q else 0)"
    if q: "q div ?cs \<notin> A" for q
  proof -
    have "q div ?cs \<noteq> i" using q Cons.prems(1) by auto
    then have "q < (i + 1) * ?cs \<longleftrightarrow> q < i * ?cs"
      using div_eq_block [OF assms(2), of q i] by auto
    moreover have "pos \<le> i * ?cs" using Cons.prems(3) by simp
    ultimately show ?thesis using b1 [of q] Cons.prems(4) q by auto
  qed
  moreover have "(i + 1) * ?cs \<le> j * ?cs" if "j \<in> set ps" for j
    using Cons.prems(2) that by (intro mult_le_mono1) (auto simp: Suc_le_eq)
  ultimately have "\<exists>pos' file'. keep_pages s ps ((i + 1) * ?cs, file1) = Inr (pos', file') \<and>
      (\<forall>q. q div ?cs \<notin> A \<longrightarrow> byte_or_0 file' q = (if q < min pos' ?m then byte_or_0 b q else 0))"
    using Cons.prems(1,2) by (intro Cons.IH) auto
  then show ?case using k by simp
qed

text \<open>Runs of pages written at their places in the database.\<close>

lemma run_write:
  assumes "ns_pages_ok s" and "i < e" and "e \<le> length (ns_pages s)"
    and "\<And>k. i \<le> k \<Longrightarrow> k < e \<Longrightarrow> ns_pages s ! k = ns_pages s ! i + (k - i)"
    and "file' = writer_write file (concat (map (ns_page s) [i..<e])) (ns_pages s ! i * ns_chunkSize s)"
  shows "i \<le> k \<Longrightarrow> k < e \<Longrightarrow> ns_pages s ! k = q div ns_chunkSize s \<Longrightarrow>
      byte_or_0 file' q = ns_page s k ! (q mod ns_chunkSize s)"
    and "\<forall>k. i \<le> k \<and> k < e \<longrightarrow> ns_pages s ! k \<noteq> q div ns_chunkSize s \<Longrightarrow> byte_or_0 file' q = byte_or_0 file q"
proof -
  let ?cs = "ns_chunkSize s" and ?c = "q div ns_chunkSize s" and ?x = "ns_pages s ! i"
  have cs: "0 < ?cs" using ns_pages_okD(1) [OF assms(1)] .
  have len: "length (concat (map (ns_page s) [i..<e])) = (e - i) * ?cs"
    using ns_pages_okD(3) [OF assms(1)] assms(3) by (intro length_concat_blocks) simp
  have inside: "?x * ?cs \<le> q \<and> q < ?x * ?cs + (e - i) * ?cs \<longleftrightarrow> ?x \<le> ?c \<and> ?c < ?x + (e - i)"
    using cs by (simp add: less_eq_div_iff_mult_less_eq div_less_iff_less_mult flip: add_mult_distrib)
  {
    assume k: "i \<le> k" "k < e" "ns_pages s ! k = ?c"
    then have c: "?c = ?x + (k - i)" using assms(4) [OF k(1,2)] by simp
    have "q - ?x * ?cs = (k - i) * ?cs + q mod ?cs"
    proof -
      have "q = (?x + (k - i)) * ?cs + q mod ?cs"
        using c by (metis div_mult_mod_eq)
      then show ?thesis by (simp add: add_mult_distrib)
    qed
    then have "concat (map (ns_page s) [i..<e]) ! (q - ?x * ?cs) = ns_page s k ! (q mod ?cs)"
      using nth_concat_blocks [of i e "ns_page s" ?cs k "q mod ?cs"] ns_pages_okD(3) [OF assms(1)] assms(3) k cs
      by simp
    moreover have "?x \<le> ?c \<and> ?c < ?x + (e - i)" using c k(1,2) by linarith
    ultimately show "byte_or_0 file' q = ns_page s k ! (q mod ?cs)"
      unfolding assms(5) byte_or_0_write len inside by (simp only: if_True simp_thms)
  next
    assume no: "\<forall>k. i \<le> k \<and> k < e \<longrightarrow> ns_pages s ! k \<noteq> ?c"
    have "\<not> (?x \<le> ?c \<and> ?c < ?x + (e - i))"
    proof
      assume "?x \<le> ?c \<and> ?c < ?x + (e - i)"
      then have "i \<le> i + (?c - ?x)" "i + (?c - ?x) < e" using assms(2) by auto
      with no assms(4) [of "i + (?c - ?x)"] \<open>?x \<le> ?c \<and> ?c < ?x + (e - i)\<close> show False by auto
    qed
    then show "byte_or_0 file' q = byte_or_0 file q"
      unfolding assms(5) byte_or_0_write len inside by (simp only: if_False)
  }
qed


lemma writeRuns_ok:
  assumes "ns_pages_ok s"
    and "\<And>i e k. (i, e) \<in> set rs \<Longrightarrow> i \<le> k \<Longrightarrow> k < e \<Longrightarrow> ns_pages s ! k = ns_pages s ! i + (k - i)"
    and "run_chain p rs (length (ns_pages s))"
  shows "\<exists>out. writeRuns s (\<lambda>i. ns_pages s ! i * ns_chunkSize s) rs fl = Inr out \<and>
    (\<forall>q. (\<forall>k. p \<le> k \<and> k < length (ns_pages s) \<and> ns_pages s ! k = q div ns_chunkSize s \<longrightarrow>
            byte_or_0 out q = ns_page s k ! (q mod ns_chunkSize s))
       \<and> ((\<forall>k. p \<le> k \<and> k < length (ns_pages s) \<longrightarrow> ns_pages s ! k \<noteq> q div ns_chunkSize s) \<longrightarrow>
            byte_or_0 out q = byte_or_0 fl q))"
  using assms(2,3)
proof (induction rs arbitrary: p fl)
  case Nil
  then show ?case by auto
next
  case (Cons r rs)
  let ?cs = "ns_chunkSize s" and ?n = "length (ns_pages s)"
  obtain i e where r: "r = (i, e)" by (cases r)
  have ch: "i = p" "p < e" "run_chain e rs ?n" "e \<le> ?n"
    using Cons.prems(2) run_chain_le [of e rs ?n] by (auto simp: r)
  define fl1 where "fl1 = writer_write fl (concat (map (ns_page s) [i..<e])) (ns_pages s ! i * ?cs)"
  have run: "pageRun s i e = Inr (concat (map (ns_page s) [i..<e]))"
    using ch ns_pages_okD(3) [OF assms(1)] by (intro pageRun_ok) auto
  have cons: "ns_pages s ! k = ns_pages s ! i + (k - i)" if "i \<le> k" "k < e" for k
    using Cons.prems(1) [of i e k] that by (simp add: r)
  note wr = run_write [OF assms(1) _ ch(4) cons fl1_def]
  obtain out where out: "writeRuns s (\<lambda>i. ns_pages s ! i * ?cs) rs fl1 = Inr out"
    and page: "\<And>q k. e \<le> k \<Longrightarrow> k < ?n \<Longrightarrow> ns_pages s ! k = q div ?cs \<Longrightarrow> byte_or_0 out q = ns_page s k ! (q mod ?cs)"
    and old: "\<And>q. \<forall>k. e \<le> k \<and> k < ?n \<longrightarrow> ns_pages s ! k \<noteq> q div ?cs \<Longrightarrow> byte_or_0 out q = byte_or_0 fl1 q"
    using Cons.IH [of e fl1] Cons.prems(1) ch(3) by (metis (no_types, lifting) list.set_intros(2))
  have "byte_or_0 out q = ns_page s k ! (q mod ?cs)"
    if k: "p \<le> k" "k < ?n" "ns_pages s ! k = q div ?cs" for q k
  proof (cases "e \<le> k")
    case True
    then show ?thesis using page k by blast
  next
    case False
    have "ns_pages s ! j \<noteq> q div ?cs" if "e \<le> j" "j < ?n" for j
      using ns_pages_okD(5) [OF assms(1), of k j] False k that by simp
    then have "byte_or_0 out q = byte_or_0 fl1 q" using old by blast
    with wr(1) [of k q] k False ch show ?thesis by simp
  qed
  moreover have "byte_or_0 out q = byte_or_0 fl q"
    if no: "\<forall>k. p \<le> k \<and> k < ?n \<longrightarrow> ns_pages s ! k \<noteq> q div ?cs" for q
  proof -
    have "byte_or_0 out q = byte_or_0 fl1 q" using old no ch by auto
    moreover have "byte_or_0 fl1 q = byte_or_0 fl q" using wr(2) [of q] no ch by auto
    ultimately show ?thesis by simp
  qed
  ultimately show ?case using out run by (auto simp: r fl1_def)
qed

lemma directory_full:
  assumes "ns_pages_ok s" and "ns_base_ok s b" and "ns_delta s = None"
  shows "directory_file s = Inr (new_bytes s b)"
proof -
  let ?cs = "ns_chunkSize s" and ?n = "ns_size s"
  let ?m = "min (ns_visible s) ?n"
  have cs: "0 < ?cs" and sorted: "sorted_wrt (<) (ns_pages s)"
    using assms(1) by (simp_all add: ns_pages_ok_def)
  obtain pos fl where keep: "keep_pages s (ns_pages s) (0, []) = Inr (pos, fl)"
    and fl: "\<And>q. q div ?cs \<notin> set (ns_pages s) \<Longrightarrow> byte_or_0 fl q = (if q < min pos ?m then byte_or_0 b q else 0)"
    using keep_pages_ok [OF assms(2) cs order_refl sorted, of 0 "[]"] by (auto simp: byte_or_0_def)
  obtain fl1 where keep1: "keep_to s ?n (pos, fl) = Inr (max pos ?n, fl1)"
    and fl1: "\<And>q. byte_or_0 fl1 q = (if pos \<le> q \<and> q < min ?n ?m then byte_or_0 b q else byte_or_0 fl q)"
    using keep_to_ok [OF assms(2)] by blast
  have "\<exists>out. writeRuns s (\<lambda>i. ns_pages s ! i * ?cs) (pageRuns (ns_pages s) ?cs True) fl1 = Inr out \<and>
    (\<forall>q. (\<forall>k. 0 \<le> k \<and> k < length (ns_pages s) \<and> ns_pages s ! k = q div ?cs \<longrightarrow>
            byte_or_0 out q = ns_page s k ! (q mod ?cs))
       \<and> ((\<forall>k. 0 \<le> k \<and> k < length (ns_pages s) \<longrightarrow> ns_pages s ! k \<noteq> q div ?cs) \<longrightarrow>
            byte_or_0 out q = byte_or_0 fl1 q))"
    by (rule writeRuns_ok [OF assms(1) _ pageRuns_chain]) (rule pageRuns_mem(4), simp_all)
  then obtain out where out: "writePages s (\<lambda>i. ns_pages s ! i * ?cs) fl1 = Inr out"
    and page: "\<And>q k. k < length (ns_pages s) \<Longrightarrow> ns_pages s ! k = q div ?cs \<Longrightarrow> byte_or_0 out q = ns_page s k ! (q mod ?cs)"
    and old: "\<And>q. \<forall>k < length (ns_pages s). ns_pages s ! k \<noteq> q div ?cs \<Longrightarrow> byte_or_0 out q = byte_or_0 fl1 q"
    by (auto simp: writePages_def assms(3))
  have "writer_truncate out ?n = new_bytes s b"
  proof (rule nth_equalityI)
    fix q assume "q < length (writer_truncate out ?n)"
    then have q: "q < ?n" by simp
    have "byte_or_0 out q = ns_byte s b q"
    proof (cases "q div ?cs \<in> set (ns_pages s)")
      case True
      then obtain k where "k < length (ns_pages s)" "ns_pages s ! k = q div ?cs"
        by (auto simp: in_set_conv_nth)
      then show ?thesis using page ns_byte_page [OF assms(1)] by simp
    next
      case False
      then have "\<forall>k < length (ns_pages s). ns_pages s ! k \<noteq> q div ?cs" by (metis nth_mem)
      then have "byte_or_0 out q = byte_or_0 fl1 q" by (rule old)
      then show ?thesis using fl [OF False] fl1 [of q] ns_byte_old [OF False] q by auto
    qed
    then show "writer_truncate out ?n ! q = new_bytes s b ! q"
      using q by (simp add: byte_or_0_truncate new_bytes_def)
  qed (simp add: new_bytes_def)
  then show ?thesis
    using keep keep1 out by (simp add: directory_file_def assms(3))
qed

text \<open>The pages of a delta, each run at the end of the file.\<close>

lemma writeRuns_append:
  assumes "run_chain p rs n" and "\<And>k. k < n \<Longrightarrow> length (ns_page s k) = ns_chunkSize s"
    and "length fl = ofs + p * ns_chunkSize s"
  shows "writeRuns s (\<lambda>i. ofs + i * ns_chunkSize s) rs fl = Inr (fl @ concat (map (ns_page s) [p..<n]))"
  using assms(1,3)
proof (induction rs arbitrary: p fl)
  case Nil
  then show ?case by simp
next
  case (Cons r rs)
  have ch: "fst r = p" "p < snd r" "run_chain (snd r) rs n" "snd r \<le> n"
    using Cons.prems(1) run_chain_le [of "snd r" rs n] by auto
  define d where "d = concat (map (ns_page s) [p..<snd r])"
  have run: "pageRun s (fst r) (snd r) = Inr d"
    unfolding d_def ch(1) using ch assms(2) by (intro pageRun_ok) auto
  have "length d = (snd r - p) * ns_chunkSize s"
    unfolding d_def using assms(2) ch by (intro length_concat_blocks) simp
  moreover have "p * ns_chunkSize s + (snd r - p) * ns_chunkSize s = snd r * ns_chunkSize s"
    using ch(2) by (simp flip: add_mult_distrib)
  ultimately have "length (fl @ d) = ofs + snd r * ns_chunkSize s"
    using Cons.prems(2) by simp
  note IH = Cons.IH [OF ch(3) this]
  have "[p..<n] = [p..<snd r] @ [snd r..<n]"
    using ch by (intro upt_split) auto
  moreover have "writer_write fl d (ofs + fst r * ns_chunkSize s) = fl @ d"
    using writer_write_end [of fl d] Cons.prems(2) ch(1) by simp
  ultimately show ?case using IH run by (simp add: d_def)
qed

lemma directory_delta:
  assumes "ns_pages_ok s" and "ns_delta s = Some nd"
  shows "directory_file s = Inr (DELTA_MARKER @ pages_bytes s)"
proof -
  let ?rs = "pageRuns (ns_pages s) (ns_chunkSize s) False"
  have "writeRuns s (\<lambda>i. length DELTA_MARKER + i * ns_chunkSize s) ?rs DELTA_MARKER =
      Inr (DELTA_MARKER @ concat (map (ns_page s) [0..<length (ns_pages s)]))"
    by (rule writeRuns_append [OF pageRuns_chain ns_pages_okD(3) [OF assms(1)]]) simp_all
  moreover have "writer_write [] DELTA_MARKER 0 = DELTA_MARKER"
    using writer_write_end [of "[]" DELTA_MARKER] by simp
  ultimately show ?thesis
    by (simp add: directory_file_def assms(2) writePages_def pages_bytes_def)
qed

section \<open>The IndexedDB store\<close>

text \<open>What comes before the next page: the old content, then zeros.\<close>

lemma fill_to_ok:
  assumes "ns_base_ok s b" and "pos \<le> stop"
    and "\<And>q. pos \<le> q \<Longrightarrow> q < stop \<Longrightarrow> q div ns_chunkSize s \<notin> set (ns_pages s)"
  shows "fill_to s stop (pos, parts) = Inr (stop, parts @ map (ns_byte s b) [pos..<stop])"
proof -
  let ?keep = "min stop (ns_visible s)" and ?mid = "max pos (min stop (ns_visible s))"
  have vis: "ns_visible s \<le> length b" using assms(1) by (simp add: ns_base_ok_def)
  have old: "ns_byte s b q = (if q < ns_visible s then byte_or_0 b q else 0)" if "pos \<le> q" "q < stop" for q
    using assms(3) [OF that] by (rule ns_byte_old)
  have kept: "subarray b pos ?keep = map (ns_byte s b) [pos..<?keep]"
    using vis old by (simp add: subarray_byte_or_0 min_le_iff_disj)
  have zero: "zeros (stop - ?mid) = map (ns_byte s b) [?mid..<stop]"
    using old by (intro nth_equalityI) auto
  have split: "[pos..<stop] = [pos..<?mid] @ [?mid..<stop]"
    using assms(2) by (intro upt_split) auto
  show ?thesis
  proof (cases "pos < ?keep")
    case True
    then have mid: "?mid = ?keep" by simp
    have "(case ns_baseRange s of
              Some f \<Rightarrow> and_then (f pos ?keep) (\<lambda>src. Inr (parts @ source_bytes src))
            | None \<Rightarrow> and_then (ns_base s) (\<lambda>b. case b of
                Some src \<Rightarrow> Inr (parts @ source_bytes (slice src pos ?keep)) | None \<Rightarrow> Inr parts))
        = Inr (parts @ subarray b pos ?keep)"
    proof (cases "ns_baseRange s")
      case None
      then show ?thesis using assms(1) True by (auto simp: ns_base_ok_def)
    next
      case (Some f)
      then have "\<exists>src. f pos ?keep = Inr src \<and> source_bytes src = subarray b pos ?keep"
        using assms(1) True by (auto simp: ns_base_ok_def)
      then show ?thesis using Some by auto
    qed
    then show ?thesis
      using True zero kept split by (simp only: fill_to_def prod.case Let_def if_True and_then_simps mid map_append append_assoc)
  next
    case False
    then have "?keep \<le> pos" by (simp only: not_less)
    then have "?mid = pos" by (rule max_absorb1)
    then show ?thesis
      using False zero by (simp only: fill_to_def prod.case Let_def if_False and_then_simps)
  qed
qed

text \<open>The bytes of a run of pages, as far as they are in the database.\<close>

lemma run_bytes:
  assumes "ns_pages_ok s" and "i < e" and "e \<le> length (ns_pages s)"
    and "\<And>k. i \<le> k \<Longrightarrow> k < e \<Longrightarrow> ns_pages s ! k = ns_pages s ! i + (k - i)"
    and "len \<le> (e - i) * ns_chunkSize s" and "start = ns_pages s ! i * ns_chunkSize s"
  shows "take len (concat (map (ns_page s) [i..<e])) = map (ns_byte s b) [start..<start + len]"
proof (rule nth_equalityI)
  let ?cs = "ns_chunkSize s"
  have cs: "0 < ?cs" using ns_pages_okD(1) [OF assms(1)] .
  have L: "length (concat (map (ns_page s) [i..<e])) = (e - i) * ?cs"
    using ns_pages_okD(3) [OF assms(1)] assms(3) by (intro length_concat_blocks) simp
  then show "length (take len (concat (map (ns_page s) [i..<e]))) = length (map (ns_byte s b) [start..<start + len])"
    unfolding length_take using assms(5) by simp
  fix q assume "q < length (take len (concat (map (ns_page s) [i..<e])))"
  then have q: "q < len" unfolding length_take L using assms(5) by simp
  then have "q < (e - i) * ?cs" using assms(5) by simp
  then have c: "q div ?cs < e - i" using cs by (simp add: div_less_iff_less_mult)
  define k where "k = i + q div ?cs"
  have k: "i \<le> k" "k < e" using c by (simp_all add: k_def)
  have "(start + q) div ?cs = ns_pages s ! k"
    using assms(4) [OF k] cs by (simp add: assms(6) k_def)
  then have "ns_byte s b (start + q) = ns_page s k ! (q mod ?cs)"
    using ns_byte_page [OF assms(1), of k "start + q"] k assms(3) by (simp add: assms(6))
  moreover have "concat (map (ns_page s) [i..<e]) ! ((k - i) * ?cs + q mod ?cs) = ns_page s k ! (q mod ?cs)"
    using k cs ns_pages_okD(3) [OF assms(1)] assms(3) by (intro nth_concat_blocks) auto
  ultimately show "take len (concat (map (ns_page s) [i..<e])) ! q = map (ns_byte s b) [start..<start + len] ! q"
    using q by (simp add: k_def)
qed

text \<open>Where the content has got to once the pages before the \<open>p\<close>-th are in.\<close>

definition pages_end :: "new_snapshot \<Rightarrow> nat \<Rightarrow> nat" where
  "pages_end s p = (if p = 0 then 0 else min ((ns_pages s ! (p - 1) + 1) * ns_chunkSize s) (ns_size s))"

lemma pages_end_gap:
  assumes "ns_pages_ok s" and "p \<le> length (ns_pages s)" and "pages_end s p \<le> q" and "q < ns_size s"
    and "p < length (ns_pages s) \<Longrightarrow> q < ns_pages s ! p * ns_chunkSize s"
  shows "q div ns_chunkSize s \<notin> set (ns_pages s)"
proof (rule pages_gap [OF assms(1,2)])
  have cs: "0 < ns_chunkSize s" using ns_pages_okD(1) [OF assms(1)] .
  assume "p \<noteq> 0"
  then have "(ns_pages s ! (p - 1) + 1) * ns_chunkSize s \<le> q"
    using assms(3,4) by (auto simp: pages_end_def min_def split: if_splits)
  then have "ns_pages s ! (p - 1) + 1 \<le> q div ns_chunkSize s"
    using cs by (simp add: less_eq_div_iff_mult_less_eq)
  then show "ns_pages s ! (p - 1) < q div ns_chunkSize s" by simp
next
  assume "p < length (ns_pages s)"
  then show "q div ns_chunkSize s < ns_pages s ! p"
    using assms(5) ns_pages_okD(1) [OF assms(1)] by (simp add: div_less_iff_less_mult)
qed

lemma pages_end_le:
  assumes "ns_pages_ok s" and "p < length (ns_pages s)"
  shows "pages_end s p \<le> ns_pages s ! p * ns_chunkSize s"
proof (cases "p = 0")
  case False
  then have "ns_pages s ! (p - 1) + 1 \<le> ns_pages s ! p"
    using ns_pages_okD(5) [OF assms(1), of "p - 1" p] assms(2) by simp
  then have "(ns_pages s ! (p - 1) + 1) * ns_chunkSize s \<le> ns_pages s ! p * ns_chunkSize s"
    by (rule mult_le_mono1)
  then show ?thesis by (simp add: pages_end_def min_le_iff_disj)
qed (simp add: pages_end_def)

lemma compose_runs_ok:
  assumes "ns_pages_ok s" and "ns_base_ok s b"
    and "\<And>i e k. (i, e) \<in> set rs \<Longrightarrow> i \<le> k \<Longrightarrow> k < e \<Longrightarrow> ns_pages s ! k = ns_pages s ! i + (k - i)"
    and "run_chain p rs (length (ns_pages s))"
  shows "compose_runs s rs (pages_end s p, map (ns_byte s b) [0..<pages_end s p]) =
    Inr (pages_end s (length (ns_pages s)), map (ns_byte s b) [0..<pages_end s (length (ns_pages s))])"
  using assms(3,4)
proof (induction rs arbitrary: p)
  case Nil
  then show ?case by simp
next
  case (Cons r rs)
  let ?cs = "ns_chunkSize s" and ?n = "length (ns_pages s)"
  obtain i e where r: "r = (i, e)" by (cases r)
  have ch: "i = p" "p < e" "run_chain e rs ?n" "e \<le> ?n"
    using Cons.prems(2) run_chain_le [of e rs ?n] by (auto simp: r)
  have cons: "ns_pages s ! k = ns_pages s ! p + (k - p)" if "p \<le> k" "k < e" for k
    using Cons.prems(1) [of i e k] that ch(1) by (simp add: r)
  define start where "start = ns_pages s ! p * ?cs"
  define len where "len = min ((e - p) * ?cs) (ns_size s - start)"
  have start: "start < ns_size s" "pages_end s p \<le> start"
    using ns_pages_okD(4) [OF assms(1), of p] pages_end_le [OF assms(1), of p] ch by (simp_all add: start_def)
  have fill: "fill_to s start (pages_end s p, map (ns_byte s b) [0..<pages_end s p]) =
      Inr (start, map (ns_byte s b) [0..<start])"
  proof -
    have "q div ?cs \<notin> set (ns_pages s)" if "pages_end s p \<le> q" "q < start" for q
      using pages_end_gap [OF assms(1) _ that(1)] that(2) start(1) ch by (simp add: start_def)
    then have "fill_to s start (pages_end s p, map (ns_byte s b) [0..<pages_end s p]) =
        Inr (start, map (ns_byte s b) [0..<pages_end s p] @ map (ns_byte s b) [pages_end s p..<start])"
      using fill_to_ok [OF assms(2) start(2)] by blast
    then show ?thesis
      using upt_split [of 0 "pages_end s p" start] start(2) by (simp flip: map_append)
  qed
  have run: "pageRun s p e = Inr (concat (map (ns_page s) [p..<e]))"
    using ch ns_pages_okD(3) [OF assms(1)] by (intro pageRun_ok) auto
  have bytes: "take len (concat (map (ns_page s) [p..<e])) = map (ns_byte s b) [start..<start + len]"
    by (rule run_bytes [OF assms(1) ch(2,4) cons _ start_def]) (simp_all add: len_def)
  have "start + len = pages_end s e"
  proof -
    have "ns_pages s ! p + (e - p) = ns_pages s ! (e - 1) + 1"
      using cons [of "e - 1"] ch(2) by simp
    then have "start + (e - p) * ?cs = (ns_pages s ! (e - 1) + 1) * ?cs"
      unfolding start_def by (metis add_mult_distrib)
    then show ?thesis using start(1) ch(2) by (auto simp: len_def pages_end_def min_def)
  qed
  moreover have "map (ns_byte s b) [0..<start] @ map (ns_byte s b) [start..<start + len] =
      map (ns_byte s b) [0..<start + len]"
    using upt_split [of 0 start "start + len"] by (simp flip: map_append)
  ultimately have "compose_runs s (r # rs) (pages_end s p, map (ns_byte s b) [0..<pages_end s p]) =
      compose_runs s rs (pages_end s e, map (ns_byte s b) [0..<pages_end s e])"
    using fill run bytes by (simp add: r ch(1) Let_def flip: start_def len_def)
  also have "\<dots> = Inr (pages_end s ?n, map (ns_byte s b) [0..<pages_end s ?n])"
    using Cons.prems(1) ch(3) by (intro Cons.IH) auto
  finally show ?case .
qed

lemma composeBlob_ok:
  assumes "ns_pages_ok s" and "ns_base_ok s b"
  shows "composeBlob s = Inr (Blob (new_bytes s b))"
proof -
  let ?p = "length (ns_pages s)" and ?n = "ns_size s"
  have "compose_runs s (pageRuns (ns_pages s) (ns_chunkSize s) True)
        (pages_end s 0, map (ns_byte s b) [0..<pages_end s 0]) =
      Inr (pages_end s ?p, map (ns_byte s b) [0..<pages_end s ?p])"
    by (rule compose_runs_ok [OF assms _ pageRuns_chain]) (rule pageRuns_mem(4), simp_all)
  moreover have "pages_end s ?p \<le> ?n" by (simp add: pages_end_def)
  moreover have "fill_to s ?n (pages_end s ?p, parts) = Inr (?n, parts @ map (ns_byte s b) [pages_end s ?p..<?n])" for parts
    using pages_end_gap [OF assms(1) order_refl]
    by (intro fill_to_ok [OF assms(2)]) (simp_all add: pages_end_def)
  ultimately show ?thesis
    using upt_split [of 0 "pages_end s ?p" ?n]
    by (simp add: composeBlob_def new_bytes_def pages_end_def [of s 0] flip: map_append)
qed

lemma idb_delta:
  assumes "ns_pages_ok s" and "ns_delta s = Some nd"
  shows "idb_blob s = Inr (Blob (pages_bytes s))"
proof -
  have "pageRun_all s rs = Inr (concat (map (ns_page s) [p..<length (ns_pages s)]))"
    if "run_chain p rs (length (ns_pages s))" for p rs
    using that
  proof (induction rs arbitrary: p)
    case (Cons r rs)
    let ?n = "length (ns_pages s)"
    have ch: "fst r = p" "p < snd r" "run_chain (snd r) rs ?n" "snd r \<le> ?n"
      using Cons.prems run_chain_le [of "snd r" rs ?n] by auto
    have "pageRun s (fst r) (snd r) = Inr (concat (map (ns_page s) [p..<snd r]))"
      unfolding ch(1) using ch ns_pages_okD(3) [OF assms(1)] by (intro pageRun_ok) auto
    moreover have "[p..<?n] = [p..<snd r] @ [snd r..<?n]"
      using ch by (intro upt_split) auto
    ultimately show ?case using Cons.IH [OF ch(3)] by simp
  qed simp
  from this [OF pageRuns_chain] show ?thesis
    by (simp add: idb_blob_def assms(2) pages_bytes_def)
qed

lemma stores_write_full:
  assumes "ns_pages_ok s" and "ns_base_ok s b" and "ns_delta s = None"
  shows "idb_blob s = Inr (Blob (new_bytes s b))"
  using composeBlob_ok [OF assms(1,2)] by (simp add: idb_blob_def assms(3))

section \<open>Properties\<close>

text \<open>
  C7. The three stores write the same content for a snapshot saved in full: the pages over what
  shows of the base, zeros where neither has a byte, cut off at the size of the database.
\<close>

theorem stores_write_new_content:
  assumes "ns_pages_ok s" and "ns_base_ok s b" and "ns_delta s = None"
  shows "memory_data s = Inr (new_bytes s b) \<and> directory_file s = Inr (new_bytes s b)
    \<and> idb_blob s = Inr (Blob (new_bytes s b))"
  using memory_full [OF assms] directory_full [OF assms] composeBlob_ok [OF assms(1,2)]
  by (simp add: idb_blob_def assms(3))

lemma ex_new_ok: "ns_pages_ok ex_new" "ns_base_ok ex_new [1, 2, 3, 4, 5]"
  by (auto simp: ns_pages_ok_def ns_base_ok_def ex_new_def less_Suc_eq eval_nat_numeral)

lemma ex_new_bytes: "new_bytes ex_new [1, 2, 3, 4, 5] = [1, 2, 0, 1, 10, 11, 0, 0, 20, 21, 0, 0]"
  by (simp add: new_bytes_def ns_byte_def ex_new_def slots_def byte_or_0_def upt_conv_Cons)

theorem stores_write_new_content_witness:
  "memory_data ex_new = Inr [1, 2, 0, 1, 10, 11, 0, 0, 20, 21, 0, 0]"
  using stores_write_new_content [OF ex_new_ok] ex_new_bytes by (simp add: ex_new_def)

text \<open>
  C8. Saving as a delta refines saving in full: whichever store writes the pages, the database the
  delta's layer holds over its parent is the content a full snapshot of the same changes holds over
  the parent's content.
\<close>

theorem delta_holds_new_content:
  assumes "ns_pages_ok s" and "ns_base_ok s (layer_bytes l)" and "ns_delta s = Some nd"
  shows "(\<exists>d. memory_data s = Inr d
        \<and> layer_bytes (Layer i (storedAs s t (Bytes d)) (Some l)) = new_bytes s (layer_bytes l))
    \<and> (\<exists>d. directory_file s = Inr (DELTA_MARKER @ d)
        \<and> layer_bytes (Layer i (storedAs s t (Blob d)) (Some l)) = new_bytes s (layer_bytes l))
    \<and> (\<exists>src. idb_blob s = Inr src
        \<and> layer_bytes (Layer i (storedAs s t src) (Some l)) = new_bytes s (layer_bytes l))"
proof -
  have "layer_bytes (Layer i (storedAs s t src) (Some l)) = new_bytes s (layer_bytes l)"
    if "source_bytes src = pages_bytes s" for src
    using origin_new [OF assms(1), of "layer_bytes l" nd] that
    by (simp add: storedAs_def assms(3) new_bytes_def)
  then show ?thesis
    using memory_delta [OF assms(1,3)] directory_delta [OF assms(1,3)] idb_delta [OF assms(1,3)]
    by auto
qed

definition ex_new_delta :: new_snapshot where
  "ex_new_delta = \<lparr>ns_key = ''c'', ns_branch = [], ns_meta = [], ns_base = Inr (Some (Blob [1, 2, 3, 4, 5, 6])),
     ns_baseRange = None, ns_visible = 5, ns_size = 8, ns_chunkSize = 2, ns_pages = [1, 3],
     ns_page = (\<lambda>k. if k = 0 then [7, 8] else [9, 9]),
     ns_delta = Some \<lparr>nd_parent = ''a'', nd_parentCreatedAt = 1, nd_depth = 1, nd_chainBytes = 4\<rparr>\<rparr>"

theorem delta_holds_new_content_witness:
  "\<exists>d. memory_data ex_new_delta = Inr d \<and>
     layer_bytes (Layer 1 (storedAs ex_new_delta 2 (Bytes d)) (Some ex_full)) = [1, 2, 7, 8, 5, 0, 9, 9]"
proof -
  have a: "ns_pages_ok ex_new_delta"
    by (simp add: ns_pages_ok_def ex_new_delta_def)
  have b: "ns_base_ok ex_new_delta (layer_bytes ex_full)"
    by (simp add: ns_base_ok_def ex_new_delta_def ex_full_def)
  have "new_bytes ex_new_delta (layer_bytes ex_full) = [1, 2, 7, 8, 5, 0, 9, 9]"
    by (simp add: new_bytes_def ns_byte_def ex_new_delta_def ex_full_def slots_def byte_or_0_def upt_conv_Cons)
  then show ?thesis
    using delta_holds_new_content [OF a b, of _ 1 2] by (auto simp: ex_new_delta_def)
qed

end
