(* ===== verification/Snapshot_Stores.thy ===== *)
theory Snapshot_Stores
  imports Snapshot_Write
begin

text \<open>
  The memory store and the IndexedDB store of snapshots.ts. Each operation is a function of the
  store's state; where an operation awaits, other operations may run, so it is split into the
  steps between. \<open>now()\<close> is an argument. The contract both keep (\<open>SnapshotStore\<close>) is the locale
  \<open>snapshot_store\<close>, from which follows that the parent of every stored delta stays there.
\<close>

text \<open>What is under a key: the shape both stores share.\<close>

type_synonym stored_map = "string \<Rightarrow> stored_snapshot option"

abbreviation stored_createdAt :: "stored_snapshot \<Rightarrow> rat" where
  "stored_createdAt sn \<equiv> si_createdAt (st_info sn)"

lemma storedAs_simps [simp]:
  "st_source (storedAs s c src) = src" "st_delta (storedAs s c src) = map_option (layoutOf s) (ns_delta s)"
  "si_key (st_info (storedAs s c src)) = ns_key s" "si_size (st_info (storedAs s c src)) = ns_size s"
  "si_createdAt (st_info (storedAs s c src)) = c" "si_branch (st_info (storedAs s c src)) = ns_branch s"
  by (simp_all add: storedAs_def)

section \<open>The memory store\<close>

record mem_base =
  mb_info :: snapshot_info
  mb_data :: bytes
  mb_delta :: "delta_layout option"

record mem_store =
  ms_bases :: "(string \<times> mem_base) list"
  ms_last :: rat

definition mem_empty :: mem_store where
  "mem_empty = \<lparr>ms_bases = [], ms_last = 0\<rparr>"

definition mem_list :: "mem_store \<Rightarrow> snapshot_info list" where
  "mem_list st = map (\<lambda>(_, b). mb_info b) (ms_bases st)"

definition mem_get :: "mem_store \<Rightarrow> stored_map" where
  "mem_get st key = map_option
     (\<lambda>b. \<lparr>st_info = mb_info b, st_source = Bytes (mb_data b), st_delta = mb_delta b\<rparr>)
     (map_get (ms_bases st) key)"

text \<open>\<open>missing()\<close>: the snapshot a delta lies over is there, and the one it was written over.\<close>

definition mem_missing :: "mem_store \<Rightarrow> new_snapshot \<Rightarrow> unit result" where
  "mem_missing st s =
     (case ns_delta s of
        None \<Rightarrow> Inr ()
      | Some d \<Rightarrow>
          if map_option (\<lambda>b. si_createdAt (mb_info b)) (map_get (ms_bases st) (nd_parent d))
               = Some (nd_parentCreatedAt d)
          then Inr () else Inl (SqliteError SQLITE_CANTOPEN))"

text \<open>
  \<open>write\<close> up to where it has the data (it may await the base for it), and from there on: the keys
  may have changed meanwhile, so both parts look.
\<close>

definition mem_write_begin :: "mem_store \<Rightarrow> new_snapshot \<Rightarrow> bytes option result" where
  "mem_write_begin st s =
     (if map_has (ms_bases st) (ns_key s) then Inr None
      else and_then (mem_missing st s) (\<lambda>_. and_then (memory_data s) (\<lambda>d. Inr (Some d))))"

definition mem_write_end ::
  "rat \<Rightarrow> mem_store \<Rightarrow> new_snapshot \<Rightarrow> bytes \<Rightarrow> (mem_store \<times> stored_snapshot option) result" where
  "mem_write_end now st s data =
     (if map_has (ms_bases st) (ns_key s) then Inr (st, None)
      else and_then (mem_missing st s) (\<lambda>_.
        let createdAt = max now (ms_last st + 1 / 1000);
            sn = storedAs s createdAt (Bytes data)
        in Inr (st\<lparr>ms_bases := map_set (ns_key s)
                     \<lparr>mb_info = st_info sn, mb_data = data, mb_delta = st_delta sn\<rparr> (ms_bases st),
                   ms_last := createdAt\<rparr>, Some sn)))"

definition mem_remove :: "mem_store \<Rightarrow> string \<Rightarrow> bool \<Rightarrow> mem_store \<times> bool" where
  "mem_remove st key force =
     (if \<not> force \<and> list_ex (\<lambda>(_, b). map_option dl_parent (mb_delta b) = Some key) (ms_bases st)
      then (st, False)
      else (st\<lparr>ms_bases := map_delete key (ms_bases st)\<rparr>, map_has (ms_bases st) key))"

section \<open>The IndexedDB store\<close>

text \<open>
  One record per snapshot; \<open>parent\<close> is only there for a delta. \<open>getAll\<close> returns the records in the
  order of their keys; no caller depends on that order, and the list here is in that of insertion.
  \<open>key_less\<close> is IndexedDB's order of keys, which decides between records of the same time.
\<close>

record idb_record =
  ir_key :: string
  ir_branch :: string
  ir_meta :: snapshot_meta
  ir_createdAt :: rat
  ir_size :: nat
  ir_blob :: source
  ir_delta :: "delta_layout option"
  ir_parent :: "string option"

type_synonym idb_store = "(string \<times> idb_record) list"

definition idb_info :: "idb_record \<Rightarrow> snapshot_info" where
  "idb_info r = \<lparr>si_key = ir_key r, si_branch = ir_branch r, si_meta = ir_meta r,
     si_createdAt = ir_createdAt r, si_size = ir_size r,
     si_parent = map_option dl_parent (ir_delta r)\<rparr>"

definition idb_list :: "idb_store \<Rightarrow> snapshot_info list" where
  "idb_list st = map (\<lambda>(_, r). idb_info r) st"

definition idb_get :: "idb_store \<Rightarrow> stored_map" where
  "idb_get st key = map_option
     (\<lambda>r. \<lparr>st_info = idb_info r, st_source = ir_blob r, st_delta = ir_delta r\<rparr>) (map_get st key)"

text \<open>The last record of an index by time: \<open>openCursor(range, 'prev')\<close>.\<close>

primrec last_by_time :: "(string \<Rightarrow> string \<Rightarrow> bool) \<Rightarrow> idb_record list \<Rightarrow> idb_record option" where
  "last_by_time key_less [] = None"
| "last_by_time key_less (r # rs) =
     (case last_by_time key_less rs of
        None \<Rightarrow> Some r
      | Some best \<Rightarrow>
          if ir_createdAt best < ir_createdAt r
             \<or> ir_createdAt best = ir_createdAt r \<and> key_less (ir_key best) (ir_key r)
          then Some r else Some best)"

definition idb_head :: "(string \<Rightarrow> string \<Rightarrow> bool) \<Rightarrow> idb_store \<Rightarrow> string option \<Rightarrow> snapshot_info option" where
  "idb_head key_less st branch =
     map_option idb_info (last_by_time key_less
       (case branch of
          None \<Rightarrow> map snd st
        | Some b \<Rightarrow> filter (\<lambda>r. ir_branch r = b) (map snd st)))"

definition idb_recordOf :: "new_snapshot \<Rightarrow> rat \<Rightarrow> source \<Rightarrow> idb_record" where
  "idb_recordOf s createdAt blob =
     \<lparr>ir_key = ns_key s, ir_branch = ns_branch s, ir_meta = ns_meta s, ir_createdAt = createdAt,
      ir_size = ns_size s, ir_blob = blob, ir_delta = map_option (layoutOf s) (ns_delta s),
      ir_parent = map_option nd_parent (ns_delta s)\<rparr>"

text \<open>
  \<open>write\<close>: the key is looked up and the Blob is made; then, in one transaction, the record is added
  unless the key is there now, a delta only while its parent is (else the transaction aborts); then
  what was stored is read back.
\<close>

definition idb_write_begin :: "idb_store \<Rightarrow> new_snapshot \<Rightarrow> source option result" where
  "idb_write_begin st s =
     (if map_has st (ns_key s) then Inr None else and_then (idb_blob s) (\<lambda>b. Inr (Some b)))"

definition idb_add_unless :: "idb_store \<Rightarrow> idb_record \<Rightarrow> idb_store \<times> bool" where
  "idb_add_unless st r = (if map_has st (ir_key r) then (st, False) else (map_set (ir_key r) r st, True))"

definition idb_transaction :: "idb_store \<Rightarrow> new_snapshot \<Rightarrow> idb_record \<Rightarrow> (idb_store \<times> bool) result" where
  "idb_transaction st s r =
     (case ns_delta s of
        None \<Rightarrow> Inr (idb_add_unless st r)
      | Some d \<Rightarrow>
          if map_option ir_createdAt (map_get st (nd_parent d)) = Some (nd_parentCreatedAt d)
          then Inr (idb_add_unless st r) else Inl (SqliteError SQLITE_CANTOPEN))"

definition idb_write_end :: "idb_store \<Rightarrow> new_snapshot \<Rightarrow> idb_record \<Rightarrow> stored_snapshot" where
  "idb_write_end st s r =
     storedAs s (ir_createdAt r)
       (case map_get st (ns_key s) of
          Some stored \<Rightarrow> if ir_createdAt stored = ir_createdAt r then ir_blob stored else ir_blob r
        | None \<Rightarrow> ir_blob r)"

text \<open>The transaction with what is read back directly after it.\<close>

definition idb_add :: "rat \<Rightarrow> idb_store \<Rightarrow> new_snapshot \<Rightarrow> source \<Rightarrow> (idb_store \<times> stored_snapshot option) result" where
  "idb_add now st s blob =
     and_then (idb_transaction st s (idb_recordOf s now blob)) (\<lambda>(st', added).
       Inr (st', if added then Some (idb_write_end st' s (idb_recordOf s now blob)) else None))"

definition idb_remove :: "idb_store \<Rightarrow> string \<Rightarrow> bool \<Rightarrow> idb_store \<times> bool" where
  "idb_remove st key force =
     (if list_ex (\<lambda>(_, r). ir_parent r = Some key) st \<and> \<not> force then (st, False)
      else if map_has st key then (map_delete key st, True) else (st, False))"

section \<open>The contract of a store\<close>

text \<open>A delta over \<open>key\<close> with time \<open>t\<close> may be added, and a snapshot lies over \<open>key\<close>.\<close>

definition parent_there :: "stored_map \<Rightarrow> string \<Rightarrow> rat \<Rightarrow> bool" where
  "parent_there g key t \<longleftrightarrow> map_option stored_createdAt (g key) = Some t"

definition lain_over :: "stored_map \<Rightarrow> string \<Rightarrow> bool" where
  "lain_over g key \<longleftrightarrow> (\<exists>k sn d. g k = Some sn \<and> st_delta sn = Some d \<and> dl_parent d = key)"

datatype store_op = Add rat new_snapshot source | Remove string

definition store_step ::
  "(rat \<Rightarrow> 's \<Rightarrow> new_snapshot \<Rightarrow> source \<Rightarrow> ('s \<times> stored_snapshot option) result)
   \<Rightarrow> ('s \<Rightarrow> string \<Rightarrow> bool \<Rightarrow> 's \<times> bool) \<Rightarrow> 's \<Rightarrow> store_op \<Rightarrow> 's" where
  "store_step add remove st op =
     (case op of
        Add t s src \<Rightarrow> (case add t st s src of Inl _ \<Rightarrow> st | Inr (st', _) \<Rightarrow> st')
      | Remove key \<Rightarrow> fst (remove st key False))"

text \<open>
  Every delta lies over a snapshot that is there, the one it was written over, in which all that
  shows of it is; its depth is one more than that one's; and what is stored has the bytes its layout
  needs. This holds as long as what is added is made that way (\<open>fits\<close>).
\<close>

definition depth_of :: "stored_snapshot \<Rightarrow> nat" where
  "depth_of sn = (case st_delta sn of None \<Rightarrow> 0 | Some d \<Rightarrow> dl_depth d)"

definition parents_ok :: "stored_map \<Rightarrow> bool" where
  "parents_ok g \<longleftrightarrow> (\<forall>k sn d. g k = Some sn \<longrightarrow> st_delta sn = Some d \<longrightarrow>
     (\<exists>p. g (dl_parent d) = Some p \<and> stored_createdAt p = dl_parentCreatedAt d
        \<and> dl_depth d = Suc (depth_of p) \<and> 0 < si_size (st_info p)
        \<and> dl_visible d \<le> si_size (st_info p)))"

definition keys_ok :: "stored_map \<Rightarrow> bool" where
  "keys_ok g \<longleftrightarrow> (\<forall>k sn. g k = Some sn \<longrightarrow> si_key (st_info sn) = k)"

definition content_fits :: "delta_layout option \<Rightarrow> nat \<Rightarrow> source \<Rightarrow> bool" where
  "content_fits delta n src =
     (case delta of
        None \<Rightarrow> length (source_bytes src) = n
      | Some d \<Rightarrow> 0 < dl_chunkSize d \<and> length (dl_pages d) * dl_chunkSize d \<le> length (source_bytes src))"

lemma content_fits_bytes:
  "source_bytes src' = source_bytes src \<Longrightarrow> content_fits d n src' = content_fits d n src"
  by (simp add: content_fits_def split: option.split)

definition contents_ok :: "stored_map \<Rightarrow> bool" where
  "contents_ok g \<longleftrightarrow> (\<forall>k sn. g k = Some sn \<longrightarrow> content_fits (st_delta sn) (si_size (st_info sn)) (st_source sn))"

definition fits :: "stored_map \<Rightarrow> store_op \<Rightarrow> bool" where
  "fits g op = (case op of
     Add t s src \<Rightarrow> content_fits (map_option (layoutOf s) (ns_delta s)) (ns_size s) src
       \<and> (case ns_delta s of
            None \<Rightarrow> True
          | Some nd \<Rightarrow> (case g (nd_parent nd) of
              None \<Rightarrow> True
            | Some p \<Rightarrow> stored_createdAt p = nd_parentCreatedAt nd \<longrightarrow>
                nd_depth nd = Suc (depth_of p) \<and> 0 < si_size (st_info p)
                \<and> ns_visible s \<le> si_size (st_info p)))
   | Remove key \<Rightarrow> True)"

primrec run_fits :: "('s \<Rightarrow> stored_map) \<Rightarrow> ('s \<Rightarrow> store_op \<Rightarrow> 's) \<Rightarrow> 's \<Rightarrow> store_op list \<Rightarrow> bool" where
  "run_fits get step st [] = True"
| "run_fits get step st (op # ops) = (fits (get st) op \<and> run_fits get step (step st op) ops)"

locale snapshot_store =
  fixes get :: "'s \<Rightarrow> stored_map"
    and add :: "rat \<Rightarrow> 's \<Rightarrow> new_snapshot \<Rightarrow> source \<Rightarrow> ('s \<times> stored_snapshot option) result"
    and remove :: "'s \<Rightarrow> string \<Rightarrow> bool \<Rightarrow> 's \<times> bool"
    and ok :: "'s \<Rightarrow> bool"
  assumes add_Some: "ok st \<Longrightarrow> add t st s src = Inr (st', Some sn) \<Longrightarrow>
      ok st' \<and> get st (ns_key s) = None \<and> (\<exists>c src'. sn = storedAs s c src' \<and> source_bytes src' = source_bytes src)
      \<and> (\<forall>nd. ns_delta s = Some nd \<longrightarrow> parent_there (get st) (nd_parent nd) (nd_parentCreatedAt nd))
      \<and> get st' = (get st)(ns_key s \<mapsto> sn)"
    and add_None: "ok st \<Longrightarrow> add t st s src = Inr (st', None) \<Longrightarrow> st' = st \<and> get st (ns_key s) \<noteq> None"
    and remove_True: "ok st \<Longrightarrow> remove st key force = (st', True) \<Longrightarrow>
      ok st' \<and> get st key \<noteq> None \<and> get st' = (get st)(key := None)
      \<and> (force \<or> \<not> lain_over (get st) key)"
    and remove_False: "ok st \<Longrightarrow> remove st key force = (st', False) \<Longrightarrow>
      ok st' \<and> get st' = get st \<and> (get st key = None \<or> \<not> force \<and> lain_over (get st) key)"
begin

definition step :: "'s \<Rightarrow> store_op \<Rightarrow> 's" where
  "step = store_step add remove"

lemma step_get:
  assumes "ok st"
  shows "ok (step st op)" and "get (step st op) k \<noteq> get st k \<Longrightarrow>
      get st k = None \<and> (\<exists>t s src c src'. op = Add t s src \<and> k = ns_key s \<and> get (step st op) k = Some (storedAs s c src')
        \<and> source_bytes src' = source_bytes src)
    \<or> get (step st op) k = None \<and> op = Remove k \<and> \<not> lain_over (get st) k"
proof -
  have "ok (step st op) \<and> (get (step st op) k \<noteq> get st k \<longrightarrow>
      get st k = None \<and> (\<exists>t s src c src'. op = Add t s src \<and> k = ns_key s \<and> get (step st op) k = Some (storedAs s c src')
        \<and> source_bytes src' = source_bytes src)
    \<or> get (step st op) k = None \<and> op = Remove k \<and> \<not> lain_over (get st) k)"
  proof (cases op)
    case (Add t s src)
    show ?thesis
    proof (cases "add t st s src")
      case (Inl e)
      then show ?thesis using assms Add by (simp add: step_def store_step_def)
    next
      case (Inr p)
      obtain st' r where p: "p = (st', r)" by (cases p)
      show ?thesis
      proof (cases r)
        case None
        then have "st' = st" using add_None [OF assms] Inr p by blast
        then show ?thesis using assms Add Inr p by (simp add: step_def store_step_def)
      next
        case (Some sn)
        then have "add t st s src = Inr (st', Some sn)" using Inr p by simp
        from add_Some [OF assms this] obtain c src' where
          "ok st'" "get st (ns_key s) = None" "sn = storedAs s c src'" "get st' = (get st)(ns_key s \<mapsto> sn)"
          "source_bytes src' = source_bytes src"
          by blast
        then show ?thesis using Add Inr p by (auto simp: step_def store_step_def)
      qed
    qed
  next
    case (Remove key)
    obtain st' b where r: "remove st key False = (st', b)" by (cases "remove st key False")
    then show ?thesis
      using remove_True [OF assms, of key False st'] remove_False [OF assms, of key False st'] Remove
      by (cases b) (auto simp: step_def store_step_def)
  qed
  then show "ok (step st op)" and "get (step st op) k \<noteq> get st k \<Longrightarrow>
      get st k = None \<and> (\<exists>t s src c src'. op = Add t s src \<and> k = ns_key s \<and> get (step st op) k = Some (storedAs s c src')
        \<and> source_bytes src' = source_bytes src)
    \<or> get (step st op) k = None \<and> op = Remove k \<and> \<not> lain_over (get st) k"
    by blast+
qed

lemma step_keys: "ok st \<Longrightarrow> keys_ok (get st) \<Longrightarrow> keys_ok (get (step st op))"
  unfolding keys_ok_def
proof (intro allI impI)
  fix k sn
  assume "ok st" "\<forall>k sn. get st k = Some sn \<longrightarrow> si_key (st_info sn) = k" "get (step st op) k = Some sn"
  then show "si_key (st_info sn) = k"
    using step_get(2) [of st op k] by (cases "get (step st op) k = get st k") (auto simp: storedAs_def)
qed

lemma step_contents:
  "ok st \<Longrightarrow> contents_ok (get st) \<Longrightarrow> fits (get st) op \<Longrightarrow> contents_ok (get (step st op))"
  unfolding contents_ok_def
proof (intro allI impI)
  fix k sn
  assume a: "ok st" "\<forall>k sn. get st k = Some sn \<longrightarrow> content_fits (st_delta sn) (si_size (st_info sn)) (st_source sn)"
    and f: "fits (get st) op" and k: "get (step st op) k = Some sn"
  show "content_fits (st_delta sn) (si_size (st_info sn)) (st_source sn)"
  proof (cases "get (step st op) k = get st k")
    case True
    then show ?thesis using a(2) k by metis
  next
    case False
    then obtain t s src c src' where "op = Add t s src" "sn = storedAs s c src'" "source_bytes src' = source_bytes src"
      using step_get(2) [OF a(1) False] k by auto
    then show ?thesis using f content_fits_bytes [of src' src] by (simp add: fits_def)
  qed
qed

text \<open>Adding finds the parent there; removing leaves what is lain over.\<close>

lemma step_parents:
  assumes "ok st" and "parents_ok (get st)" and "fits (get st) op"
  shows "parents_ok (get (step st op))"
  unfolding parents_ok_def
proof (intro allI impI)
  fix k sn d
  assume k: "get (step st op) k = Some sn" and d: "st_delta sn = Some d"
  have "\<exists>p. get st (dl_parent d) = Some p \<and> stored_createdAt p = dl_parentCreatedAt d
      \<and> dl_depth d = Suc (depth_of p) \<and> 0 < si_size (st_info p)
      \<and> dl_visible d \<le> si_size (st_info p) \<and> get (step st op) (dl_parent d) = Some p"
  proof (cases "get (step st op) k = get st k")
    case True
    then obtain p where p: "get st (dl_parent d) = Some p" "stored_createdAt p = dl_parentCreatedAt d"
      "dl_depth d = Suc (depth_of p)" "0 < si_size (st_info p)" "dl_visible d \<le> si_size (st_info p)"
      using assms(2) k d unfolding parents_ok_def by metis
    moreover have "lain_over (get st) (dl_parent d)"
      using True k d unfolding lain_over_def by metis
    ultimately have "get (step st op) (dl_parent d) = get st (dl_parent d)"
      using step_get(2) [OF assms(1), of op "dl_parent d"] by force
    with p show ?thesis by auto
  next
    case False
    then obtain t s src c src' where op: "op = Add t s src" "k = ns_key s" "sn = storedAs s c src'"
      using step_get(2) [OF assms(1) False] k by auto
    then obtain nd where nd: "ns_delta s = Some nd" "d = layoutOf s nd" using d by (auto simp: storedAs_def)
    obtain st' where st': "add t st s src = Inr (st', Some sn)"
    proof (cases "add t st s src")
      case (Inl e)
      then show ?thesis using False op by (simp add: step_def store_step_def)
    next
      case (Inr p)
      obtain st1 r where p: "p = (st1, r)" by (cases p)
      show ?thesis
      proof (cases r)
        case None
        then show ?thesis using add_None [OF assms(1)] False op Inr p by (auto simp: step_def store_step_def)
      next
        case (Some sn')
        then have "get st1 = (get st)(ns_key s \<mapsto> sn')" using add_Some [OF assms(1)] Inr p by blast
        then have "sn' = sn" using k op Inr p by (simp add: step_def store_step_def)
        then show ?thesis using that Some Inr p by blast
      qed
    qed
    note as = add_Some [OF assms(1) st']
    then obtain p where p: "get st (nd_parent nd) = Some p" "stored_createdAt p = nd_parentCreatedAt nd"
      using nd by (auto simp: parent_there_def)
    then have "nd_depth nd = Suc (depth_of p) \<and> 0 < si_size (st_info p) \<and> ns_visible s \<le> si_size (st_info p)"
      using assms(3) op(1) nd(1) by (simp add: fits_def)
    moreover have "get (step st op) (nd_parent nd) = Some p"
      using as p st' op by (auto simp: step_def store_step_def)
    ultimately show ?thesis using p nd(2) by (auto simp: layoutOf_def)
  qed
  then show "\<exists>p. get (step st op) (dl_parent d) = Some p \<and> stored_createdAt p = dl_parentCreatedAt d
      \<and> dl_depth d = Suc (depth_of p) \<and> 0 < si_size (st_info p)
      \<and> dl_visible d \<le> si_size (st_info p)" by blast
qed

lemma run_ok:
  assumes "ok st" and "parents_ok (get st)" and "keys_ok (get st)" and "contents_ok (get st)"
    and "run_fits get step st ops"
  shows "ok (foldl step st ops) \<and> parents_ok (get (foldl step st ops)) \<and> keys_ok (get (foldl step st ops))
    \<and> contents_ok (get (foldl step st ops))"
  using assms
proof (induction ops arbitrary: st)
  case Nil
  then show ?case by simp
next
  case (Cons op ops)
  then show ?case using step_get(1) step_parents step_keys step_contents by simp
qed

text \<open>What is stored never changes: it stays as it is until it is removed.\<close>

lemma step_immutable:
  "ok st \<Longrightarrow> get st k = Some sn \<Longrightarrow> get (step st op) k = Some sn \<or> get (step st op) k = None \<and> op = Remove k"
  using step_get(2) [of st op k] by (cases "get (step st op) k = get st k") auto

end

section \<open>Both stores keep the contract\<close>

lemma map_get_map: "map_of (map (\<lambda>(k, v). (k, f v)) xs) k = map_option f (map_of xs k)"
  by (induction xs) auto

definition mem_add :: "rat \<Rightarrow> mem_store \<Rightarrow> new_snapshot \<Rightarrow> source \<Rightarrow> (mem_store \<times> stored_snapshot option) result" where
  "mem_add now st s src = mem_write_end now st s (source_bytes src)"

text \<open>What the Map holds under a key, and whose parent a key is.\<close>

lemma list_ex_map_get:
  "map_ok m \<Longrightarrow> list_ex (\<lambda>(_, v). P v) m \<longleftrightarrow> (\<exists>k v. map_get m k = Some v \<and> P v)"
  by (auto simp: list_ex_iff map_ok_def)

lemma mem_get_set:
  "mem_get (st\<lparr>ms_bases := map_set k b (ms_bases st), ms_last := t\<rparr>) =
   (mem_get st)(k \<mapsto> \<lparr>st_info = mb_info b, st_source = Bytes (mb_data b), st_delta = mb_delta b\<rparr>)"
  by (rule ext) (simp add: mem_get_def map_get_set)

lemma mem_get_delete: "mem_get (st\<lparr>ms_bases := map_delete k (ms_bases st)\<rparr>) = (mem_get st)(k := None)"
  by (rule ext) (simp add: mem_get_def map_get_delete)

definition mem_ok :: "mem_store \<Rightarrow> bool" where
  "mem_ok st \<longleftrightarrow> map_ok (ms_bases st) \<and>
     (\<forall>k b. map_get (ms_bases st) k = Some b \<longrightarrow> si_createdAt (mb_info b) \<le> ms_last st)"

lemma mem_missing_ok:
  "mem_missing st s = Inr () \<longleftrightarrow>
     (\<forall>nd. ns_delta s = Some nd \<longrightarrow> parent_there (mem_get st) (nd_parent nd) (nd_parentCreatedAt nd))"
  by (auto simp: mem_missing_def parent_there_def mem_get_def option.map_comp o_def split: option.splits)

lemma mem_lain_over:
  "map_ok (ms_bases st) \<Longrightarrow>
   list_ex (\<lambda>(_, b). map_option dl_parent (mb_delta b) = Some key) (ms_bases st) \<longleftrightarrow> lain_over (mem_get st) key"
  by (subst list_ex_map_get) (force simp: lain_over_def mem_get_def)+

interpretation mem: snapshot_store mem_get mem_add mem_remove mem_ok
proof
  fix st st' t s src sn
  assume ok: "mem_ok st" and add: "mem_add t st s src = Inr (st', Some sn)"
  define c where "c = max t (ms_last st + 1 / 1000)"
  have has: "map_get (ms_bases st) (ns_key s) = None" and miss: "mem_missing st s = Inr ()"
    and st': "st' = st\<lparr>ms_bases := map_set (ns_key s)
        \<lparr>mb_info = st_info (storedAs s c (Bytes (source_bytes src))), mb_data = source_bytes src,
         mb_delta = st_delta (storedAs s c (Bytes (source_bytes src)))\<rparr> (ms_bases st), ms_last := c\<rparr>"
    and sn: "sn = storedAs s c (Bytes (source_bytes src))"
    using add by (auto simp: mem_add_def mem_write_end_def Let_def c_def and_then_eq_Inr split: if_splits)
  have "ms_last st \<le> c" by (simp add: c_def)
  then have "mem_ok st'"
    using ok by (auto simp: mem_ok_def st' map_get_set storedAs_def intro: order_trans)
  moreover have "mem_get st' = (mem_get st)(ns_key s \<mapsto> sn)"
    by (simp add: st' mem_get_set sn storedAs_def)
  moreover have "source_bytes (Bytes (source_bytes src)) = source_bytes src" by simp
  ultimately show "mem_ok st' \<and> mem_get st (ns_key s) = None \<and> (\<exists>c src'. sn = storedAs s c src' \<and> source_bytes src' = source_bytes src)
      \<and> (\<forall>nd. ns_delta s = Some nd \<longrightarrow> parent_there (mem_get st) (nd_parent nd) (nd_parentCreatedAt nd))
      \<and> mem_get st' = (mem_get st)(ns_key s \<mapsto> sn)"
    using has miss sn unfolding mem_get_def [of st "ns_key s"] mem_missing_ok by blast
next
  fix st st' :: mem_store and t s src
  assume "mem_ok st" and "mem_add t st s src = Inr (st', None)"
  then show "st' = st \<and> mem_get st (ns_key s) \<noteq> None"
    by (auto simp: mem_add_def mem_write_end_def Let_def and_then_eq_Inr mem_get_def split: if_splits)
next
  fix st st' key force
  assume ok: "mem_ok st" and r: "mem_remove st key force = (st', True)"
  have "mem_ok (st\<lparr>ms_bases := map_delete key (ms_bases st)\<rparr>)"
    using ok by (auto simp: mem_ok_def map_get_delete split: if_splits)
  then show "mem_ok st' \<and> mem_get st key \<noteq> None \<and> mem_get st' = (mem_get st)(key := None)
      \<and> (force \<or> \<not> lain_over (mem_get st) key)"
    using r ok mem_lain_over [of st key]
    by (auto simp: mem_remove_def mem_ok_def mem_get_delete mem_get_def [of st key] split: if_splits)
next
  fix st st' key force
  assume ok: "mem_ok st" and r: "mem_remove st key force = (st', False)"
  have del: "mem_ok (st\<lparr>ms_bases := map_delete key (ms_bases st)\<rparr>)"
    using ok by (auto simp: mem_ok_def map_get_delete split: if_splits)
  show "mem_ok st' \<and> mem_get st' = mem_get st
      \<and> (mem_get st key = None \<or> \<not> force \<and> lain_over (mem_get st) key)"
  proof (cases "\<not> force \<and> lain_over (mem_get st) key")
    case True
    then have "st' = st"
      using r ok mem_lain_over [of st key] by (simp add: mem_remove_def mem_ok_def)
    with True ok show ?thesis by simp
  next
    case False
    then have st': "st' = st\<lparr>ms_bases := map_delete key (ms_bases st)\<rparr>" "mem_get st key = None"
      using r ok mem_lain_over [of st key]
      by (auto simp: mem_remove_def mem_ok_def mem_get_def [of st key] split: if_splits)
    then have "mem_get st' = mem_get st" by (simp add: mem_get_delete fun_upd_idem)
    with st' del show ?thesis by simp
  qed
qed

text \<open>In IndexedDB the \<open>parent\<close> of a record, which is indexed, is that of its layout.\<close>

definition idb_ok :: "idb_store \<Rightarrow> bool" where
  "idb_ok st \<longleftrightarrow> map_ok st \<and>
     (\<forall>k r. map_get st k = Some r \<longrightarrow> ir_key r = k \<and> ir_parent r = map_option dl_parent (ir_delta r))"

lemma idb_lain_over:
  assumes "idb_ok st"
  shows "list_ex (\<lambda>(_, r). ir_parent r = Some key) st \<longleftrightarrow> lain_over (idb_get st) key"
proof -
  have "list_ex (\<lambda>(_, r). ir_parent r = Some key) st \<longleftrightarrow>
      (\<exists>k r. map_get st k = Some r \<and> map_option dl_parent (ir_delta r) = Some key)"
    using assms by (subst list_ex_map_get) (force simp: idb_ok_def)+
  also have "\<dots> \<longleftrightarrow> lain_over (idb_get st) key"
    by (force simp: lain_over_def idb_get_def)
  finally show ?thesis .
qed

lemma idb_transaction_eq:
  "idb_transaction st s r =
     (if \<forall>nd. ns_delta s = Some nd \<longrightarrow> parent_there (idb_get st) (nd_parent nd) (nd_parentCreatedAt nd)
      then Inr (idb_add_unless st r) else Inl (SqliteError SQLITE_CANTOPEN))"
  by (auto simp: idb_transaction_def parent_there_def idb_get_def option.map_comp o_def idb_info_def
      split: option.splits)

lemma idb_info_recordOf:
  "\<lparr>st_info = idb_info (idb_recordOf s c b), st_source = b, st_delta = map_option (layoutOf s) (ns_delta s)\<rparr>
   = storedAs s c b"
  by (simp add: idb_info_def idb_recordOf_def storedAs_def option.map_comp o_def layoutOf_def)

lemma idb_add_fields [simp]:
  "ir_key (idb_recordOf s c b) = ns_key s" "ir_blob (idb_recordOf s c b) = b"
  "ir_createdAt (idb_recordOf s c b) = c"
  "ir_delta (idb_recordOf s c b) = map_option (layoutOf s) (ns_delta s)"
  "ir_parent (idb_recordOf s c b) = map_option dl_parent (ir_delta (idb_recordOf s c b))"
  by (simp_all add: idb_recordOf_def option.map_comp o_def layoutOf_def)

interpretation idb: snapshot_store idb_get idb_add idb_remove idb_ok
proof
  fix st st' t s src sn
  assume ok: "idb_ok st" and add: "idb_add t st s src = Inr (st', Some sn)"
  let ?r = "idb_recordOf s t src"
  have par: "\<forall>nd. ns_delta s = Some nd \<longrightarrow> parent_there (idb_get st) (nd_parent nd) (nd_parentCreatedAt nd)"
    using add by (auto simp: idb_add_def idb_transaction_eq split: if_splits)
  then have has: "map_get st (ns_key s) = None" and st': "st' = map_set (ns_key s) ?r st"
    using add by (auto simp: idb_add_def idb_transaction_eq idb_add_unless_def split: if_splits)
  with par have sn: "sn = storedAs s t src"
    using add by (auto simp: idb_add_def idb_transaction_eq idb_add_unless_def idb_write_end_def map_get_set)
  have "idb_ok st'"
    using ok by (auto simp: idb_ok_def st' map_get_set)
  moreover have "idb_get st' = (idb_get st)(ns_key s \<mapsto> sn)"
    by (rule ext) (simp add: idb_get_def st' map_get_set sn idb_info_recordOf)
  ultimately show "idb_ok st' \<and> idb_get st (ns_key s) = None
      \<and> (\<exists>c src'. sn = storedAs s c src' \<and> source_bytes src' = source_bytes src)
      \<and> (\<forall>nd. ns_delta s = Some nd \<longrightarrow> parent_there (idb_get st) (nd_parent nd) (nd_parentCreatedAt nd))
      \<and> idb_get st' = (idb_get st)(ns_key s \<mapsto> sn)"
    using has sn par by (auto simp: idb_get_def [of st "ns_key s"])
next
  fix st st' :: idb_store and t s src
  assume "idb_ok st" and "idb_add t st s src = Inr (st', None)"
  then show "st' = st \<and> idb_get st (ns_key s) \<noteq> None"
    by (auto simp: idb_add_def idb_transaction_eq idb_add_unless_def idb_get_def split: if_splits)
next
  fix st st' key force
  assume ok: "idb_ok st" and r: "idb_remove st key force = (st', True)"
  then have "st' = map_delete key st" "map_has st key" "force \<or> \<not> lain_over (idb_get st) key"
    by (auto simp: idb_remove_def idb_lain_over split: if_splits)
  then show "idb_ok st' \<and> idb_get st key \<noteq> None \<and> idb_get st' = (idb_get st)(key := None)
      \<and> (force \<or> \<not> lain_over (idb_get st) key)"
    using ok by (auto simp: idb_ok_def map_get_delete idb_get_def fun_eq_iff split: if_splits)
next
  fix st st' key force
  assume ok: "idb_ok st" and r: "idb_remove st key force = (st', False)"
  then show "idb_ok st' \<and> idb_get st' = idb_get st
      \<and> (idb_get st key = None \<or> \<not> force \<and> lain_over (idb_get st) key)"
    by (auto simp: idb_remove_def idb_lain_over idb_get_def [of st key] split: if_splits)
qed

section \<open>Properties\<close>

abbreviation mem_step :: "mem_store \<Rightarrow> store_op \<Rightarrow> mem_store" where
  "mem_step \<equiv> store_step mem_add mem_remove"

abbreviation idb_step :: "idb_store \<Rightarrow> store_op \<Rightarrow> idb_store" where
  "idb_step \<equiv> store_step idb_add idb_remove"

lemma memory_parents:
  assumes "run_fits mem_get mem_step mem_empty ops"
  shows "parents_ok (mem_get (foldl mem_step mem_empty ops))
    \<and> keys_ok (mem_get (foldl mem_step mem_empty ops))
    \<and> contents_ok (mem_get (foldl mem_step mem_empty ops))"
proof -
  have "mem_ok mem_empty" by (simp add: mem_ok_def mem_empty_def)
  moreover have "parents_ok (mem_get mem_empty)" "keys_ok (mem_get mem_empty)" "contents_ok (mem_get mem_empty)"
    by (simp_all add: parents_ok_def keys_ok_def contents_ok_def mem_get_def mem_empty_def)
  ultimately show ?thesis
    using mem.run_ok [of mem_empty ops] assms by (simp add: mem.step_def)
qed

lemma idb_parents:
  assumes "run_fits idb_get idb_step [] ops"
  shows "parents_ok (idb_get (foldl idb_step [] ops)) \<and> keys_ok (idb_get (foldl idb_step [] ops))
    \<and> contents_ok (idb_get (foldl idb_step [] ops))"
proof -
  have "idb_ok []" by (simp add: idb_ok_def)
  moreover have "parents_ok (idb_get [])" "keys_ok (idb_get [])" "contents_ok (idb_get [])"
    by (simp_all add: parents_ok_def keys_ok_def contents_ok_def idb_get_def)
  ultimately show ?thesis
    using idb.run_ok [of "[]" ops] assms by (simp add: idb.step_def)
qed


definition ex_ops :: "store_op list" where
  "ex_ops = [Add 1 (ex_new\<lparr>ns_key := ''a''\<rparr>) (Blob [1, 2, 3, 4, 5, 6, 7, 8, 9, 10, 11, 12]), Remove ''x'',
     Add 2 ex_new_delta (Blob [7, 8, 9, 9]), Remove ''a'']"


end
