(* ===== verification/Snapshot_Resolve.thy ===== *)
theory Snapshot_Resolve
  imports Snapshot_Stores
begin

text \<open>
  \<open>SnapshotStorage.resolve\<close>: a snapshot with those it lies over, from the top down. The store may
  change between the reads, so \<open>gs i\<close> is what it holds at the \<open>i\<close>-th; the locks held are the keys,
  in the order they were locked, and none after a failure.
\<close>

definition MAX_CHAIN :: nat where "MAX_CHAIN = 64"

text \<open>The snapshot does not count: missing, empty, or not the one the delta above was written over.\<close>

definition not_found :: "stored_snapshot list \<Rightarrow> stored_snapshot option \<Rightarrow> bool" where
  "not_found found stored =
     (case stored of
        None \<Rightarrow> True
      | Some sn \<Rightarrow> si_size (st_info sn) = 0 \<or>
          (case (if found = [] then None else st_delta (last found)) of
             None \<Rightarrow> False
           | Some upper \<Rightarrow> si_createdAt (st_info sn) \<noteq> dl_parentCreatedAt upper))"

text \<open>
  The loop, with what was found so far and the keys held. The test of the chain's length comes after
  the step to the parent and ends the loop.
\<close>

function resolve_loop ::
  "(nat \<Rightarrow> stored_map) \<Rightarrow> string \<Rightarrow> string \<Rightarrow> stored_snapshot list \<Rightarrow> string list
   \<Rightarrow> (stored_snapshot list \<times> string list) option result" where
  "resolve_loop gs key pos found held =
     (let held' = held @ [pos];
          stored = gs (length found) pos
      in if not_found found stored
         then (if pos = key then Inr None else Inl (SqliteError SQLITE_CANTOPEN))
         else let found' = found @ [the stored]
              in case st_delta (the stored) of
                   None \<Rightarrow> Inr (Some (found', held'))
                 | Some d \<Rightarrow>
                     if MAX_CHAIN < length found' then Inl (SqliteError SQLITE_CORRUPT)
                     else resolve_loop gs key (dl_parent d) found' held')"
  by pat_completeness auto
termination
  by (relation "measure (\<lambda>(gs, key, pos, found, held). Suc MAX_CHAIN - length found)") auto

declare resolve_loop.simps [simp del]

text \<open>The layers, each a new object; \<open>n\<close> counts objects.\<close>

fun build_layer :: "nat \<Rightarrow> stored_snapshot \<Rightarrow> stored_snapshot list \<Rightarrow> layer" where
  "build_layer n sn [] = Layer n sn None"
| "build_layer n sn (t # ts) = Layer n sn (Some (build_layer (Suc n) t ts))"

definition resolve :: "nat \<Rightarrow> (nat \<Rightarrow> stored_map) \<Rightarrow> string \<Rightarrow> (base \<times> string list) option result" where
  "resolve n gs key =
     and_then (resolve_loop gs key key [] []) (\<lambda>r. Inr (map_option
       (\<lambda>(found, held). (baseOf (build_layer n (hd found) (tl found)), held)) r))"

section \<open>What is resolved\<close>

text \<open>
  Snapshots read one after the other from the \<open>i\<close>-th read on, at \<open>pos\<close> and then at the parent each
  names: each is the one the delta above it was written over, and the last is a full one.
\<close>

fun read_chain :: "(nat \<Rightarrow> stored_map) \<Rightarrow> nat \<Rightarrow> string \<Rightarrow> stored_snapshot list \<Rightarrow> bool" where
  "read_chain gs i pos [] = False"
| "read_chain gs i pos (sn # ts) \<longleftrightarrow>
     gs i pos = Some sn \<and> 0 < si_size (st_info sn) \<and>
     (case st_delta sn of
        None \<Rightarrow> ts = []
      | Some d \<Rightarrow> ts \<noteq> [] \<and> stored_createdAt (hd ts) = dl_parentCreatedAt d
          \<and> read_chain gs (Suc i) (dl_parent d) ts)"

fun chain_keys :: "string \<Rightarrow> stored_snapshot list \<Rightarrow> string list" where
  "chain_keys pos [] = []"
| "chain_keys pos (sn # ts) =
     pos # (case st_delta sn of None \<Rightarrow> [] | Some d \<Rightarrow> chain_keys (dl_parent d) ts)"

definition over_last :: "stored_snapshot list \<Rightarrow> stored_snapshot \<Rightarrow> bool" where
  "over_last found sn \<longleftrightarrow> (found \<noteq> [] \<longrightarrow>
     (\<forall>d. st_delta (last found) = Some d \<longrightarrow> stored_createdAt sn = dl_parentCreatedAt d))"

lemma not_found_Some:
  "not_found found (Some sn) \<longleftrightarrow> \<not> (0 < si_size (st_info sn) \<and> over_last found sn)"
  by (auto simp: not_found_def over_last_def split: option.splits)

lemma resolve_loop_sound:
  assumes "resolve_loop gs key pos found held = Inr (Some (out, held'))" and "length found \<le> MAX_CHAIN"
  shows "\<exists>ss. out = found @ ss \<and> held' = held @ chain_keys pos ss \<and> read_chain gs (length found) pos ss
    \<and> over_last found (hd ss) \<and> length out \<le> Suc MAX_CHAIN"
  using assms
proof (induction gs key pos found held rule: resolve_loop.induct)
  case (1 gs key pos found held)
  let ?r = "gs (length found) pos"
  have nf: "\<not> not_found found ?r"
    using "1.prems"(1) by (subst (asm) resolve_loop.simps) (auto simp: Let_def split: if_splits)
  then obtain sn where sn: "?r = Some sn" by (auto simp: not_found_def split: option.splits)
  have ok: "0 < si_size (st_info sn)" "over_last found sn"
    using nf by (auto simp: sn not_found_Some)
  show ?case
  proof (cases "st_delta sn")
    case None
    then have "out = found @ [sn]" "held' = held @ [pos]"
      using "1.prems"(1) nf sn by (subst (asm) resolve_loop.simps, simp add: Let_def)+
    then show ?thesis
      using None sn ok "1.prems"(2) by (intro exI [of _ "[sn]"]) simp
  next
    case (Some d)
    then have le: "length (found @ [sn]) \<le> MAX_CHAIN"
      and rest: "resolve_loop gs key (dl_parent d) (found @ [sn]) (held @ [pos]) = Inr (Some (out, held'))"
      using "1.prems"(1) nf sn
      by (subst (asm) resolve_loop.simps, simp add: Let_def split: if_splits)+
    obtain ss where ss: "out = (found @ [sn]) @ ss" "held' = (held @ [pos]) @ chain_keys (dl_parent d) ss"
      "read_chain gs (length (found @ [sn])) (dl_parent d) ss" "over_last (found @ [sn]) (hd ss)"
      "length out \<le> Suc MAX_CHAIN"
      using "1.IH" [OF refl refl nf refl, of d] rest le Some sn by (auto simp: not_less)
    have "ss \<noteq> []" using ss(3) by auto
    then show ?thesis
      using ss Some sn ok by (intro exI [of _ "sn # ss"]) (simp add: over_last_def)
  qed
qed

lemma resolve_loop_complete:
  "read_chain gs (length found) pos ss \<Longrightarrow> over_last found (hd ss) \<Longrightarrow>
   length found + length ss \<le> Suc MAX_CHAIN \<Longrightarrow>
   resolve_loop gs key pos found held = Inr (Some (found @ ss, held @ chain_keys pos ss))"
proof (induction ss arbitrary: pos found held)
  case Nil
  then show ?case by simp
next
  case (Cons sn ts)
  have nf: "\<not> not_found found (Some sn)" and sn: "gs (length found) pos = Some sn"
    using Cons.prems(1,2) by (simp_all add: not_found_Some)
  show ?case
  proof (cases "st_delta sn")
    case None
    then show ?thesis using Cons.prems(1) nf sn by (subst resolve_loop.simps) (simp add: Let_def)
  next
    case (Some d)
    then have ts: "ts \<noteq> []" "stored_createdAt (hd ts) = dl_parentCreatedAt d"
      "read_chain gs (length (found @ [sn])) (dl_parent d) ts"
      using Cons.prems(1) by simp_all
    then have "\<not> MAX_CHAIN < length (found @ [sn])"
      using Cons.prems(3) by (cases ts) auto
    moreover have "resolve_loop gs key (dl_parent d) (found @ [sn]) (held @ [pos]) =
        Inr (Some ((found @ [sn]) @ ts, (held @ [pos]) @ chain_keys (dl_parent d) ts))"
      using ts Cons.prems(3) Some by (intro Cons.IH) (auto simp: over_last_def)
    ultimately show ?thesis
      using nf sn Some by (subst resolve_loop.simps) (simp add: Let_def)
  qed
qed

section \<open>The layers\<close>

lemma build_layer_stored: "map layer_stored (layer_chain (build_layer n sn ts)) = sn # ts"
  by (induction n sn ts rule: build_layer.induct) auto

lemma build_layer_top [simp]: "layer_stored (build_layer n sn ts) = sn"
  by (cases ts) auto

lemma build_layer_ids:
  "l \<in> set (layer_chain (build_layer n sn ts)) \<Longrightarrow> n \<le> layer_id l"
  by (induction n sn ts rule: build_layer.induct) auto

text \<open>The layers are new objects, so they do not share their blocks.\<close>

lemma build_layer_distinct: "distinct (map layer_id (layer_chain (build_layer n sn ts)))"
proof (induction n sn ts rule: build_layer.induct)
  case (2 n sn t ts)
  then show ?case using build_layer_ids [of _ "Suc n" t ts] by fastforce
qed simp

lemma build_layer_keys: "layer_chain (build_layer n sn ts) = l # ls \<Longrightarrow> layer_info l = st_info sn"
  using build_layer_stored [of n sn ts] by auto

lemma baseOf_keys: "b_keys (baseOf (build_layer n sn ts)) = map (\<lambda>x. si_key (st_info x)) (sn # ts)"
proof -
  have "map (\<lambda>x. si_key (layer_info x)) (layer_chain (build_layer n sn ts)) =
      map (\<lambda>x. si_key (st_info x)) (map layer_stored (layer_chain (build_layer n sn ts)))" by simp
  then show ?thesis unfolding build_layer_stored by (simp add: baseOf_def)
qed

lemma chain_keys_ok:
  "keys_ok g \<Longrightarrow> read_chain (\<lambda>_. g) i pos ss \<Longrightarrow> chain_keys pos ss = map (\<lambda>x. si_key (st_info x)) ss"
proof (induction ss arbitrary: i pos)
  case Nil
  then show ?case by simp
next
  case (Cons sn ts)
  have "si_key (st_info sn) = pos" using Cons.prems unfolding keys_ok_def by auto
  then show ?case using Cons by (cases "st_delta sn") auto
qed

text \<open>A store whose snapshots hold together gives layers that do.\<close>

lemma read_chain_wf:
  "contents_ok g \<Longrightarrow> parents_ok g \<Longrightarrow> read_chain (\<lambda>_. g) i pos (sn # ts) \<Longrightarrow> layer_wf (build_layer n sn ts)"
proof (induction n sn ts arbitrary: i pos rule: build_layer.induct)
  case (1 n sn)
  then have c: "content_fits (st_delta sn) (si_size (st_info sn)) (st_source sn)"
    unfolding contents_ok_def by auto
  have "st_delta sn = None" using "1.prems"(3) by (auto split: option.splits)
  then show ?case using c by (simp add: content_fits_def)
next
  case (2 n sn t ts)
  have sn: "g pos = Some sn" using "2.prems"(3) by simp
  then have c: "content_fits (st_delta sn) (si_size (st_info sn)) (st_source sn)"
    using "2.prems"(1) unfolding contents_ok_def by auto
  obtain d where d: "st_delta sn = Some d" and rest: "read_chain (\<lambda>_. g) (Suc i) (dl_parent d) (t # ts)"
    using "2.prems"(3) by (auto split: option.splits)
  have "g (dl_parent d) = Some t" using rest by simp
  then have "dl_visible d \<le> si_size (st_info t)"
    using "2.prems"(2) sn d unfolding parents_ok_def by fastforce
  then show ?case using "2.IH" [OF "2.prems"(1,2) rest] c d by (simp add: content_fits_def)
qed

text \<open>Following the parents ends, after as many deltas as the depth says.\<close>

lemma parents_chain:
  "parents_ok g \<Longrightarrow> g pos = Some sn \<Longrightarrow> 0 < si_size (st_info sn) \<Longrightarrow>
   \<exists>ts. read_chain (\<lambda>_. g) i pos (sn # ts) \<and> length ts = depth_of sn"
proof (induction "depth_of sn" arbitrary: i pos sn rule: less_induct)
  case less
  show ?case
  proof (cases "st_delta sn")
    case None
    then show ?thesis using less.prems by (intro exI [of _ "[]"]) (simp add: depth_of_def)
  next
    case (Some d)
    then obtain p where p: "g (dl_parent d) = Some p" "stored_createdAt p = dl_parentCreatedAt d"
      "dl_depth d = Suc (depth_of p)" "0 < si_size (st_info p)"
      using less.prems(1,2) unfolding parents_ok_def by blast
    then have "depth_of p < depth_of sn" using Some by (simp add: depth_of_def)
    then obtain ts where "read_chain (\<lambda>_. g) (Suc i) (dl_parent d) (p # ts)" "length ts = depth_of p"
      using less.hyps [of p "dl_parent d" "Suc i"] less.prems(1) p(1,4) by blast
    then show ?thesis
      using less.prems p Some by (intro exI [of _ "p # ts"]) (simp add: depth_of_def)
  qed
qed

lemma resolve_chain:
  assumes "read_chain gs 0 key (sn # ts)" and "length ts \<le> MAX_CHAIN"
  shows "resolve n gs key = Inr (Some (baseOf (build_layer n sn ts), chain_keys key (sn # ts)))"
  using resolve_loop_complete [of gs "[]" key "sn # ts" key "[]"] assms
  by (simp add: resolve_def over_last_def)

lemma resolve_stored:
  assumes "parents_ok g" and "keys_ok g" and "contents_ok g"
    and "g key = Some sn" and "0 < si_size (st_info sn)" and "depth_of sn \<le> MAX_CHAIN"
  obtains ts where "resolve n (\<lambda>_. g) key =
      Inr (Some (baseOf (build_layer n sn ts), map (\<lambda>x. si_key (st_info x)) (sn # ts)))"
    and "layer_wf (build_layer n sn ts)" and "read_chain (\<lambda>_. g) 0 key (sn # ts)" and "length ts = depth_of sn"
proof -
  obtain ts where ts: "read_chain (\<lambda>_. g) 0 key (sn # ts)" "length ts = depth_of sn"
    using parents_chain [OF assms(1,4,5)] by blast
  then show ?thesis
    using that resolve_chain [OF ts(1)] chain_keys_ok [OF assms(2) ts(1)]
      read_chain_wf [OF assms(3,1) ts(1)] assms(6) by metis
qed

section \<open>Properties\<close>

text \<open>
  C11. In a store whose parents stay (C9, C10), a snapshot that was written in full, with at most
  \<open>MAX_CHAIN\<close> deltas, resolves: to layers that hold together, one more than its deltas, with a lock
  on the key of each.
\<close>

theorem resolve_finds:
  assumes "parents_ok g" and "keys_ok g" and "contents_ok g"
    and "g key = Some sn" and "0 < si_size (st_info sn)" and "depth_of sn \<le> MAX_CHAIN"
  shows "\<exists>b. resolve n (\<lambda>_. g) key = Inr (Some (b, b_keys b)) \<and> b_info b = st_info sn
    \<and> layer_wf (b_layer b) \<and> length (b_keys b) = Suc (depth_of sn) \<and> b_depth b = depth_of sn"
proof -
  obtain ts where ts: "resolve n (\<lambda>_. g) key =
      Inr (Some (baseOf (build_layer n sn ts), map (\<lambda>x. si_key (st_info x)) (sn # ts)))"
    "layer_wf (build_layer n sn ts)" "length ts = depth_of sn"
    by (rule resolve_stored [OF assms])
  then show ?thesis
    by (intro exI [of _ "baseOf (build_layer n sn ts)"])
      (simp add: baseOf_keys, simp add: baseOf_def depth_of_def)
qed

definition ex_stored :: stored_map where
  "ex_stored key = (if key = ''a'' then Some (layer_stored ex_full)
     else if key = ''b'' then Some (layer_stored ex_delta) else None)"

lemma ex_stored_ok: "parents_ok ex_stored" "keys_ok ex_stored" "contents_ok ex_stored"
  by (auto simp: parents_ok_def keys_ok_def contents_ok_def ex_stored_def ex_full_def ex_delta_def ex_info_def
      depth_of_def content_fits_def)

theorem resolve_finds_witness:
  "\<exists>b. resolve 0 (\<lambda>_. ex_stored) ''b'' = Inr (Some (b, b_keys b)) \<and> length (b_keys b) = 2"
proof -
  have "ex_stored ''b'' = Some (layer_stored ex_delta)" "0 < si_size (st_info (layer_stored ex_delta))"
    "depth_of (layer_stored ex_delta) = 1"
    by (simp_all add: ex_stored_def ex_delta_def ex_info_def depth_of_def)
  then show ?thesis
    using resolve_finds [OF ex_stored_ok, of "''b''" "layer_stored ex_delta" 0] by (auto simp: MAX_CHAIN_def)
qed

text \<open>
  C12. Even if the store changes between the reads, what resolves is consistent: a full snapshot and
  deltas each written over the one below, none of them empty, at most \<open>MAX_CHAIN\<close> deltas, each read
  under the key the delta above names; and a lock is held on each of those keys.
\<close>

theorem resolve_consistent:
  assumes "resolve n gs key = Inr (Some (b, held))"
  shows "\<exists>ss. read_chain gs 0 key ss \<and> map layer_stored (layer_chain (b_layer b)) = ss
    \<and> length ss \<le> Suc MAX_CHAIN \<and> held = chain_keys key ss \<and> b_info b = st_info (hd ss)"
proof -
  obtain found where f: "resolve_loop gs key key [] [] = Inr (Some (found, held))"
    and b: "b = baseOf (build_layer n (hd found) (tl found))"
    using assms by (auto simp: resolve_def and_then_eq_Inr)
  have ss: "read_chain gs 0 key found" "length found \<le> Suc MAX_CHAIN" "held = chain_keys key found"
    using resolve_loop_sound [OF f] by auto
  then have "found = hd found # tl found" by (cases found) auto
  moreover have "map layer_stored (layer_chain (b_layer b)) = hd found # tl found"
    unfolding b by (simp add: baseOf_def build_layer_stored)
  ultimately show ?thesis using ss b by (auto simp: baseOf_def)
qed

theorem resolve_consistent_witness:
  "\<exists>b held ss. resolve 0 (\<lambda>i. if i = 0 then ex_stored(''a'' := None) else ex_stored) ''b'' = Inr (Some (b, held))
    \<and> map layer_stored (layer_chain (b_layer b)) = ss \<and> length ss \<le> Suc MAX_CHAIN"
proof -
  let ?gs = "\<lambda>i::nat. if i = 0 then ex_stored(''a'' := None) else ex_stored"
  have "read_chain ?gs 0 ''b'' [layer_stored ex_delta, layer_stored ex_full]"
    by (simp add: ex_stored_def ex_delta_def ex_full_def ex_info_def)
  then have "resolve 0 ?gs ''b'' =
      Inr (Some (baseOf (build_layer 0 (layer_stored ex_delta) [layer_stored ex_full]),
        chain_keys ''b'' [layer_stored ex_delta, layer_stored ex_full]))"
    by (rule resolve_chain) (simp add: MAX_CHAIN_def)
  with resolve_consistent [OF this] show ?thesis by blast
qed

end
