(* ===== verification/New_Snapshot.thy ===== *)
theory New_Snapshot
  imports Snapshot_Resolve
begin

text \<open>
  What saving a database writes (\<open>newSnapshot\<close> of snapshots.ts): the pages it holds over the snapshot
  it reads, as a delta or in full; and the round trip, from a save through a store to opening it.
\<close>

text \<open>\<open>Pages\<close> of Database.ts: the chunks a database holds, each by index and pointer into the heap.\<close>

record pages_held =
  pg_chunkSize :: nat
  pg_size :: nat
  pg_visible :: nat
  pg_pages :: "(nat \<times> nat) list"

definition MAX_DEPTH :: nat where "MAX_DEPTH = 8"

definition deltaOf :: "base option \<Rightarrow> string \<Rightarrow> nat \<Rightarrow> nat \<Rightarrow> nat \<Rightarrow> nat \<Rightarrow> nat \<Rightarrow> new_delta option" where
  "deltaOf base branch maxDepth visible size' count chunkSize =
     (case base of
        None \<Rightarrow> None
      | Some b \<Rightarrow>
          if 0 < visible \<and> si_branch (b_info b) = branch
          then (let by = count * chunkSize;
                    depth = b_depth b + 1;
                    chainBytes = b_chainBytes b + by
                in if depth \<le> maxDepth \<and> by * 2 \<le> size' \<and> chainBytes \<le> size'
                   then Some \<lparr>nd_parent = si_key (b_info b), nd_parentCreatedAt = si_createdAt (b_info b),
                              nd_depth = depth, nd_chainBytes = chainBytes\<rparr>
                   else None)
          else None)"

definition newSnapshot ::
  "bytes \<Rightarrow> pages_held \<Rightarrow> base option \<Rightarrow> string \<Rightarrow> string \<Rightarrow> snapshot_meta \<Rightarrow> nat \<Rightarrow> new_snapshot result" where
  "newSnapshot heap pg base key branch meta maxDepth =
     (let cs = pg_chunkSize pg;
          n = pg_size pg;
          visible = pg_visible pg
      in if 0 < visible \<and> base = None then Inl (SqliteError SQLITE_MISUSE)
         else let pages = filter (\<lambda>(index, _). index * cs < n) (pg_pages pg)
              in Inr \<lparr>ns_key = key, ns_branch = branch, ns_meta = meta,
                   ns_base = (case base of
                       None \<Rightarrow> Inr None
                     | Some b \<Rightarrow> and_then (base_content b 0 (si_size (b_info b))) (\<lambda>src. Inr (Some src))),
                   ns_baseRange = map_option base_content base,
                   ns_visible = visible, ns_size = n, ns_chunkSize = cs,
                   ns_pages = map fst pages,
                   ns_page = (\<lambda>i. let pointer = snd (pages ! i) in subarray heap pointer (pointer + cs)),
                   ns_delta = deltaOf base branch maxDepth visible n (length pages) cs\<rparr>)"

section \<open>What newSnapshot gives is in order\<close>

text \<open>
  What \<open>alinea_pages\<close> reports: chunks in ascending order, each a chunk of the heap; what is visible
  of the base is there.
\<close>

definition pages_held_ok :: "bytes \<Rightarrow> pages_held \<Rightarrow> base option \<Rightarrow> bool" where
  "pages_held_ok heap pg base \<longleftrightarrow> 0 < pg_chunkSize pg \<and> sorted_wrt (<) (map fst (pg_pages pg))
     \<and> (\<forall>(index, pointer) \<in> set (pg_pages pg). pointer + pg_chunkSize pg \<le> length heap)
     \<and> (\<forall>b. base = Some b \<longrightarrow> pg_visible pg \<le> si_size (b_info b))"

definition base_wf :: "base option \<Rightarrow> bool" where
  "base_wf base = (case base of None \<Rightarrow> True | Some b \<Rightarrow> layer_wf (b_layer b) \<and> b = baseOf (b_layer b))"

definition old_bytes :: "base option \<Rightarrow> bytes" where
  "old_bytes base = (case base of None \<Rightarrow> [] | Some b \<Rightarrow> layer_bytes (b_layer b))"

lemma newSnapshot_fields:
  assumes "newSnapshot heap pg base key branch meta maxDepth = Inr s"
  shows "ns_key s = key" "ns_branch s = branch" "ns_size s = pg_size pg" "ns_visible s = pg_visible pg"
    "ns_chunkSize s = pg_chunkSize pg"
    "ns_delta s = deltaOf base branch maxDepth (pg_visible pg) (pg_size pg) (length (ns_pages s)) (pg_chunkSize pg)"
  using assms by (auto simp: newSnapshot_def Let_def split: if_splits)

lemma newSnapshot_pages_ok:
  assumes "newSnapshot heap pg base key branch meta maxDepth = Inr s" and "pages_held_ok heap pg base"
  shows "ns_pages_ok s"
proof -
  define pages where "pages = filter (\<lambda>(index, _). index * pg_chunkSize pg < pg_size pg) (pg_pages pg)"
  have s: "ns_pages s = map fst pages"
    "\<And>i. ns_page s i = subarray heap (snd (pages ! i)) (snd (pages ! i) + pg_chunkSize pg)"
    using assms(1) by (auto simp: newSnapshot_def Let_def pages_def split: if_splits)
  have "sorted_wrt (<) (map fst pages)"
    using assms(2) unfolding pages_def pages_held_ok_def
    by (auto simp: sorted_wrt_map intro: sorted_wrt_filter)
  moreover have "\<forall>i \<in> set (map fst pages). i * pg_chunkSize pg < pg_size pg"
    by (auto simp: pages_def)
  moreover have "length (ns_page s k) = pg_chunkSize pg" if "k < length pages" for k
  proof -
    have "pages ! k \<in> set (pg_pages pg)" using nth_mem [OF that] by (auto simp: pages_def)
    then have "snd (pages ! k) + pg_chunkSize pg \<le> length heap"
      using assms(2) unfolding pages_held_ok_def by (cases "pages ! k") auto
    then show ?thesis by (simp add: s)
  qed
  ultimately show ?thesis
    using assms(2) newSnapshot_fields [OF assms(1)]
    by (simp add: ns_pages_ok_def s(1) pages_held_ok_def)
qed

lemma newSnapshot_base_ok:
  assumes "newSnapshot heap pg base key branch meta maxDepth = Inr s" and "pages_held_ok heap pg base"
    and "base_wf base"
  shows "ns_base_ok s (old_bytes base)"
proof (cases base)
  case None
  then show ?thesis
    using assms(1) by (auto simp: newSnapshot_def Let_def ns_base_ok_def old_bytes_def split: if_splits)
next
  case (Some b)
  let ?l = "b_layer b"
  have wf: "layer_wf ?l" and b: "b_info b = layer_info ?l"
    using assms(3) Some by (auto simp: base_wf_def) (metis baseOf_def base.select_convs(1))
  have vis: "pg_visible pg \<le> length (layer_bytes ?l)"
    using assms(2) Some layer_wf_length [OF wf] b by (simp add: pages_held_ok_def)
  obtain src where src: "layerContent ?l 0 (si_size (layer_info ?l)) = Inr src" "source_bytes src = layer_bytes ?l"
    using layerContent_ok [OF wf, of 0 "si_size (layer_info ?l)"] layer_wf_length [OF wf] by auto
  have s: "ns_visible s = pg_visible pg" "ns_base s = Inr (Some src)" "ns_baseRange s = Some (base_content b)"
    using assms(1) Some src b by (auto simp: newSnapshot_def Let_def base_content_def split: if_splits)
  have "\<exists>src. base_content b i e = Inr src \<and> source_bytes src = subarray (layer_bytes ?l) i e"
    if "i \<le> e" "e \<le> pg_visible pg" for i e
    using layerContent_ok [OF wf that(1)] that(2) vis layer_wf_length [OF wf] by (simp add: base_content_def)
  then show ?thesis using s src vis Some by (auto simp: ns_base_ok_def old_bytes_def)
qed

section \<open>From a save to opening it\<close>

text \<open>The bytes of layers do not depend on the objects.\<close>

lemma build_layer_bytes: "layer_bytes (build_layer n sn ts) = layer_bytes (build_layer m sn ts)"
proof (induction ts arbitrary: n m sn)
  case (Cons t ts)
  show ?case using Cons.IH [of "Suc n" t "Suc m"] by (simp split: option.split)
qed simp

lemma read_chain_unique:
  "read_chain (\<lambda>_. g) i pos ss \<Longrightarrow> read_chain (\<lambda>_. g) j pos ss' \<Longrightarrow> ss = ss'"
proof (induction ss arbitrary: i j pos ss')
  case Nil
  then show ?case by simp
next
  case (Cons sn ts)
  then obtain ts' where ss': "ss' = sn # ts'" by (cases ss') auto
  show ?case
  proof (cases "st_delta sn")
    case None
    then show ?thesis using Cons.prems by (simp add: ss')
  next
    case (Some d)
    then show ?thesis
      using Cons.prems Cons.IH [of "Suc i" "dl_parent d" "Suc j" ts'] by (simp add: ss')
  qed
qed

text \<open>A snapshot stored under a new key leaves the others, and what lies under them, as they were.\<close>

lemma read_chain_new_key:
  "g key = None \<Longrightarrow> read_chain (\<lambda>_. g) i pos ss \<Longrightarrow> read_chain (\<lambda>_. g(key \<mapsto> sn)) i pos ss"
proof (induction ss arbitrary: i pos)
  case Nil
  then show ?case by simp
next
  case (Cons s ts)
  then show ?case by (cases "st_delta s") auto
qed

text \<open>
  The base of a database that saves: what is in the store when the new snapshot is added resolves to
  it.
\<close>

definition reads_base :: "stored_map \<Rightarrow> base option \<Rightarrow> bool" where
  "reads_base g base \<longleftrightarrow> (\<forall>b. base = Some b \<longrightarrow>
     (\<exists>n held. resolve n (\<lambda>_. g) (si_key (b_info b)) = Inr (Some (b, held))))"

lemma reads_baseD:
  assumes "parents_ok g" and "contents_ok g" and "reads_base g (Some b)"
  obtains n sn ts where "b = baseOf (build_layer n sn ts)"
    and "read_chain (\<lambda>_. g) 0 (si_key (b_info b)) (sn # ts)" and "base_wf (Some b)"
proof -
  obtain n held where r: "resolve n (\<lambda>_. g) (si_key (b_info b)) = Inr (Some (b, held))"
    using assms(3) by (auto simp: reads_base_def)
  obtain found where f: "resolve_loop (\<lambda>_. g) (si_key (b_info b)) (si_key (b_info b)) [] [] = Inr (Some (found, held))"
    and b: "b = baseOf (build_layer n (hd found) (tl found))"
    using r by (auto simp: resolve_def and_then_eq_Inr)
  have ss: "read_chain (\<lambda>_. g) 0 (si_key (b_info b)) found"
    using resolve_loop_sound [OF f] by auto
  then obtain sn ts where found: "found = sn # ts" by (cases found) auto
  have "layer_wf (b_layer b)"
    using read_chain_wf [OF assms(2,1)] ss found b by (auto simp: baseOf_def)
  then have "base_wf (Some b)" by (simp add: base_wf_def b) (simp add: baseOf_def)
  then show ?thesis using that b ss found by auto
qed

lemma reads_base_wf:
  assumes "parents_ok g" and "contents_ok g" and "reads_base g base"
  shows "base_wf base"
proof (cases base)
  case (Some b)
  then show ?thesis using reads_baseD [OF assms(1,2), of b] assms(3) by blast
qed (simp add: base_wf_def)

lemma base_info: "b_info (baseOf (build_layer n sn ts)) = st_info sn"
  by (simp add: baseOf_def)

text \<open>What a save adds fits the store: its depth counts from the base, which is in the store.\<close>

lemma save_fits:
  assumes "parents_ok g" and "contents_ok g" and "reads_base g base" and "pages_held_ok heap pg base"
    and "newSnapshot heap pg base key branch meta maxDepth = Inr s"
    and "case ns_delta s of None \<Rightarrow> source_bytes src = new_bytes s (old_bytes base)
         | Some _ \<Rightarrow> source_bytes src = pages_bytes s"
  shows "fits g (Add t s src)"
proof (cases "ns_delta s")
  case None
  then show ?thesis using assms(6) by (simp add: fits_def content_fits_def new_bytes_def)
next
  case (Some nd)
  have pages: "ns_pages_ok s" by (rule newSnapshot_pages_ok [OF assms(5,4)])
  obtain b where b: "base = Some b" "nd_parent nd = si_key (b_info b)" "nd_depth nd = b_depth b + 1"
    using Some newSnapshot_fields(6) [OF assms(5)]
    by (auto simp: deltaOf_def Let_def split: option.splits if_splits)
  obtain n sn ts where sn: "b = baseOf (build_layer n sn ts)" "read_chain (\<lambda>_. g) 0 (si_key (b_info b)) (sn # ts)"
    using reads_baseD [OF assms(1,2), of b] assms(3) b(1) by blast
  have "length (pages_bytes s) = length (ns_pages s) * ns_chunkSize s"
    unfolding pages_bytes_def
    using length_concat_blocks [of 0 "length (ns_pages s)" "ns_page s" "ns_chunkSize s"] ns_pages_okD(3) [OF pages]
    by simp
  then have "content_fits (Some (layoutOf s nd)) (ns_size s) src"
    using assms(6) Some ns_pages_okD(1) [OF pages] by (simp add: content_fits_def layoutOf_def)
  moreover have "b_depth b = depth_of sn" by (simp add: sn(1) baseOf_def depth_of_def)
  moreover have "ns_visible s \<le> si_size (st_info sn)"
    using assms(4) b(1) newSnapshot_fields(4) [OF assms(5)] sn(1) by (simp add: pages_held_ok_def base_info)
  ultimately show ?thesis
    using Some b sn(2) by (simp add: fits_def)
qed

text \<open>After it is added, opening the key gives a layer of the new content.\<close>

lemma save_resolves:
  assumes "parents_ok g" and "contents_ok g" and "reads_base g base" and "pages_held_ok heap pg base"
    and "newSnapshot heap pg base key branch meta maxDepth = Inr s" and "maxDepth \<le> MAX_CHAIN"
    and "0 < pg_size pg" and "g key = None"
    and "case ns_delta s of None \<Rightarrow> source_bytes src = new_bytes s (old_bytes base)
         | Some _ \<Rightarrow> source_bytes src = pages_bytes s"
    and "g' = g(key \<mapsto> storedAs s c src)"
    and "parents_ok g'" and "keys_ok g'" and "contents_ok g'"
  shows "\<exists>b'. resolve m (\<lambda>_. g') key = Inr (Some (b', b_keys b')) \<and> layer_wf (b_layer b')
    \<and> layer_bytes (b_layer b') = new_bytes s (old_bytes base)"
proof -
  note f = newSnapshot_fields [OF assms(5)]
  let ?sn = "storedAs s c src"
  have depth: "depth_of ?sn \<le> MAX_CHAIN"
    using f(6) assms(6)
    by (cases base) (auto simp: depth_of_def storedAs_def layoutOf_def deltaOf_def Let_def split: if_splits)
  obtain ts where r: "resolve m (\<lambda>_. g') key =
      Inr (Some (baseOf (build_layer m ?sn ts), map (\<lambda>x. si_key (st_info x)) (?sn # ts)))"
    and wf: "layer_wf (build_layer m ?sn ts)" and ch: "read_chain (\<lambda>_. g') 0 key (?sn # ts)"
    using resolve_stored [OF assms(11-13), of key ?sn] depth assms(7,10) f(3) by (metis fun_upd_same storedAs_simps(4))
  have "layer_bytes (build_layer m ?sn ts) = new_bytes s (old_bytes base)"
  proof (cases "ns_delta s")
    case None
    then have "ts = []" using ch by simp
    then show ?thesis using assms(9) None by simp
  next
    case (Some nd)
    obtain b where b: "base = Some b" "nd_parent nd = si_key (b_info b)"
      using Some f(6) by (auto simp: deltaOf_def Let_def split: option.splits if_splits)
    obtain n sn us where us: "b = baseOf (build_layer n sn us)" "read_chain (\<lambda>_. g) 0 (si_key (b_info b)) (sn # us)"
      using reads_baseD [OF assms(1,2), of b] assms(3) b(1) by blast
    have "read_chain (\<lambda>_. g') (Suc 0) (nd_parent nd) ts"
      using ch Some by (simp add: layoutOf_def)
    moreover have "read_chain (\<lambda>_. g') 0 (nd_parent nd) (sn # us)"
      using read_chain_new_key [of g key, OF assms(8) us(2)] b(2) assms(10) by simp
    ultimately have ts: "ts = sn # us" by (rule read_chain_unique)
    have "old_bytes base = layer_bytes (build_layer (Suc m) sn us)"
      using build_layer_bytes [of n sn us] by (simp add: old_bytes_def b(1) us(1) baseOf_def)
    then show ?thesis
      using origin_new [OF newSnapshot_pages_ok [OF assms(5,4)], of "old_bytes base" nd] assms(9) Some
      by (simp add: ts new_bytes_def)
  qed
  then show ?thesis
    using r wf by (intro exI [of _ "baseOf (build_layer m ?sn ts)"]) (simp add: baseOf_keys, simp add: baseOf_def)
qed

section \<open>Properties\<close>

text \<open>
  C13. A save through the memory store, and then opening its key, gives the content of the database
  that was saved: its pages over what shows of its base. Other operations may run between the two
  parts of the write (it may begin in another state), as long as the base is still there at its end.
  And the store stays in order.
\<close>

theorem memory_save_round_trip:
  assumes "mem_ok st" and "parents_ok (mem_get st)" and "keys_ok (mem_get st)" and "contents_ok (mem_get st)"
    and "reads_base (mem_get st) base" and "pages_held_ok heap pg base"
    and "newSnapshot heap pg base key branch meta maxDepth = Inr s" and "maxDepth \<le> MAX_CHAIN"
    and "0 < pg_size pg"
    and "mem_write_begin st0 s = Inr (Some d)" and "mem_write_end now st s d = Inr (st', Some sn)"
  shows "(\<exists>b'. resolve n (\<lambda>_. mem_get st') key = Inr (Some (b', b_keys b'))
      \<and> layer_bytes (b_layer b') = new_bytes s (old_bytes base))
    \<and> mem_ok st' \<and> parents_ok (mem_get st') \<and> keys_ok (mem_get st') \<and> contents_ok (mem_get st')"
proof -
  note f = newSnapshot_fields [OF assms(7)]
  have d: "memory_data s = Inr d"
    using assms(10) by (auto simp: mem_write_begin_def and_then_eq_Inr split: if_splits)
  have "base_wf base" by (rule reads_base_wf [OF assms(2,4,5)])
  note old = newSnapshot_base_ok [OF assms(7,6) this]
  note pages = newSnapshot_pages_ok [OF assms(7,6)]
  have src: "case ns_delta s of None \<Rightarrow> source_bytes (Bytes d) = new_bytes s (old_bytes base)
      | Some _ \<Rightarrow> source_bytes (Bytes d) = pages_bytes s"
    using d memory_full [OF pages old] memory_delta [OF pages] by (cases "ns_delta s") auto
  have add: "mem_add now st s (Bytes d) = Inr (st', Some sn)" using assms(11) by (simp add: mem_add_def)
  note step = mem.add_Some [OF assms(1) add]
  have "foldl mem.step st [Add now s (Bytes d)] = st'"
    using add by (simp add: mem.step_def store_step_def)
  moreover have "run_fits mem_get mem.step st [Add now s (Bytes d)]"
    using save_fits [OF assms(2,4,5,6,7) src] by simp
  ultimately have ok: "mem_ok st' \<and> parents_ok (mem_get st') \<and> keys_ok (mem_get st') \<and> contents_ok (mem_get st')"
    using mem.run_ok [OF assms(1-4), of "[Add now s (Bytes d)]"] by simp
  obtain c src' where sn: "sn = storedAs s c src'" "source_bytes src' = d"
    and st': "mem_get st' = (mem_get st)(key \<mapsto> sn)" and new: "mem_get st key = None"
    using step f(1) by auto
  have "case ns_delta s of None \<Rightarrow> source_bytes src' = new_bytes s (old_bytes base)
      | Some _ \<Rightarrow> source_bytes src' = pages_bytes s"
    using src sn(2) by (simp split: option.splits)
  then show ?thesis
    using save_resolves [OF assms(2,4,5,6,7,8,9) new, of src' "mem_get st'" c] st' sn(1) ok
    by blast
qed

text \<open>C14. The same of the IndexedDB store: its Blob is made first, and added in a transaction.\<close>

theorem idb_save_round_trip:
  assumes "idb_ok st" and "parents_ok (idb_get st)" and "keys_ok (idb_get st)" and "contents_ok (idb_get st)"
    and "reads_base (idb_get st) base" and "pages_held_ok heap pg base"
    and "newSnapshot heap pg base key branch meta maxDepth = Inr s" and "maxDepth \<le> MAX_CHAIN"
    and "0 < pg_size pg"
    and "idb_write_begin st0 s = Inr (Some b)" and "idb_add now st s b = Inr (st', Some sn)"
  shows "(\<exists>b'. resolve n (\<lambda>_. idb_get st') key = Inr (Some (b', b_keys b'))
      \<and> layer_bytes (b_layer b') = new_bytes s (old_bytes base))
    \<and> idb_ok st' \<and> parents_ok (idb_get st') \<and> keys_ok (idb_get st') \<and> contents_ok (idb_get st')"
proof -
  note f = newSnapshot_fields [OF assms(7)]
  have b: "idb_blob s = Inr b"
    using assms(10) by (auto simp: idb_write_begin_def and_then_eq_Inr split: if_splits)
  have "base_wf base" by (rule reads_base_wf [OF assms(2,4,5)])
  note old = newSnapshot_base_ok [OF assms(7,6) this]
  note pages = newSnapshot_pages_ok [OF assms(7,6)]
  have src: "case ns_delta s of None \<Rightarrow> source_bytes b = new_bytes s (old_bytes base)
      | Some _ \<Rightarrow> source_bytes b = pages_bytes s"
    using b stores_write_full [OF pages old] idb_delta [OF pages] by (cases "ns_delta s") auto
  note step = idb.add_Some [OF assms(1,11)]
  have "foldl idb.step st [Add now s b] = st'"
    using assms(11) by (simp add: idb.step_def store_step_def)
  moreover have "run_fits idb_get idb.step st [Add now s b]"
    using save_fits [OF assms(2,4,5,6,7) src] by simp
  ultimately have ok: "idb_ok st' \<and> parents_ok (idb_get st') \<and> keys_ok (idb_get st') \<and> contents_ok (idb_get st')"
    using idb.run_ok [OF assms(1-4), of "[Add now s b]"] by simp
  obtain c src' where sn: "sn = storedAs s c src'" "source_bytes src' = source_bytes b"
    and st': "idb_get st' = (idb_get st)(key \<mapsto> sn)" and new: "idb_get st key = None"
    using step f(1) by auto
  have "case ns_delta s of None \<Rightarrow> source_bytes src' = new_bytes s (old_bytes base)
      | Some _ \<Rightarrow> source_bytes src' = pages_bytes s"
    using src sn(2) by (simp split: option.splits)
  then show ?thesis
    using save_resolves [OF assms(2,4,5,6,7,8,9) new, of src' "idb_get st'" c] st' sn(1) ok by blast
qed

text \<open>
  A first save of six bytes, and then one of a database that reads it and changed its last page,
  which makes a delta.
\<close>

definition ex_heap :: bytes where "ex_heap = [9, 9, 1, 2, 3, 4, 7, 8]"

definition ex_first :: pages_held where
  "ex_first = \<lparr>pg_chunkSize = 2, pg_size = 6, pg_visible = 0, pg_pages = [(0, 2), (1, 4), (2, 0)]\<rparr>"

definition ex_second :: pages_held where
  "ex_second = \<lparr>pg_chunkSize = 2, pg_size = 6, pg_visible = 6, pg_pages = [(2, 6)]\<rparr>"

definition ex_stored_first :: stored_snapshot where
  "ex_stored_first = \<lparr>st_info = \<lparr>si_key = ''a'', si_branch = [], si_meta = [], si_createdAt = 5,
     si_size = 6, si_parent = None\<rparr>, st_source = Bytes [1, 2, 3, 4, 9, 9], st_delta = None\<rparr>"

definition ex_mem :: mem_store where
  "ex_mem = \<lparr>ms_bases = [(''a'', \<lparr>mb_info = st_info ex_stored_first, mb_data = [1, 2, 3, 4, 9, 9], mb_delta = None\<rparr>)],
     ms_last = 5\<rparr>"

definition ex_base :: base where
  "ex_base = baseOf (build_layer 0 ex_stored_first [])"

lemma ex_mem_get: "mem_get ex_mem = [''a'' \<mapsto> ex_stored_first]"
  by (rule ext) (simp add: mem_get_def ex_mem_def ex_stored_first_def)

lemma ex_mem_ok:
  "mem_ok ex_mem" "parents_ok (mem_get ex_mem)" "keys_ok (mem_get ex_mem)" "contents_ok (mem_get ex_mem)"
proof -
  show "mem_ok ex_mem"
    by (auto simp: mem_ok_def map_ok_def ex_mem_def ex_stored_first_def split: if_splits)
  show "parents_ok (mem_get ex_mem)" "keys_ok (mem_get ex_mem)" "contents_ok (mem_get ex_mem)"
    unfolding ex_mem_get parents_ok_def keys_ok_def contents_ok_def
    by (auto simp: ex_stored_first_def content_fits_def split: if_splits)
qed

lemma ex_reads_base: "reads_base [''a'' \<mapsto> ex_stored_first] (Some ex_base)"
proof -
  have "read_chain (\<lambda>_. [''a'' \<mapsto> ex_stored_first]) 0 ''a'' [ex_stored_first]"
    by (simp add: ex_stored_first_def)
  from resolve_chain [OF this, of 0]
  have "resolve 0 (\<lambda>_. [''a'' \<mapsto> ex_stored_first]) ''a'' = Inr (Some (ex_base, [''a'']))"
    by (simp add: ex_base_def) (simp add: ex_stored_first_def)
  moreover have "si_key (b_info ex_base) = ''a''"
    by (simp add: ex_base_def base_info ex_stored_first_def del: build_layer.simps)
  ultimately show ?thesis unfolding reads_base_def by auto
qed

lemma ex_pages_held: "pages_held_ok ex_heap ex_second (Some ex_base)"
  by (simp add: pages_held_ok_def ex_heap_def ex_second_def ex_base_def base_info ex_stored_first_def
      del: build_layer.simps)

definition ex_save :: new_snapshot where
  "ex_save = (case newSnapshot ex_heap ex_second (Some ex_base) ''b'' [] [] 8 of Inr s \<Rightarrow> s | Inl _ \<Rightarrow> ex_new)"

lemma ex_save_new: "newSnapshot ex_heap ex_second (Some ex_base) ''b'' [] [] 8 = Inr ex_save"
  by (simp add: ex_save_def newSnapshot_def Let_def)

lemma ex_save_fields:
  "ns_key ex_save = ''b''" "ns_pages ex_save = [2]" "ns_chunkSize ex_save = 2" "ns_size ex_save = 6"
  "ns_visible ex_save = 6" "ns_page ex_save = (\<lambda>i. subarray ex_heap (snd ([(2::nat, 6)] ! i)) (snd ([(2::nat, 6)] ! i) + 2))"
  "ns_delta ex_save = Some \<lparr>nd_parent = ''a'', nd_parentCreatedAt = 5, nd_depth = 1, nd_chainBytes = 2\<rparr>"
  by (simp_all add: ex_save_def newSnapshot_def Let_def ex_second_def deltaOf_def ex_base_def baseOf_def
      ex_stored_first_def)

lemma ex_save_bytes: "new_bytes ex_save (old_bytes (Some ex_base)) = [1, 2, 3, 4, 7, 8]"
  by (simp add: new_bytes_def ns_byte_def ex_save_fields slots_def old_bytes_def ex_base_def baseOf_def
      ex_stored_first_def byte_or_0_def upt_conv_Cons subarray_def ex_heap_def)

theorem memory_save_round_trip_witness:
  "\<exists>st' sn b'. mem_write_end 7 ex_mem ex_save [7, 8] = Inr (st', Some sn)
    \<and> resolve 3 (\<lambda>_. mem_get st') ''b'' = Inr (Some (b', b_keys b')) \<and> layer_bytes (b_layer b') = [1, 2, 3, 4, 7, 8]"
proof -
  have b: "mem_write_begin ex_mem ex_save = Inr (Some [7, 8])"
    by (simp add: mem_write_begin_def ex_mem_def ex_save_fields mem_missing_def ex_stored_first_def
        memory_data_def subarray_def ex_heap_def overwrite_def)
  obtain st' sn where e: "mem_write_end 7 ex_mem ex_save [7, 8] = Inr (st', Some sn)"
    by (simp add: mem_write_end_def ex_mem_def ex_save_fields mem_missing_def ex_stored_first_def Let_def)
  have "reads_base (mem_get ex_mem) (Some ex_base)" unfolding ex_mem_get by (rule ex_reads_base)
  note memory_save_round_trip [OF ex_mem_ok this ex_pages_held ex_save_new _ _ b e, of 3]
  then have "\<exists>b'. resolve 3 (\<lambda>_. mem_get st') ''b'' = Inr (Some (b', b_keys b'))
      \<and> layer_bytes (b_layer b') = [1, 2, 3, 4, 7, 8]"
    by (simp add: MAX_CHAIN_def ex_second_def ex_save_bytes)
  with e show ?thesis by blast
qed

definition ex_idb :: idb_store where
  "ex_idb = [(''a'', \<lparr>ir_key = ''a'', ir_branch = [], ir_meta = [], ir_createdAt = 5, ir_size = 6,
     ir_blob = Bytes [1, 2, 3, 4, 9, 9], ir_delta = None, ir_parent = None\<rparr>)]"

lemma ex_idb_get: "idb_get ex_idb = [''a'' \<mapsto> ex_stored_first]"
  by (rule ext) (simp add: idb_get_def ex_idb_def ex_stored_first_def idb_info_def)

theorem idb_save_round_trip_witness:
  "\<exists>st' sn b'. idb_add 7 ex_idb ex_save (Blob [7, 8]) = Inr (st', Some sn)
    \<and> resolve 3 (\<lambda>_. idb_get st') ''b'' = Inr (Some (b', b_keys b')) \<and> layer_bytes (b_layer b') = [1, 2, 3, 4, 7, 8]"
proof -
  have ok: "idb_ok ex_idb" by (simp add: idb_ok_def ex_idb_def map_ok_def)
  have gets: "parents_ok (idb_get ex_idb)" "keys_ok (idb_get ex_idb)" "contents_ok (idb_get ex_idb)"
    "reads_base (idb_get ex_idb) (Some ex_base)"
    using ex_mem_ok ex_reads_base by (simp_all add: ex_idb_get ex_mem_get)
  have b: "idb_write_begin ex_idb ex_save = Inr (Some (Blob [7, 8]))"
  proof -
    have "idb_blob ex_save = Inr (Blob (pages_bytes ex_save))"
      using idb_delta [OF newSnapshot_pages_ok [OF ex_save_new ex_pages_held]] ex_save_fields(7) by simp
    then show ?thesis
      by (simp add: idb_write_begin_def ex_idb_def ex_save_fields pages_bytes_def subarray_def ex_heap_def)
  qed
  obtain st' sn where e: "idb_add 7 ex_idb ex_save (Blob [7, 8]) = Inr (st', Some sn)"
    by (simp add: idb_add_def idb_transaction_def idb_add_unless_def ex_idb_def ex_save_fields idb_recordOf_def)
  note idb_save_round_trip [OF ok gets(1-3) gets(4) ex_pages_held ex_save_new _ _ b e, of 3]
  then have "\<exists>b'. resolve 3 (\<lambda>_. idb_get st') ''b'' = Inr (Some (b', b_keys b'))
      \<and> layer_bytes (b_layer b') = [1, 2, 3, 4, 7, 8]"
    by (simp add: MAX_CHAIN_def ex_second_def ex_save_bytes)
  with e show ?thesis by blast
qed

end
