(* ===== verification/Snapshot_Compare.thy ===== *)
theory Snapshot_Compare
  imports New_Snapshot
begin

text \<open>
  Comparing a snapshot that exists with what a save would write: \<open>equal\<close>, \<open>holds\<close> and \<open>sameDelta\<close> of
  snapshots.ts, and \<open>existing\<close>, which decides what a save does with a key that exists.
\<close>

section \<open>equal\<close>

text \<open>The \<open>i\<close>-th element of a \<open>Uint32Array\<close> over \<open>a\<close>, little-endian.\<close>

definition u32_at :: "bytes \<Rightarrow> nat \<Rightarrow> nat" where
  "u32_at a i = unat (a ! (4 * i)) + 256 * unat (a ! (4 * i + 1))
     + 65536 * unat (a ! (4 * i + 2)) + 16777216 * unat (a ! (4 * i + 3))"

text \<open>\<open>aligned\<close>: both views start at a multiple of four bytes of their buffers.\<close>

definition equal :: "bool \<Rightarrow> bytes \<Rightarrow> bytes \<Rightarrow> bool" where
  "equal aligned a b =
     (if length a \<noteq> length b then False
      else let words = (if aligned then length a div 4 else 0)
           in list_all (\<lambda>i. u32_at a i = u32_at b i) [0..<words]
              \<and> list_all (\<lambda>i. a ! i = b ! i) [words * 4..<length a])"

lemma base_256_eq:
  fixes a b x y :: nat
  assumes "a + 256 * x = b + 256 * y" and "a < 256" and "b < 256"
  shows "a = b \<and> x = y"
proof -
  have "(a + 256 * x) mod 256 = a" "(a + 256 * x) div 256 = x"
    "(b + 256 * y) mod 256 = b" "(b + 256 * y) div 256 = y"
    using assms(2,3) by simp_all
  with assms(1) show ?thesis by metis
qed

lemma u32_at_eq:
  assumes "u32_at a i = u32_at b i" and "k < 4"
  shows "a ! (4 * i + k) = b ! (4 * i + k)"
proof -
  have lt: "unat (w :: byte) < 256" for w using unsigned_less [of w, where 'a = nat] by simp
  have split: "u32_at c i = unat (c ! (4 * i)) + 256 * (unat (c ! (4 * i + 1))
      + 256 * (unat (c ! (4 * i + 2)) + 256 * unat (c ! (4 * i + 3))))" for c
    by (simp add: u32_at_def)
  have 1: "unat (a ! (4 * i)) = unat (b ! (4 * i)) \<and> unat (a ! (4 * i + 1))
      + 256 * (unat (a ! (4 * i + 2)) + 256 * unat (a ! (4 * i + 3))) = unat (b ! (4 * i + 1))
      + 256 * (unat (b ! (4 * i + 2)) + 256 * unat (b ! (4 * i + 3)))"
    using assms(1) unfolding split by (intro base_256_eq lt)
  then have 2: "unat (a ! (4 * i + 1)) = unat (b ! (4 * i + 1)) \<and>
      unat (a ! (4 * i + 2)) + 256 * unat (a ! (4 * i + 3)) = unat (b ! (4 * i + 2)) + 256 * unat (b ! (4 * i + 3))"
    by (intro base_256_eq lt) simp
  then have 3: "unat (a ! (4 * i + 2)) = unat (b ! (4 * i + 2)) \<and> unat (a ! (4 * i + 3)) = unat (b ! (4 * i + 3))"
    by (intro base_256_eq lt) simp
  consider "k = 0" | "k = 1" | "k = 2" | "k = 3" using assms(2) by linarith
  then show ?thesis using 1 2 3 by cases (auto simp: word_unat_eq_iff)
qed

lemma equal_iff: "equal aligned a b \<longleftrightarrow> a = b"
proof
  assume eq: "equal aligned a b"
  then have len: "length a = length b" by (simp add: equal_def split: if_splits)
  let ?w = "if aligned then length a div 4 else 0"
  show "a = b"
  proof (rule nth_equalityI [OF len])
    fix i assume i: "i < length a"
    show "a ! i = b ! i"
    proof (cases "i < ?w * 4")
      case True
      then have "i div 4 < ?w" by (simp add: less_mult_imp_div_less)
      then have "u32_at a (i div 4) = u32_at b (i div 4)"
        using eq len by (auto simp: equal_def list_all_iff Let_def)
      then show ?thesis using u32_at_eq [of a "i div 4" b "i mod 4"] by simp
    next
      case False
      then show ?thesis using eq len i by (auto simp: equal_def list_all_iff Let_def)
    qed
  qed
qed (simp add: equal_def list_all_iff)

section \<open>holds\<close>

text \<open>The pages that start before \<open>stop\<close>, from the \<open>i\<close>-th on, into the bytes from \<open>pos\<close>.\<close>

function expect_pages :: "new_snapshot \<Rightarrow> nat \<Rightarrow> nat \<Rightarrow> nat \<Rightarrow> bytes \<Rightarrow> (nat \<times> bytes) result" where
  "expect_pages s pos stop i expected =
     (if i < length (ns_pages s) \<and> ns_pages s ! i * ns_chunkSize s < stop
      then let start = ns_pages s ! i * ns_chunkSize s
           in if start < pos then Inl RangeError
              else and_then (u8_set expected (subarray (ns_page s i) 0 (stop - start)) (start - pos))
                     (expect_pages s pos stop (Suc i))
      else Inr (i, expected))"
  by pat_completeness auto
termination
  by (relation "measure (\<lambda>(s, pos, stop, i, expected). length (ns_pages s) - i)") auto

declare expect_pages.simps [simp del]

definition hasBase :: "new_snapshot \<Rightarrow> bool result" where
  "hasBase s = (if ns_baseRange s \<noteq> None then Inr True else and_then (ns_base s) (\<lambda>b. Inr (b \<noteq> None)))"

definition read_step :: "nat \<Rightarrow> nat" where
  "read_step cs = max 1 (WRITE_BYTES div cs) * cs"

text \<open>
  The loop over steps of the file. With chunks of size 0 the step is not a number, and the loop ends
  after one turn. \<open>al\<close> says whether the views compared are aligned.
\<close>

function holds_from :: "(nat \<Rightarrow> nat \<Rightarrow> source result) \<Rightarrow> bool \<Rightarrow> new_snapshot \<Rightarrow> bool \<Rightarrow> nat \<Rightarrow> nat \<Rightarrow> bool result" where
  "holds_from range' al s hasb i pos =
     (if pos < ns_size s
      then let stop = min (pos + read_step (ns_chunkSize s)) (ns_size s)
           in and_then (range' pos stop) (\<lambda>actual.
              and_then (if hasb \<and> pos < ns_visible s
                        then and_then (baseRange s pos (min stop (ns_visible s)))
                               (\<lambda>src. u8_set (zeros (stop - pos)) (source_bytes src) 0)
                        else Inr (zeros (stop - pos))) (\<lambda>expected.
              and_then (expect_pages s pos stop i expected) (\<lambda>(i', expected').
                if \<not> equal al (source_bytes actual) expected' then Inr False
                else if read_step (ns_chunkSize s) = 0 then Inr True
                else holds_from range' al s hasb i' (pos + read_step (ns_chunkSize s)))))
      else Inr True)"
  by pat_completeness auto
termination
  by (relation "measure (\<lambda>(range', al, s, hasb, i, pos). ns_size s - pos)") auto

declare holds_from.simps [simp del]

definition holds :: "(nat \<Rightarrow> nat \<Rightarrow> source result) \<Rightarrow> bool \<Rightarrow> nat \<Rightarrow> new_snapshot \<Rightarrow> bool result" where
  "holds range' al n s =
     (if n = 0 \<or> n \<noteq> ns_size s then Inr False
      else and_then (hasBase s) (\<lambda>hasb. holds_from range' al s hasb 0 0))"

section \<open>sameDelta\<close>

text \<open>The pages of a layer compared with those of the snapshot, \<open>perRead\<close> at a time.\<close>

function same_pages :: "bool \<Rightarrow> source \<Rightarrow> new_snapshot \<Rightarrow> nat \<Rightarrow> bool" where
  "same_pages al src s i =
     (if i < length (ns_pages s)
      then let cs = ns_chunkSize s;
               stop = min (i + perRun cs) (length (ns_pages s));
               stored = source_bytes (slice src (i * cs) (stop * cs))
           in if list_all (\<lambda>k. equal al (subarray stored ((k - i) * cs) ((k - i) * cs + cs)) (ns_page s k)) [i..<stop]
              then same_pages al src s (i + perRun cs) else False
      else True)"
  by pat_completeness auto
termination
proof (relation "measure (\<lambda>(al, src, s, i). length (ns_pages s) - i)")
  fix al :: bool and src s i x xa xb
  assume "i < length (ns_pages s)" "x = ns_chunkSize s"
  then show "((al, src, s, i + perRun x), (al, src, s, i)) \<in> measure (\<lambda>(al, src, s, i). length (ns_pages s) - i)"
    by (auto simp: perRun_def)
qed simp

declare same_pages.simps [simp del]

text \<open>\<open>None\<close> is undefined: the layer is not a delta over \<open>current\<close> with the same layout.\<close>

definition sameDelta :: "bool \<Rightarrow> layer \<Rightarrow> base option \<Rightarrow> new_snapshot \<Rightarrow> bool option" where
  "sameDelta al l current s =
     (case (layer_delta l, current, layer_below l) of
        (Some d, Some cur, Some below) \<Rightarrow>
          if dl_parent d \<noteq> si_key (b_info cur)
             \<or> si_createdAt (layer_info below) \<noteq> si_createdAt (b_info cur)
             \<or> si_size (layer_info below) \<noteq> si_size (b_info cur)
             \<or> dl_chunkSize d \<noteq> ns_chunkSize s \<or> dl_visible d \<noteq> ns_visible s
             \<or> si_size (layer_info l) \<noteq> ns_size s
             \<or> length (dl_pages d) \<noteq> length (ns_pages s)
             \<or> list_ex (\<lambda>i. dl_pages d ! i \<noteq> ns_pages s ! i) [0..<length (dl_pages d)]
          then None else Some (same_pages al (layer_source l) s 0)
      | _ \<Rightarrow> None)"

section \<open>existing\<close>

datatype existing = Move base "string list" | Joined "snapshot_info option" | Mismatch "snapshot_info option"

definition compare_found ::
  "nat \<Rightarrow> (nat \<Rightarrow> stored_map) \<Rightarrow> bool \<Rightarrow> base option \<Rightarrow> string \<Rightarrow> new_snapshot \<Rightarrow> existing result" where
  "compare_found n gs al current key content =
     and_then (resolve n gs key) (\<lambda>found.
       case found of
         None \<Rightarrow> Inr (Mismatch None)
       | Some (b, held) \<Rightarrow>
           and_then (case sameDelta al (b_layer b) current content of
                       None \<Rightarrow> holds (base_content b) al (si_size (b_info b)) content
                     | Some same \<Rightarrow> Inr same) (\<lambda>eq.
             Inr (if eq then Move b held else Mismatch (Some (b_info b)))))"

text \<open>
  An error anywhere is a mismatch without a snapshot. \<open>n\<close> numbers new objects and \<open>gs\<close> is the store
  at each read.
\<close>

definition existing_of ::
  "nat \<Rightarrow> (nat \<Rightarrow> stored_map) \<Rightarrow> bool \<Rightarrow> bytes \<Rightarrow> pages_held \<Rightarrow> base option \<Rightarrow> string \<Rightarrow> existing" where
  "existing_of n gs al heap pg current key =
     (let res = and_then (newSnapshot heap pg current key [] [] 0) (\<lambda>content.
        case current of
          Some cur \<Rightarrow>
            if si_key (b_info cur) = key
            then Inr (if ns_pages content = [] \<and> ns_size content = si_size (b_info cur)
                      then Joined (infoOf current) else Mismatch (infoOf current))
            else compare_found n gs al current key content
        | None \<Rightarrow> compare_found n gs al current key content)
      in case res of Inl _ \<Rightarrow> Mismatch None | Inr e \<Rightarrow> e)"

section \<open>holds compares the whole content\<close>

lemma expect_pages_ok:
  assumes "ns_pages_ok s" and "i \<le> length (ns_pages s)"
    and "i < length (ns_pages s) \<Longrightarrow> pos \<le> ns_pages s ! i * ns_chunkSize s"
    and "length expected = stop - pos"
  shows "\<exists>i' e'. expect_pages s pos stop i expected = Inr (i', e') \<and> i \<le> i' \<and> i' \<le> length (ns_pages s)
    \<and> (\<forall>j. i \<le> j \<and> j < i' \<longrightarrow> ns_pages s ! j * ns_chunkSize s < stop)
    \<and> (i' < length (ns_pages s) \<longrightarrow> stop \<le> ns_pages s ! i' * ns_chunkSize s)
    \<and> length e' = stop - pos
    \<and> (\<forall>q. pos \<le> q \<and> q < stop \<longrightarrow>
        (\<forall>j. i \<le> j \<and> j < length (ns_pages s) \<and> ns_pages s ! j = q div ns_chunkSize s \<longrightarrow>
           e' ! (q - pos) = ns_page s j ! (q mod ns_chunkSize s))
        \<and> ((\<forall>j. i \<le> j \<and> j < length (ns_pages s) \<longrightarrow> ns_pages s ! j \<noteq> q div ns_chunkSize s) \<longrightarrow>
           e' ! (q - pos) = expected ! (q - pos)))"
  using assms(2-4)
proof (induction "length (ns_pages s) - i" arbitrary: i expected)
  case 0
  then show ?case by (subst expect_pages.simps) auto
next
  case (Suc m)
  let ?cs = "ns_chunkSize s" and ?n = "length (ns_pages s)"
  have cs: "0 < ?cs" using ns_pages_okD(1) [OF assms(1)] .
  have i: "i < ?n" using Suc.hyps(2) by linarith
  let ?start = "ns_pages s ! i * ?cs"
  have start: "pos \<le> ?start" using Suc.prems(2) i .
  show ?case
  proof (cases "?start < stop")
    case False
    have "ns_pages s ! j \<noteq> q div ?cs" if "i \<le> j" "j < ?n" "q < stop" for j q
    proof -
      have "ns_pages s ! i \<le> ns_pages s ! j"
        using ns_pages_okD(5) [OF assms(1), of i j] that by (cases "i = j") auto
      then have "stop \<le> ns_pages s ! j * ?cs" using False by (meson le_trans mult_le_mono1 not_less)
      then show ?thesis using div_eq_block [OF cs, of q "ns_pages s ! j"] that(3) by auto
    qed
    then show ?thesis
      using False Suc.prems(3) i by (subst expect_pages.simps) auto
  next
    case True
    define d where "d = subarray (ns_page s i) 0 (stop - ?start)"
    have len: "length (ns_page s i) = ?cs" using ns_pages_okD(3) [OF assms(1) i] .
    then have dl: "length d = min (stop - ?start) ?cs" by (simp add: d_def)
    have fits: "?start - pos + length d \<le> length expected"
      using True start dl Suc.prems(3) by simp
    define e1 where "e1 = overwrite expected d (?start - pos)"
    have step: "expect_pages s pos stop i expected = expect_pages s pos stop (Suc i) e1"
      using True i start fits by (subst expect_pages.simps) (simp add: Let_def d_def e1_def)
    have next_page: "pos \<le> ns_pages s ! Suc i * ?cs" if "Suc i < ?n"
    proof -
      have "ns_pages s ! i \<le> ns_pages s ! Suc i" using ns_pages_okD(5) [OF assms(1), of i "Suc i"] that by simp
      then show ?thesis using start by (meson le_trans mult_le_mono1)
    qed
    have e1: "e1 ! (q - pos) = (if q div ?cs = ns_pages s ! i then ns_page s i ! (q mod ?cs) else expected ! (q - pos))"
      if "pos \<le> q" "q < stop" for q
    proof -
      have "q div ?cs = ns_pages s ! i \<longleftrightarrow> ?start \<le> q \<and> q < ?start + length d"
        using div_eq_block [OF cs, of q "ns_pages s ! i"] that dl by auto
      moreover have "d ! (q - ?start) = ns_page s i ! (q mod ?cs)" if "q div ?cs = ns_pages s ! i" "q < stop"
      proof -
        have "?start \<le> q" using div_times_less_eq_dividend [of q ?cs] that(1) by simp
        then have "q - ?start < stop - ?start" using that(2) by (intro diff_less_mono)
        moreover have "q - ?start = q mod ?cs" using that(1) by (auto simp: modulo_nat_def)
        ultimately show ?thesis by (simp add: d_def subarray_def)
      qed
      moreover have "q - pos < length expected" using that Suc.prems(3) by simp
      moreover have "q - pos - (?start - pos) = q - ?start" using start by simp
      ultimately show ?thesis
        using fits that start unfolding e1_def by (subst nth_overwrite) auto
    qed
    have m: "m = ?n - Suc i" using Suc.hyps(2) by linarith
    have len1: "length e1 = stop - pos" using fits Suc.prems(3) by (simp add: e1_def)
    obtain i' e' where r: "expect_pages s pos stop (Suc i) e1 = Inr (i', e')" "Suc i \<le> i'" "i' \<le> ?n"
      "\<And>j. Suc i \<le> j \<Longrightarrow> j < i' \<Longrightarrow> ns_pages s ! j * ?cs < stop"
      "i' < ?n \<Longrightarrow> stop \<le> ns_pages s ! i' * ?cs" "length e' = stop - pos"
      and page: "\<And>q j. pos \<le> q \<Longrightarrow> q < stop \<Longrightarrow> Suc i \<le> j \<Longrightarrow> j < ?n \<Longrightarrow> ns_pages s ! j = q div ?cs \<Longrightarrow>
          e' ! (q - pos) = ns_page s j ! (q mod ?cs)"
      and old: "\<And>q. pos \<le> q \<Longrightarrow> q < stop \<Longrightarrow> \<forall>j. Suc i \<le> j \<and> j < ?n \<longrightarrow> ns_pages s ! j \<noteq> q div ?cs \<Longrightarrow>
          e' ! (q - pos) = e1 ! (q - pos)"
      using Suc.hyps(1) [OF m Suc_leI [OF i] next_page len1] by blast
    have "e' ! (q - pos) = ns_page s j ! (q mod ?cs)"
      if q: "pos \<le> q" "q < stop" "i \<le> j" "j < ?n" "ns_pages s ! j = q div ?cs" for q j
    proof (cases "j = i")
      case True
      then have "\<forall>k. Suc i \<le> k \<and> k < ?n \<longrightarrow> ns_pages s ! k \<noteq> q div ?cs"
        using ns_pages_okD(5) [OF assms(1), of i] q(5) by (metis Suc_le_eq less_irrefl)
      then show ?thesis using old [OF q(1,2)] e1 [OF q(1,2)] q(5) True by simp
    next
      case False
      then show ?thesis using page q by simp
    qed
    moreover have "e' ! (q - pos) = expected ! (q - pos)"
      if q: "pos \<le> q" "q < stop" "\<forall>j. i \<le> j \<and> j < ?n \<longrightarrow> ns_pages s ! j \<noteq> q div ?cs" for q
    proof -
      have "q div ?cs \<noteq> ns_pages s ! i" using q(3) i by auto
      moreover have "\<forall>j. Suc i \<le> j \<and> j < ?n \<longrightarrow> ns_pages s ! j \<noteq> q div ?cs" using q(3) by simp
      ultimately show ?thesis using old [OF q(1,2)] e1 [OF q(1,2)] by simp
    qed
    moreover have "ns_pages s ! j * ?cs < stop" if "i \<le> j" "j < i'" for j
      using r(4) [of j] that True by (cases "i = j") auto
    ultimately show ?thesis
      unfolding step using r(1,2,3,5,6) by (intro exI [of _ i'] exI [of _ e']) auto
  qed
qed

lemma hasBase_ok:
  assumes "ns_base_ok s b"
  shows "\<exists>h. hasBase s = Inr h \<and> (\<not> h \<longrightarrow> ns_visible s = 0)"
  using assms by (auto simp: hasBase_def ns_base_ok_def)

text \<open>One step of the comparison builds the bytes a save would write there.\<close>

lemma holds_step:
  assumes "ns_pages_ok s" and "ns_base_ok s b" and "h \<or> ns_visible s = 0"
    and "ns_chunkSize s dvd pos" and "pos < stop" and "i \<le> length (ns_pages s)"
    and "\<And>j. j < i \<Longrightarrow> ns_pages s ! j * ns_chunkSize s < pos"
    and "i < length (ns_pages s) \<Longrightarrow> pos \<le> ns_pages s ! i * ns_chunkSize s"
  shows "\<exists>e0 i' e. (if h \<and> pos < ns_visible s
      then and_then (baseRange s pos (min stop (ns_visible s))) (\<lambda>src. u8_set (zeros (stop - pos)) (source_bytes src) 0)
      else Inr (zeros (stop - pos))) = Inr e0
    \<and> expect_pages s pos stop i e0 = Inr (i', e) \<and> e = map (ns_byte s b) [pos..<stop]
    \<and> i' \<le> length (ns_pages s) \<and> (\<forall>j. j < i' \<longrightarrow> ns_pages s ! j * ns_chunkSize s < stop)
    \<and> (i' < length (ns_pages s) \<longrightarrow> stop \<le> ns_pages s ! i' * ns_chunkSize s)"
proof -
  let ?cs = "ns_chunkSize s" and ?n = "length (ns_pages s)"
  have cs: "0 < ?cs" using ns_pages_okD(1) [OF assms(1)] .
  have vis: "ns_visible s \<le> length b" using assms(2) by (simp add: ns_base_ok_def)
  obtain e0 where e0: "(if h \<and> pos < ns_visible s
      then and_then (baseRange s pos (min stop (ns_visible s))) (\<lambda>src. u8_set (zeros (stop - pos)) (source_bytes src) 0)
      else Inr (zeros (stop - pos))) = Inr e0"
    and len0: "length e0 = stop - pos"
    and nth0: "\<And>q. pos \<le> q \<Longrightarrow> q < stop \<Longrightarrow> e0 ! (q - pos) = (if q < ns_visible s then byte_or_0 b q else 0)"
  proof (cases "h \<and> pos < ns_visible s")
    case True
    let ?m = "min stop (ns_visible s)"
    obtain src where src: "baseRange s pos ?m = Inr src" "source_bytes src = subarray b pos ?m"
      using baseRange_ok [OF assms(2), of pos ?m] True assms(5) by auto
    have m: "?m \<le> length b" using vis by simp
    show ?thesis
    proof (rule that)
      show "(if h \<and> pos < ns_visible s
          then and_then (baseRange s pos ?m) (\<lambda>src. u8_set (zeros (stop - pos)) (source_bytes src) 0)
          else Inr (zeros (stop - pos))) = Inr (overwrite (zeros (stop - pos)) (subarray b pos ?m) 0)"
        using True src m by simp
      show "length (overwrite (zeros (stop - pos)) (subarray b pos ?m) 0) = stop - pos"
        using m by simp
      fix q assume q: "pos \<le> q" "q < stop"
      then show "overwrite (zeros (stop - pos)) (subarray b pos ?m) 0 ! (q - pos) =
          (if q < ns_visible s then byte_or_0 b q else 0)"
        using m vis by (subst nth_overwrite) (auto simp: nth_subarray byte_or_0_def)
    qed
  next
    case False
    then show ?thesis using assms(3) by (intro that [of "zeros (stop - pos)"]) auto
  qed
  obtain i' e where e: "expect_pages s pos stop i e0 = Inr (i', e)" "i' \<le> ?n" "length e = stop - pos"
    "\<And>j. i \<le> j \<Longrightarrow> j < i' \<Longrightarrow> ns_pages s ! j * ?cs < stop"
    "i' < ?n \<Longrightarrow> stop \<le> ns_pages s ! i' * ?cs"
    and page: "\<And>q j. pos \<le> q \<Longrightarrow> q < stop \<Longrightarrow> i \<le> j \<Longrightarrow> j < ?n \<Longrightarrow> ns_pages s ! j = q div ?cs \<Longrightarrow>
        e ! (q - pos) = ns_page s j ! (q mod ?cs)"
    and old: "\<And>q. pos \<le> q \<Longrightarrow> q < stop \<Longrightarrow> \<forall>j. i \<le> j \<and> j < ?n \<longrightarrow> ns_pages s ! j \<noteq> q div ?cs \<Longrightarrow>
        e ! (q - pos) = e0 ! (q - pos)"
    using expect_pages_ok [OF assms(1,6,8) len0] by auto
  have before: "ns_pages s ! j \<noteq> q div ?cs" if "j < i" "pos \<le> q" for j q
  proof -
    have "ns_pages s ! j < pos div ?cs"
      using assms(7) [OF that(1)] assms(4) cs by (auto elim!: dvdE simp: mult.commute)
    moreover have "pos div ?cs \<le> q div ?cs" using that(2) by (rule div_le_mono)
    ultimately show ?thesis by simp
  qed
  have "e = map (ns_byte s b) [pos..<stop]"
  proof (rule nth_equalityI)
    fix k assume "k < length e"
    then have k: "pos \<le> pos + k" "pos + k < stop" using e(3) by simp_all
    show "e ! k = map (ns_byte s b) [pos..<stop] ! k"
    proof (cases "(pos + k) div ?cs \<in> set (ns_pages s)")
      case True
      then obtain j where j: "j < ?n" "ns_pages s ! j = (pos + k) div ?cs" by (auto simp: in_set_conv_nth)
      then have "i \<le> j" using before [of j "pos + k"] by (cases "i \<le> j") auto
      then show ?thesis using page [OF k _ j] ns_byte_page [OF assms(1) j(1), of "pos + k"] j(2) k by simp
    next
      case False
      then have "\<forall>j. i \<le> j \<and> j < ?n \<longrightarrow> ns_pages s ! j \<noteq> (pos + k) div ?cs" by (metis nth_mem)
      then show ?thesis using old [OF k] nth0 [OF k] ns_byte_old [OF False] k by simp
    qed
  qed (simp add: e(3))
  moreover have "ns_pages s ! j * ?cs < stop" if "j < i'" for j
    using e(4) [of j] assms(7) [of j] assms(5) that by (cases "i \<le> j") auto
  ultimately show ?thesis using e0 e by blast
qed

lemma holds_from_ok:
  assumes "ns_pages_ok s" and "ns_base_ok s b" and "h \<or> ns_visible s = 0"
    and "\<And>i e. i \<le> e \<Longrightarrow> e \<le> ns_size s \<Longrightarrow> \<exists>src. rng i e = Inr src \<and> source_bytes src = subarray a i e"
    and "length a = ns_size s"
    and "ns_chunkSize s dvd pos" and "i \<le> length (ns_pages s)"
    and "\<And>j. j < i \<Longrightarrow> ns_pages s ! j * ns_chunkSize s < pos"
    and "i < length (ns_pages s) \<Longrightarrow> pos \<le> ns_pages s ! i * ns_chunkSize s"
  shows "holds_from rng al s h i pos = Inr (subarray a pos (ns_size s) = map (ns_byte s b) [pos..<ns_size s])"
  using assms(6-9)
proof (induction "ns_size s - pos" arbitrary: i pos rule: less_induct)
  case less
  let ?n = "ns_size s" and ?step = "read_step (ns_chunkSize s)"
  show ?case
  proof (cases "pos < ?n")
    case False
    then show ?thesis by (subst holds_from.simps) simp
  next
    case True
    have cs: "0 < ns_chunkSize s" using ns_pages_okD(1) [OF assms(1)] .
    have step: "0 < ?step" using cs by (simp add: read_step_def)
    define stop where "stop = min (pos + ?step) ?n"
    have stop: "pos < stop" "stop \<le> ?n" using True step by (simp_all add: stop_def)
    obtain actual where actual: "rng pos stop = Inr actual" "source_bytes actual = subarray a pos stop"
      using assms(4) [of pos stop] stop by auto
    obtain e0 i' e where e: "(if h \<and> pos < ns_visible s
        then and_then (baseRange s pos (min stop (ns_visible s))) (\<lambda>src. u8_set (zeros (stop - pos)) (source_bytes src) 0)
        else Inr (zeros (stop - pos))) = Inr e0" "expect_pages s pos stop i e0 = Inr (i', e)"
      "e = map (ns_byte s b) [pos..<stop]" "i' \<le> length (ns_pages s)"
      "\<And>j. j < i' \<Longrightarrow> ns_pages s ! j * ns_chunkSize s < stop"
      "i' < length (ns_pages s) \<Longrightarrow> stop \<le> ns_pages s ! i' * ns_chunkSize s"
      using holds_step [OF assms(1-3) less.prems(1) stop(1) less.prems(2-4)] by blast
    have unfold: "holds_from rng al s h i pos =
        (if subarray a pos stop \<noteq> e then Inr False else holds_from rng al s h i' (pos + ?step))"
      using True actual e(1,2) step
      by (subst holds_from.simps) (simp add: Let_def equal_iff flip: stop_def)
    have rest: "holds_from rng al s h i' (pos + ?step) =
        Inr (subarray a stop ?n = map (ns_byte s b) [stop..<?n])"
    proof (cases "pos + ?step \<le> ?n")
      case True
      then have "stop = pos + ?step" by (simp add: stop_def)
      moreover have "ns_chunkSize s dvd pos + ?step"
        using less.prems(1) by (simp add: read_step_def)
      ultimately show ?thesis
        using less.hyps [of "pos + ?step" i'] True step stop e(4-6) by simp
    next
      case False
      then show ?thesis by (subst holds_from.simps) (simp add: stop_def)
    qed
    have "subarray a pos ?n = subarray a pos stop @ subarray a stop ?n"
      using stop by (simp add: subarray_append)
    moreover have "map (ns_byte s b) [pos..<?n] = map (ns_byte s b) [pos..<stop] @ map (ns_byte s b) [stop..<?n]"
      using upt_split [of pos stop ?n] stop by simp
    moreover have "length (subarray a pos stop) = length (map (ns_byte s b) [pos..<stop])"
      using stop assms(5) by simp
    ultimately show ?thesis unfolding unfold rest e(3) by simp
  qed
qed

lemma holds_ok:
  assumes "ns_pages_ok s" and "ns_base_ok s b"
    and "\<And>i e. i \<le> e \<Longrightarrow> e \<le> length a \<Longrightarrow> \<exists>src. rng i e = Inr src \<and> source_bytes src = subarray a i e"
  shows "holds rng al (length a) s = Inr (a \<noteq> [] \<and> a = new_bytes s b)"
proof (cases "length a = 0 \<or> length a \<noteq> ns_size s")
  case True
  then show ?thesis by (auto simp: holds_def new_bytes_def)
next
  case False
  obtain h where h: "hasBase s = Inr h" "h \<or> ns_visible s = 0"
    using hasBase_ok [OF assms(2)] by blast
  have "holds_from rng al s h 0 0 = Inr (subarray a 0 (ns_size s) = map (ns_byte s b) [0..<ns_size s])"
    using False assms(3) by (intro holds_from_ok [OF assms(1,2) h(2)]) auto
  then show ?thesis using False h(1) by (simp add: holds_def new_bytes_def)
qed

section \<open>sameDelta compares the pages\<close>

lemma perRun_pos: "0 < perRun cs"
  by (simp add: perRun_def)

lemma same_pages_iff:
  "same_pages al src s i \<longleftrightarrow>
     (\<forall>k. i \<le> k \<and> k < length (ns_pages s) \<longrightarrow>
        subarray (source_bytes src) (k * ns_chunkSize s) (k * ns_chunkSize s + ns_chunkSize s) = ns_page s k)"
proof (induction al src s i rule: same_pages.induct)
  case (1 al src s i)
  let ?cs = "ns_chunkSize s" and ?n = "length (ns_pages s)"
  let ?ok = "\<lambda>k. subarray (source_bytes src) (k * ?cs) (k * ?cs + ?cs) = ns_page s k"
  show ?case
  proof (cases "i < ?n")
    case False
    then show ?thesis by (subst same_pages.simps) auto
  next
    case True
    define stop where "stop = min (i + perRun ?cs) ?n"
    have block: "subarray (subarray (source_bytes src) (i * ?cs) (stop * ?cs)) ((k - i) * ?cs) ((k - i) * ?cs + ?cs)
        = subarray (source_bytes src) (k * ?cs) (k * ?cs + ?cs)" if "i \<le> k" "k < stop" for k
    proof -
      have "i * ?cs + (k - i) * ?cs = k * ?cs" using that(1) by (simp flip: add_mult_distrib)
      moreover have "k * ?cs + ?cs \<le> stop * ?cs"
        using that(2) by (metis Suc_leI mult_Suc add.commute mult_le_mono1)
      ultimately show ?thesis by (simp add: subarray_subarray add.assoc [symmetric])
    qed
    have "list_all (\<lambda>k. equal al (subarray (source_bytes (slice src (i * ?cs) (stop * ?cs)))
          ((k - i) * ?cs) ((k - i) * ?cs + ?cs)) (ns_page s k)) [i..<stop] \<longleftrightarrow> (\<forall>k. i \<le> k \<and> k < stop \<longrightarrow> ?ok k)"
      using block by (auto simp: list_all_iff equal_iff)
    moreover have "(\<forall>k. i \<le> k \<and> k < ?n \<longrightarrow> ?ok k) \<longleftrightarrow>
        (\<forall>k. i \<le> k \<and> k < stop \<longrightarrow> ?ok k) \<and> (\<forall>k. i + perRun ?cs \<le> k \<and> k < ?n \<longrightarrow> ?ok k)"
    proof -
      have "k < ?n \<Longrightarrow> k < stop \<or> i + perRun ?cs \<le> k" for k by (auto simp: stop_def)
      moreover have "k < stop \<Longrightarrow> k < ?n" for k by (simp add: stop_def)
      ultimately show ?thesis by (meson le_add1 le_trans)
    qed
    ultimately show ?thesis
      using True 1 perRun_pos [of ?cs] by (subst same_pages.simps) (simp add: Let_def flip: stop_def)
  qed
qed

lemma sameDeltaD:
  assumes "sameDelta al l current s = Some r"
  obtains d cur below where "layer_delta l = Some d" "current = Some cur" "layer_below l = Some below"
    and "dl_parent d = si_key (b_info cur)" "si_createdAt (layer_info below) = si_createdAt (b_info cur)"
    and "dl_chunkSize d = ns_chunkSize s" "dl_visible d = ns_visible s" "dl_pages d = ns_pages s"
    and "si_size (layer_info l) = ns_size s" "r = same_pages al (layer_source l) s 0"
proof -
  obtain d cur below where d: "layer_delta l = Some d" "current = Some cur" "layer_below l = Some below"
    using assms by (auto simp: sameDelta_def split: option.splits)
  have all: "dl_parent d = si_key (b_info cur) \<and> si_createdAt (layer_info below) = si_createdAt (b_info cur)
      \<and> dl_chunkSize d = ns_chunkSize s \<and> dl_visible d = ns_visible s \<and> si_size (layer_info l) = ns_size s
      \<and> length (dl_pages d) = length (ns_pages s)
      \<and> (\<forall>i < length (dl_pages d). dl_pages d ! i = ns_pages s ! i) \<and> r = same_pages al (layer_source l) s 0"
    using assms d by (auto simp: sameDelta_def list_ex_iff split: if_splits)
  then have "dl_pages d = ns_pages s" by (intro nth_equalityI) auto
  with all d show ?thesis using that by blast
qed

text \<open>The bytes of a layer whose pages are those of the snapshot, as in \<open>origin_new\<close>.\<close>

lemma origin_same:
  assumes "ns_pages_ok s"
    and "\<forall>k < length (ns_pages s). subarray own (k * ns_chunkSize s) (k * ns_chunkSize s + ns_chunkSize s) = ns_page s k"
    and "dl_chunkSize d = ns_chunkSize s" "dl_visible d = ns_visible s" "dl_pages d = ns_pages s"
  shows "origin_byte own b (origin_of d q) = ns_byte s b q"
proof (cases "map_get (slots (ns_pages s)) (q div ns_chunkSize s)")
  case None
  then show ?thesis using assms(3-5) by (simp add: origin_of_def ns_byte_def)
next
  case (Some k)
  let ?cs = "ns_chunkSize s"
  have k: "k < length (ns_pages s)" using slots_Some [OF Some] by simp
  have r: "q mod ?cs < ?cs" using ns_pages_okD(1) [OF assms(1)] by simp
  have sub: "subarray own (k * ?cs) (k * ?cs + ?cs) = ns_page s k" using assms(2) k by simp
  have "length (subarray own (k * ?cs) (k * ?cs + ?cs)) = ?cs"
    unfolding sub using ns_pages_okD(3) [OF assms(1) k] .
  then have len: "k * ?cs + ?cs \<le> length own"
    using ns_pages_okD(1) [OF assms(1)] by auto
  have "ns_page s k ! (q mod ?cs) = own ! (k * ?cs + q mod ?cs)"
    unfolding sub [symmetric] using r len by (intro nth_subarray) simp
  then show ?thesis
    using Some assms(3-5) r len by (simp add: origin_of_def ns_byte_def byte_or_0_def Let_def)
qed

lemma sameDelta_bytes:
  assumes "ns_pages_ok s" and "sameDelta al l (Some cur) s = Some True"
    and "\<And>below. layer_below l = Some below \<Longrightarrow> layer_bytes below = b"
  shows "layer_bytes l = new_bytes s b"
proof -
  obtain d cur below where d: "layer_delta l = Some d" "layer_below l = Some below"
    "dl_chunkSize d = ns_chunkSize s" "dl_visible d = ns_visible s" "dl_pages d = ns_pages s"
    "si_size (layer_info l) = ns_size s" "same_pages al (layer_source l) s 0"
    by (rule sameDeltaD [OF assms(2)]) auto
  have "\<forall>k < length (ns_pages s). subarray (source_bytes (layer_source l)) (k * ns_chunkSize s)
      (k * ns_chunkSize s + ns_chunkSize s) = ns_page s k"
    using d(7) by (simp add: same_pages_iff)
  note o = origin_same [OF assms(1) this d(3-5)]
  obtain i st where l: "l = Layer i st (Some below)" using d(2) by (cases l) auto
  show ?thesis
    using d(1,6) o assms(3) [OF d(2)] by (simp add: l new_bytes_def)
qed

section \<open>Properties\<close>



text \<open>What \<open>existing\<close> gives.\<close>

lemma existing_spec:
  assumes "parents_ok g" and "keys_ok g" and "contents_ok g" and "reads_base g current"
    and "pages_held_ok heap pg current"
  shows "(\<forall>b held. existing_of n (\<lambda>_. g) al heap pg current key = Move b held \<longrightarrow>
      held = b_keys b \<and> layer_wf (b_layer b) \<and>
      (\<exists>s. newSnapshot heap pg current key [] [] 0 = Inr s \<and>
         layer_bytes (b_layer b) = new_bytes s (old_bytes current)))
    \<and> (\<forall>i. existing_of n (\<lambda>_. g) al heap pg current key = Joined i \<longrightarrow>
      (\<exists>b s. current = Some b \<and> si_key (b_info b) = key \<and> i = Some (b_info b)
         \<and> newSnapshot heap pg current key [] [] 0 = Inr s \<and> ns_pages s = [] \<and> ns_size s = si_size (b_info b)))"
proof (rule conjI; intro allI impI)
  fix i
  assume "existing_of n (\<lambda>_. g) al heap pg current key = Joined i"
  then show "\<exists>b s. current = Some b \<and> si_key (b_info b) = key \<and> i = Some (b_info b)
      \<and> newSnapshot heap pg current key [] [] 0 = Inr s \<and> ns_pages s = [] \<and> ns_size s = si_size (b_info b)"
    by (auto simp: existing_of_def compare_found_def and_then_def infoOf_def Let_def
        split: sum.splits option.splits if_splits prod.splits)
next
  fix b held
  assume mv: "existing_of n (\<lambda>_. g) al heap pg current key = Move b held"
  then obtain s where s: "newSnapshot heap pg current key [] [] 0 = Inr s"
    and cmp: "compare_found n (\<lambda>_. g) al current key s = Inr (Move b held)"
    by (auto simp: existing_of_def and_then_def Let_def split: sum.splits option.splits if_splits)
  obtain r where r: "resolve n (\<lambda>_. g) key = Inr (Some (b, held))"
    and eq: "(case sameDelta al (b_layer b) current s of
        None \<Rightarrow> holds (base_content b) al (si_size (b_info b)) s | Some same \<Rightarrow> Inr same) = Inr True"
  proof -
    obtain found where f: "resolve n (\<lambda>_. g) key = Inr found"
      and res: "(case found of None \<Rightarrow> Inr (Mismatch None) | Some (b, held) \<Rightarrow>
        and_then (case sameDelta al (b_layer b) current s of
                    None \<Rightarrow> holds (base_content b) al (si_size (b_info b)) s | Some same \<Rightarrow> Inr same)
          (\<lambda>eq. Inr (if eq then Move b held else Mismatch (Some (b_info b))))) = Inr (Move b held)"
      using cmp unfolding compare_found_def and_then_eq_Inr by blast
    from res obtain b' held' where found: "found = Some (b', held')"
      by (auto split: option.splits)
    with res obtain eq where "(case sameDelta al (b_layer b') current s of
        None \<Rightarrow> holds (base_content b') al (si_size (b_info b')) s | Some same \<Rightarrow> Inr same) = Inr eq"
      and "(if eq then Move b' held' else Mismatch (Some (b_info b'))) = Move b held"
      by (auto simp: and_then_eq_Inr)
    then show ?thesis using that f found by (auto split: if_splits)
  qed
  have wf: "base_wf current" by (rule reads_base_wf [OF assms(1,3,4)])
  note pages = newSnapshot_pages_ok [OF s assms(5)]
  note base = newSnapshot_base_ok [OF s assms(5) wf]
  obtain ss where ss: "read_chain (\<lambda>_. g) 0 key ss" "held = chain_keys key ss"
    and b: "b = baseOf (build_layer n (hd ss) (tl ss))"
    using r resolve_loop_sound [of "\<lambda>_. g" key key "[]" "[]"]
    by (auto simp: resolve_def and_then_eq_Inr)
  then obtain sn ts where sn: "ss = sn # ts" by (cases ss) auto
  have l: "b_layer b = build_layer n sn ts" by (simp add: b sn baseOf_def)
  have lwf: "layer_wf (b_layer b)" unfolding l using read_chain_wf [OF assms(3,1)] ss(1) sn by blast
  have "held = b_keys b"
    using chain_keys_ok [OF assms(2) ss(1)] ss(2) by (simp add: b sn baseOf_keys)
  moreover have "layer_bytes (b_layer b) = new_bytes s (old_bytes current)"
  proof (cases "sameDelta al (b_layer b) current s")
    case None
    have "b_info b = layer_info (b_layer b)" by (simp add: b baseOf_def)
    then have size: "si_size (b_info b) = length (layer_bytes (b_layer b))"
      using layer_wf_length [OF lwf] by simp
    have "\<exists>src. base_content b i e = Inr src \<and> source_bytes src = subarray (layer_bytes (b_layer b)) i e"
      if "i \<le> e" "e \<le> length (layer_bytes (b_layer b))" for i e
      using layerContent_ok [OF lwf that(1)] that(2) layer_wf_length [OF lwf] by (simp add: base_content_def)
    from holds_ok [OF pages base this] show ?thesis
      using eq None size by simp
  next
    case (Some same)
    then have same: "sameDelta al (b_layer b) current s = Some True" using eq by simp
    obtain d cur below where d: "layer_delta (b_layer b) = Some d" "current = Some cur"
      "layer_below (b_layer b) = Some below" "dl_parent d = si_key (b_info cur)"
      by (rule sameDeltaD [OF same]) auto
    obtain t us where ts: "ts = t # us" "below = build_layer (Suc n) t us"
      using d(3) unfolding l by (cases ts) auto
    obtain m sn' us' where cur: "cur = baseOf (build_layer m sn' us')"
      "read_chain (\<lambda>_. g) 0 (si_key (b_info cur)) (sn' # us')"
      using reads_baseD [OF assms(1,3), of cur] assms(4) d(2) by blast
    have "st_delta sn = Some d" using d(1) by (simp add: l)
    then have "read_chain (\<lambda>_. g) (Suc 0) (si_key (b_info cur)) (t # us)"
      using ss(1) d(4) by (simp add: sn ts(1))
    then have tu: "t # us = sn' # us'" using cur(2) by (rule read_chain_unique)
    have "layer_bytes below = old_bytes current"
      using tu build_layer_bytes [of "Suc n" t us m] by (simp add: ts(2) old_bytes_def d(2) cur(1) baseOf_def)
    then show ?thesis
      using sameDelta_bytes [OF pages, of al "b_layer b" cur "old_bytes current"] same d(2,3) by simp
  qed
  ultimately show "held = b_keys b \<and> layer_wf (b_layer b) \<and>
      (\<exists>s. newSnapshot heap pg current key [] [] 0 = Inr s \<and>
         layer_bytes (b_layer b) = new_bytes s (old_bytes current))"
    using lwf s by blast
qed


text \<open>The save of C13 again, under a key that holds the same by now: its database moves there.\<close>

definition ex_both :: stored_map where
  "ex_both = [''a'' \<mapsto> ex_stored_first, ''b'' \<mapsto> storedAs ex_save 7 (Bytes [7, 8])]"

lemma ex_both_ok: "parents_ok ex_both" "keys_ok ex_both" "contents_ok ex_both"
  unfolding parents_ok_def keys_ok_def contents_ok_def ex_both_def
  by (auto simp: ex_save_fields layoutOf_def ex_stored_first_def content_fits_def depth_of_def)

lemma ex_both_chain:
  "read_chain (\<lambda>_. ex_both) 0 ''a'' [ex_stored_first]"
  "read_chain (\<lambda>_. ex_both) 0 ''b'' [storedAs ex_save 7 (Bytes [7, 8]), ex_stored_first]"
  by (simp_all add: ex_both_def ex_save_fields layoutOf_def) (simp_all add: ex_stored_first_def)

lemma ex_both_reads: "reads_base ex_both (Some ex_base)"
proof -
  have "resolve 0 (\<lambda>_. ex_both) ''a'' = Inr (Some (ex_base, [''a'']))"
    using resolve_chain [OF ex_both_chain(1), of 0] by (simp add: ex_base_def) (simp add: ex_stored_first_def)
  moreover have "si_key (b_info ex_base) = ''a''"
    by (simp add: ex_base_def base_info ex_stored_first_def del: build_layer.simps)
  ultimately show ?thesis unfolding reads_base_def by auto
qed

lemma ex_both_same:
  "sameDelta False (build_layer 9 (storedAs ex_save 7 (Bytes [7, 8])) [ex_stored_first]) (Some ex_base)
     (ex_save\<lparr>ns_delta := None\<rparr>) = Some True"
proof -
  have "same_pages False (Bytes [7, 8]) (ex_save\<lparr>ns_delta := None\<rparr>) 0"
    by (simp add: same_pages_iff ex_save_fields subarray_def ex_heap_def)
  then show ?thesis
    by (simp add: sameDelta_def ex_save_fields layoutOf_def ex_base_def base_info ex_stored_first_def
        del: build_layer.simps) (simp add: baseOf_def ex_save_fields)
qed


end
