(* ===== verification/Js_Number.thy ===== *)
theory Js_Number
  imports Prelude
begin

text \<open>
  JavaScript numbers where the code does not know that it has a whole one: an argument of the caller,
  or a field of a record that another program may have written. \<open>undefined\<close> and what is no number at
  all are \<open>NotWhole\<close>, as \<open>Number.isInteger\<close> says of them.
\<close>

datatype js_number = Infinity | Whole int | NotWhole

definition isInteger :: "js_number \<Rightarrow> bool" where
  "isInteger v = (case v of Whole _ \<Rightarrow> True | _ \<Rightarrow> False)"

definition isSafeInteger :: "js_number \<Rightarrow> bool" where
  "isSafeInteger v = (case v of Whole i \<Rightarrow> \<bar>i\<bar> < 2 ^ 53 | _ \<Rightarrow> False)"

lemma isSafeInteger_isInteger: "isSafeInteger v \<Longrightarrow> isInteger v"
  by (simp add: isSafeInteger_def isInteger_def split: js_number.splits)

text \<open>
  A number with its value, where that matters: the values of SQL. \<open>x + 0\<close> makes \<open>-0\<close> a plain zero, and
  \<open>x | 0\<close> is the low 32 bits of the number without its fraction, signed.
\<close>

datatype js_double = Finite rat | NegZero | PlusInf | MinusInf | NaN

definition plus_0 :: "js_double \<Rightarrow> js_double" where
  "plus_0 x = (if x = NegZero then Finite 0 else x)"

definition trunc :: "rat \<Rightarrow> int" where
  "trunc r = (if r < 0 then \<lceil>r\<rceil> else \<lfloor>r\<rfloor>)"

definition or_0 :: "js_double \<Rightarrow> int" where
  "or_0 x = (case x of Finite r \<Rightarrow> sint (word_of_int (trunc r) :: 32 word) | _ \<Rightarrow> 0)"

text \<open>\<open>x === i\<close> for a whole number \<open>i\<close>.\<close>

definition equals_int :: "js_double \<Rightarrow> int \<Rightarrow> bool" where
  "equals_int x i = (case x of Finite r \<Rightarrow> r = of_int i | NegZero \<Rightarrow> i = 0 | _ \<Rightarrow> False)"

text \<open>
  \<open>(n & (n - 1)) === 0\<close> of a number from 1 to 65536 says that it is a power of two. The code relies on
  that for the chunk and page sizes from 512 up.
\<close>

lemma and_pred_even: "0 < (m::nat) \<Longrightarrow> and (2 * m) (2 * m - 1) = 2 * and m (m - 1)"
proof -
  assume "0 < m"
  then have "(2 * m - 1) div 2 = m - 1" by presburger
  then show ?thesis by (subst and_rec) simp
qed

lemma and_pred_odd: "and (2 * m + 1) (2 * m) = 2 * (m::nat)"
  by (subst and_rec) simp

lemma and_pred_0: "0 < (n::nat) \<Longrightarrow> and n (n - 1) = 0 \<longleftrightarrow> (\<exists>k. n = 2 ^ k)"
proof (induction n rule: less_induct)
  case (less n)
  obtain m where m: "n = 2 * m \<or> n = 2 * m + 1" by (meson evenE oddE)
  then show ?case
  proof
    assume n: "n = 2 * m"
    then have "0 < m" "m < n" using less.prems by simp_all
    then have IH: "and m (m - 1) = 0 \<longleftrightarrow> (\<exists>k. m = 2 ^ k)" by (intro less.IH)
    have "(\<exists>k. m = 2 ^ k) \<longleftrightarrow> (\<exists>k. n = 2 ^ k)"
    proof
      assume "\<exists>k. n = 2 ^ k"
      then obtain k where k: "2 * m = 2 ^ k" using n by auto
      then show "\<exists>k. m = 2 ^ k" by (cases k) auto
    qed (use n in \<open>auto intro: exI [of _ "Suc _"]\<close>)
    then show ?thesis using IH and_pred_even [OF \<open>0 < m\<close>] n by simp
  next
    assume n: "n = 2 * m + 1"
    have "(\<exists>k. n = 2 ^ k) \<longleftrightarrow> m = 0"
    proof
      assume "\<exists>k. n = 2 ^ k"
      then obtain k where k: "2 * m + 1 = 2 ^ k" using n by auto
      then have "odd ((2::nat) ^ k)" by (simp flip: k)
      then have "k = 0" by simp
      then show "m = 0" using k by simp
    qed (use n in \<open>auto intro: exI [of _ 0]\<close>)
    then show ?thesis using and_pred_odd [of m] n by simp
  qed
qed

end
