(* ===== verification/Snapshot_Storage.thy ===== *)
theory Snapshot_Storage
  imports Snapshot_Compare Js_Number
begin

text \<open>
  \<open>SnapshotStorage\<close> of snapshots.ts over its store: \<open>list\<close>, \<open>head\<close>, opening (\<open>open\<close>, \<open>openSnapshot\<close>)
  and \<open>retain\<close>. The locks and the databases are parameters: which keys nobody holds, and what opening
  a database on a snapshot gives.
\<close>

section \<open>Options\<close>

definition wholeNumber :: "js_number \<Rightarrow> int \<Rightarrow> unit result" where
  "wholeNumber v low =
     (case v of
        Infinity \<Rightarrow> Inr ()
      | Whole i \<Rightarrow> if i < low then Inl RangeError else Inr ()
      | NotWhole \<Rightarrow> Inl RangeError)"

definition le_number :: "nat \<Rightarrow> js_number \<Rightarrow> bool" where
  "le_number n v = (case v of Infinity \<Rightarrow> True | Whole i \<Rightarrow> int n \<le> i | NotWhole \<Rightarrow> False)"

definition take_number :: "js_number \<Rightarrow> 'a list \<Rightarrow> 'a list" where
  "take_number v xs = (case v of Infinity \<Rightarrow> xs | Whole i \<Rightarrow> take (nat i) xs | NotWhole \<Rightarrow> [])"

definition add_number :: "js_number \<Rightarrow> int \<Rightarrow> js_number" where
  "add_number v k = (case v of Whole i \<Rightarrow> Whole (i + k) | _ \<Rightarrow> v)"

text \<open>\<open>maxDepth\<close> of the constructor: a whole number up to \<open>MAX_CHAIN\<close>.\<close>

definition storage_maxDepth :: "js_number option \<Rightarrow> nat result" where
  "storage_maxDepth option =
     (let d = (case option of None \<Rightarrow> Whole (int MAX_DEPTH) | Some v \<Rightarrow> v)
      in and_then (wholeNumber d 0) (\<lambda>_.
           case d of
             Whole i \<Rightarrow> if int MAX_CHAIN < i then Inl RangeError else Inr (nat i)
           | _ \<Rightarrow> Inl RangeError))"

section \<open>Lists of snapshots\<close>

text \<open>\<open>sort(newestFirst)\<close>, which keeps the order of snapshots of the same time.\<close>

definition newest_first :: "snapshot_info list \<Rightarrow> snapshot_info list" where
  "newest_first = sort_key (\<lambda>s. - si_createdAt s)"

definition storage_list :: "snapshot_info list \<Rightarrow> string option \<Rightarrow> snapshot_info list" where
  "storage_list stored branch =
     (case branch of
        None \<Rightarrow> newest_first stored
      | Some b \<Rightarrow> filter (\<lambda>s. si_branch s = b) (newest_first stored))"

text \<open>\<open>head\<close>: the store's own, if it has one and that is not empty, else the first of the list.\<close>

definition storage_head ::
  "(string option \<Rightarrow> snapshot_info option) option \<Rightarrow> snapshot_info list \<Rightarrow> string option \<Rightarrow> snapshot_info option" where
  "storage_head store_head stored branch =
     (let listed = find (\<lambda>s. 0 < si_size s) (storage_list stored branch)
      in case store_head of
           None \<Rightarrow> listed
         | Some h \<Rightarrow> (case h branch of
             None \<Rightarrow> None
           | Some s \<Rightarrow> if 0 < si_size s then Some s else listed))"

section \<open>Opening\<close>

text \<open>What \<open>open\<close> comes to: a new empty database, one on the snapshot of a key, or an error.\<close>

datatype 'db opened = NewDatabase | Opened string 'db | Failed js_error

text \<open>\<open>openSnapshot\<close> once the key is resolved; \<open>openOn\<close> opens the database or throws.\<close>

definition openSnapshot ::
  "(base \<times> string list) option result \<Rightarrow> (base \<Rightarrow> 'db result) \<Rightarrow> 'db result" where
  "openSnapshot resolved openOn =
     and_then resolved (\<lambda>r. case r of
        None \<Rightarrow> Inl (SqliteError SQLITE_CANTOPEN)
      | Some (b, held) \<Rightarrow> openOn b)"

text \<open>
  The loop of \<open>open\<close>. \<open>attempt i key\<close> is what the \<open>i\<close>-th attempt to open gives. A \<open>choose\<close> that keeps
  returning other snapshots than those it was given makes it go on forever, so it is partial.
\<close>

partial_function (option) open_loop ::
  "(snapshot_info list \<Rightarrow> snapshot_info option) \<Rightarrow> (nat \<Rightarrow> string \<Rightarrow> 'db result) \<Rightarrow> snapshot_info list
   \<Rightarrow> nat \<Rightarrow> string list \<Rightarrow> 'db opened option" where
  "open_loop pick attempt listed i unreadable =
     (case pick (filter (\<lambda>s. si_key s \<notin> set unreadable) listed) of
        None \<Rightarrow> Some NewDatabase
      | Some chosen \<Rightarrow>
          if si_key chosen \<in> set unreadable then Some NewDatabase
          else (case attempt i (si_key chosen) of
                  Inr db \<Rightarrow> Some (Opened (si_key chosen) db)
                | Inl e \<Rightarrow>
                    if e = SqliteError SQLITE_CANTOPEN
                    then open_loop pick attempt listed (Suc i) (unreadable @ [si_key chosen])
                    else Some (Failed e)))"

definition pick_default :: "string option \<Rightarrow> snapshot_info list \<Rightarrow> snapshot_info option" where
  "pick_default branch snapshots =
     (case branch of
        None \<Rightarrow> (case snapshots of [] \<Rightarrow> None | s # _ \<Rightarrow> Some s)
      | Some b \<Rightarrow> find (\<lambda>s. si_branch s = b) snapshots)"

record open_options =
  oo_key :: "string option"
  oo_branch :: "string option"
  oo_choose :: "(snapshot_info list \<Rightarrow> snapshot_info option) option"

text \<open>\<open>hd\<close> is the head when \<open>open\<close> looks for it, and \<open>stored\<close> the list after that.\<close>

definition open_storage ::
  "open_options \<Rightarrow> snapshot_info option \<Rightarrow> snapshot_info list \<Rightarrow> (nat \<Rightarrow> string \<Rightarrow> 'db result) \<Rightarrow> 'db opened option" where
  "open_storage options head stored attempt =
     (let listed = filter (\<lambda>s. 0 < si_size s) (storage_list stored None);
          from_list = (\<lambda>i unreadable.
            open_loop (case oo_choose options of Some c \<Rightarrow> c | None \<Rightarrow> pick_default (oo_branch options))
              attempt listed i unreadable)
      in case oo_key options of
           Some key \<Rightarrow> Some (case attempt 0 key of Inr db \<Rightarrow> Opened key db | Inl e \<Rightarrow> Failed e)
         | None \<Rightarrow>
             (case oo_choose options of
                Some _ \<Rightarrow> from_list 0 []
              | None \<Rightarrow>
                  (case head of
                     None \<Rightarrow> Some NewDatabase
                   | Some h \<Rightarrow>
                       (case attempt 0 (si_key h) of
                          Inr db \<Rightarrow> Some (Opened (si_key h) db)
                        | Inl e \<Rightarrow>
                            if e = SqliteError SQLITE_CANTOPEN then from_list 1 [si_key h]
                            else Some (Failed e)))))"

section \<open>retain\<close>

record retain_policy =
  rp_perBranch :: js_number
  rp_branches :: js_number
  rp_pinned :: "string list"

text \<open>The branches, by their newest snapshots.\<close>

definition ranked_branches :: "snapshot_info list \<Rightarrow> string list" where
  "ranked_branches snapshots =
     fold (\<lambda>s ranked. if 0 < si_size s \<and> si_branch s \<notin> set ranked then ranked @ [si_branch s] else ranked)
       snapshots []"

definition STALE_MS :: rat where "STALE_MS = 3600000"

text \<open>
  Which snapshots are kept for themselves: the loop over all of them, with the counts of each branch
  so far and the keys. \<open>now\<close> is read once.
\<close>

primrec keep_loop ::
  "string set \<Rightarrow> string set \<Rightarrow> js_number \<Rightarrow> bool \<Rightarrow> rat \<Rightarrow> snapshot_info list
   \<Rightarrow> (string \<times> nat) list \<times> string list \<Rightarrow> (string \<times> nat) list \<times> string list" where
  "keep_loop pinned kept keep locks now [] st = st"
| "keep_loop pinned kept keep locks now (s # rest) st =
     keep_loop pinned kept keep locks now rest
       (let (seen, keys) = st
        in if si_key s \<in> pinned then (seen, List.insert (si_key s) keys)
           else if 0 < si_size s
           then (let count = (case map_get seen (si_branch s) of None \<Rightarrow> 0 | Some c \<Rightarrow> c) + 1
                 in (map_set (si_branch s) count seen,
                     if le_number count keep \<and> si_branch s \<in> kept then List.insert (si_key s) keys else keys))
           else if \<not> locks \<and> now - si_createdAt s < STALE_MS then (seen, List.insert (si_key s) keys)
           else (seen, keys))"

text \<open>What the kept snapshots lie over: up the parents from a key, until one that is kept.\<close>

function keep_parents :: "(string \<times> string option) list \<Rightarrow> string option \<Rightarrow> string list \<Rightarrow> string list" where
  "keep_parents parents pos keys =
     (case pos of
        None \<Rightarrow> keys
      | Some k \<Rightarrow>
          if k \<in> set keys then keys
          else keep_parents parents (case map_get parents k of None \<Rightarrow> None | Some p \<Rightarrow> p) (keys @ [k]))"
  by pat_completeness auto

termination
proof (relation "measure (\<lambda>(parents, pos, keys). card ({p. Some p \<in> snd ` set parents} - set keys)
    + (if pos \<in> snd ` set parents \<or> pos = None then 0 else 1))")
  fix parents :: "(string \<times> string option) list" and pos and keys :: "string list" and k :: string
  assume pos: "pos = Some k" and k: "k \<notin> set keys"
  let ?V = "{p. Some p \<in> snd ` set parents}"
  let ?next = "case map_get parents k of None \<Rightarrow> None | Some p \<Rightarrow> p"
  have next_in: "?next \<in> snd ` set parents \<or> ?next = None"
    by (cases "map_get parents k") (auto dest: map_of_SomeD intro: rev_image_eqI)
  have fin: "finite ?V"
    by (rule finite_subset [of _ "the ` snd ` set parents"]) force+
  show "((parents, ?next, keys @ [k]), (parents, pos, keys))
      \<in> measure (\<lambda>(parents, pos, keys). card ({p. Some p \<in> snd ` set parents} - set keys)
        + (if pos \<in> snd ` set parents \<or> pos = None then 0 else 1))"
  proof (cases "Some k \<in> snd ` set parents")
    case True
    then have "?V - set (keys @ [k]) \<subset> ?V - set keys" using k by auto
    then have "card (?V - set (keys @ [k])) < card (?V - set keys)"
      using fin by (intro psubset_card_mono) auto
    then show ?thesis using next_in pos True by simp
  next
    case False
    then have "?V - set (keys @ [k]) = ?V - set keys" by auto
    then show ?thesis using next_in pos False by simp
  qed
qed simp

declare keep_parents.simps [simp del]

definition retain_keys :: "retain_policy \<Rightarrow> bool \<Rightarrow> bool \<Rightarrow> rat \<Rightarrow> snapshot_info list \<Rightarrow> string list" where
  "retain_keys policy locks keepsRemoved now snapshots =
     (let kept = set (take_number (rp_branches policy) (ranked_branches snapshots));
          keep = add_number (rp_perBranch policy) (if locks \<or> keepsRemoved then 0 else 1);
          keys = snd (keep_loop (set (rp_pinned policy)) kept keep locks now snapshots ([], []));
          parents = fold (\<lambda>(k, v) m. map_set k v m) (map (\<lambda>s. (si_key s, si_parent s)) snapshots) []
      in fold (\<lambda>key keys. keep_parents parents (case map_get parents key of None \<Rightarrow> None | Some p \<Rightarrow> p) keys) keys keys)"

text \<open>\<open>free i key\<close>: at its turn nobody else holds a lock on the key (always so without locks).\<close>

primrec delete_loop ::
  "('s \<Rightarrow> string \<Rightarrow> bool \<Rightarrow> 's \<times> bool) \<Rightarrow> (nat \<Rightarrow> string \<Rightarrow> bool) \<Rightarrow> string set \<Rightarrow> nat
   \<Rightarrow> snapshot_info list \<Rightarrow> 's \<times> string list \<Rightarrow> 's \<times> string list" where
  "delete_loop remove free keys i [] acc = acc"
| "delete_loop remove free keys i (s # rest) acc =
     delete_loop remove free keys (Suc i) rest
       (let (st, deleted) = acc
        in if si_key s \<in> keys \<or> \<not> free i (si_key s) then acc
           else (case remove st (si_key s) False of
                   (st', removed) \<Rightarrow> (st', if removed then deleted @ [si_key s] else deleted)))"

definition retain ::
  "('s \<Rightarrow> snapshot_info list) \<Rightarrow> ('s \<Rightarrow> string \<Rightarrow> bool \<Rightarrow> 's \<times> bool) \<Rightarrow> (nat \<Rightarrow> string \<Rightarrow> bool) \<Rightarrow> bool \<Rightarrow> bool
   \<Rightarrow> rat \<Rightarrow> retain_policy \<Rightarrow> 's \<Rightarrow> ('s \<times> string list) result" where
  "retain list remove free locks keepsRemoved now policy st =
     and_then (wholeNumber (rp_perBranch policy) 1) (\<lambda>_.
     and_then (wholeNumber (rp_branches policy) 0) (\<lambda>_.
       let snapshots = storage_list (list st) None;
           keys = retain_keys policy locks keepsRemoved now snapshots
       in Inr (delete_loop remove free (set keys) 0 snapshots (st, []))))"

section \<open>Which snapshots retain keeps\<close>

text \<open>What a branch has kept before a snapshot: the snapshots of it that are newer, not pinned and written.\<close>

definition newer_count :: "string set \<Rightarrow> snapshot_info list \<Rightarrow> string \<Rightarrow> nat" where
  "newer_count pinned before branch =
     length (filter (\<lambda>s. si_key s \<notin> pinned \<and> 0 < si_size s \<and> si_branch s = branch) before)"

definition kept_itself ::
  "string set \<Rightarrow> string set \<Rightarrow> js_number \<Rightarrow> bool \<Rightarrow> rat \<Rightarrow> snapshot_info list \<Rightarrow> snapshot_info \<Rightarrow> bool" where
  "kept_itself pinned kept keep locks now before s \<longleftrightarrow>
     si_key s \<in> pinned
   \<or> 0 < si_size s \<and> si_branch s \<in> kept \<and> le_number (newer_count pinned before (si_branch s) + 1) keep
   \<or> si_size s = 0 \<and> \<not> locks \<and> now - si_createdAt s < STALE_MS"

lemma image_less_Suc:
  "{f i | i. i < Suc n \<and> P i} = (if P 0 then {f 0} else {}) \<union> {f (Suc i) | i. i < n \<and> P (Suc i)}"
proof -
  have "{i. i < Suc n \<and> P i} = (if P 0 then {0} else {}) \<union> Suc ` {i. i < n \<and> P (Suc i)}"
    by (auto simp: less_Suc_eq_0_disj)
  then have "f ` {i. i < Suc n \<and> P i} = (if P 0 then {f 0} else {}) \<union> f ` Suc ` {i. i < n \<and> P (Suc i)}"
    by auto
  then show ?thesis by (simp add: setcompr_eq_image image_image)
qed

lemma keep_loop_spec:
  assumes "\<And>b. (case map_get seen b of None \<Rightarrow> 0 | Some c \<Rightarrow> c) = newer_count pinned before b"
  shows "set (snd (keep_loop pinned kept keep locks now ss (seen, keys))) =
    set keys \<union> {si_key (ss ! i) | i. i < length ss \<and> kept_itself pinned kept keep locks now (before @ take i ss) (ss ! i)}"
  using assms
proof (induction ss arbitrary: seen keys before)
  case Nil
  then show ?case by simp
next
  case (Cons s ss)
  let ?P = "\<lambda>bef s. kept_itself pinned kept keep locks now bef s"
  let ?c = "newer_count pinned before (si_branch s)"
  define st where "st = (if si_key s \<in> pinned then (seen, List.insert (si_key s) keys)
    else if 0 < si_size s
    then (map_set (si_branch s) (?c + 1) seen,
          if le_number (?c + 1) keep \<and> si_branch s \<in> kept then List.insert (si_key s) keys else keys)
    else if \<not> locks \<and> now - si_createdAt s < STALE_MS then (seen, List.insert (si_key s) keys)
    else (seen, keys))"
  have loop: "keep_loop pinned kept keep locks now (s # ss) (seen, keys) = keep_loop pinned kept keep locks now ss st"
    using Cons.prems [of "si_branch s"] by (simp add: st_def Let_def)
  obtain seen' keys' where st: "st = (seen', keys')" by (cases st)
  have seen': "(case map_get seen' b of None \<Rightarrow> 0 | Some c \<Rightarrow> c) = newer_count pinned (before @ [s]) b" for b
    using st Cons.prems [of b] by (auto simp: st_def newer_count_def map_get_set split: if_splits)
  have keys': "set keys' = set keys \<union> (if ?P before s then {si_key s} else {})"
    using st by (auto simp: st_def kept_itself_def split: if_splits)
  have "{si_key ((s # ss) ! i) | i. i < length (s # ss) \<and> ?P (before @ take i (s # ss)) ((s # ss) ! i)} =
      (if ?P before s then {si_key s} else {}) \<union>
      {si_key (ss ! i) | i. i < length ss \<and> ?P (before @ s # take i ss) (ss ! i)}"
    using image_less_Suc [of "\<lambda>i. si_key ((s # ss) ! i)" "length ss"
        "\<lambda>i. ?P (before @ take i (s # ss)) ((s # ss) ! i)"] by simp
  then show ?case
    using Cons.IH [OF seen', of keys'] keys' unfolding loop st by simp
qed

text \<open>Going up the parents keeps what was kept, and ends where every key has its parent.\<close>

lemma keep_parents_mono: "set keys \<subseteq> set (keep_parents parents pos keys)"
proof (induction parents pos keys rule: keep_parents.induct)
  case (1 parents pos keys)
  then show ?case by (subst keep_parents.simps) (auto split: option.split)
qed

text \<open>Of the kept keys that are not in \<open>E\<close>, the parents are kept too, or at \<open>pos\<close>, to be kept next.\<close>

definition closed_but :: "(string \<times> string option) list \<Rightarrow> string set \<Rightarrow> string option \<Rightarrow> string set \<Rightarrow> bool" where
  "closed_but parents E pos K \<longleftrightarrow>
     (\<forall>k \<in> K - E. \<forall>p. map_get parents k = Some (Some p) \<longrightarrow> p \<in> K \<or> pos = Some p)"

lemma keep_parents_closed:
  "closed_but parents E pos (set keys) \<Longrightarrow> closed_but parents E None (set (keep_parents parents pos keys))"
proof (induction parents pos keys rule: keep_parents.induct)
  case (1 parents pos keys)
  show ?case
  proof (cases pos)
    case None
    then show ?thesis using "1.prems" by (subst keep_parents.simps) simp
  next
    case (Some k)
    show ?thesis
    proof (cases "k \<in> set keys")
      case True
      have "keep_parents parents pos keys = keys"
        using Some True by (subst keep_parents.simps) simp
      then show ?thesis using "1.prems" Some True by (auto simp: closed_but_def)
    next
      case False
      let ?next = "case map_get parents k of None \<Rightarrow> None | Some p \<Rightarrow> p"
      have "keep_parents parents pos keys = keep_parents parents ?next (keys @ [k])"
        using Some False by (subst keep_parents.simps) simp
      moreover have "closed_but parents E ?next (set (keys @ [k]))"
        using "1.prems" Some by (auto simp: closed_but_def)
      ultimately show ?thesis using "1.IH" [OF Some False] by simp
    qed
  qed
qed

lemma keep_all_parents:
  fixes parents :: "(string \<times> string option) list"
  defines "up \<equiv> \<lambda>key keys. keep_parents parents (case map_get parents key of None \<Rightarrow> None | Some p \<Rightarrow> p) keys"
  assumes "closed_but parents (set ks) None (set keys)"
  shows "set keys \<subseteq> set (fold up ks keys) \<and> closed_but parents {} None (set (fold up ks keys))"
  using assms(2)
proof (induction ks arbitrary: keys)
  case Nil
  then show ?case by simp
next
  case (Cons k ks)
  have "closed_but parents (set ks) (case map_get parents k of None \<Rightarrow> None | Some p \<Rightarrow> p) (set keys)"
    unfolding closed_but_def
  proof (intro ballI allI impI)
    fix j p assume j: "j \<in> set keys - set ks" and p: "map_get parents j = Some (Some p)"
    show "p \<in> set keys \<or> (case map_get parents k of None \<Rightarrow> None | Some p \<Rightarrow> p) = Some p"
    proof (cases "j = k")
      case True
      then show ?thesis using p by simp
    next
      case False
      then have "j \<in> set keys - set (k # ks)" using j by simp
      then show ?thesis using Cons.prems p unfolding closed_but_def by blast
    qed
  qed
  then have "closed_but parents (set ks) None (set (up k keys))"
    unfolding up_def by (rule keep_parents_closed)
  note IH = Cons.IH [OF this]
  have "set keys \<subseteq> set (up k keys)" unfolding up_def by (rule keep_parents_mono)
  then show ?case unfolding fold_Cons comp_apply using IH by blast
qed

text \<open>With distinct keys, the snapshots that are kept are those kept for themselves, and their parents.\<close>

lemma parents_map:
  assumes "distinct (map si_key snapshots)" and "s \<in> set snapshots"
  shows "map_get (fold (\<lambda>(k, v) m. map_set k v m) (map (\<lambda>s. (si_key s, si_parent s)) snapshots) []) (si_key s)
    = Some (si_parent s)"
proof -
  have "distinct (map fst (rev (map (\<lambda>s. (si_key s, si_parent s)) snapshots)))"
    using assms(1) by (simp add: o_def flip: rev_map)
  moreover have "(si_key s, si_parent s) \<in> set (rev (map (\<lambda>s. (si_key s, si_parent s)) snapshots))"
    using assms(2) by auto
  ultimately have "map_of (rev (map (\<lambda>s. (si_key s, si_parent s)) snapshots)) (si_key s) = Some (si_parent s)"
    by (rule map_of_is_SomeI)
  then show ?thesis unfolding map_get_fold_set by simp
qed

lemma retain_keys_closed:
  assumes "distinct (map si_key snapshots)" and "s \<in> set snapshots"
    and "si_key s \<in> set (retain_keys policy locks keepsRemoved now snapshots)" and "si_parent s = Some p"
  shows "p \<in> set (retain_keys policy locks keepsRemoved now snapshots)"
proof -
  let ?parents = "fold (\<lambda>(k, v) m. map_set k v m) (map (\<lambda>s. (si_key s, si_parent s)) snapshots) []"
  define keys where "keys = snd (keep_loop (set (rp_pinned policy))
    (set (take_number (rp_branches policy) (ranked_branches snapshots)))
    (add_number (rp_perBranch policy) (if locks \<or> keepsRemoved then 0 else 1)) locks now snapshots ([], []))"
  have "closed_but ?parents (set keys) None (set keys)" by (auto simp: closed_but_def)
  from keep_all_parents [OF this]
  have "closed_but ?parents {} None (set (retain_keys policy locks keepsRemoved now snapshots))"
    by (simp add: retain_keys_def Let_def keys_def)
  then show ?thesis
    using assms(3,4) parents_map [OF assms(1,2)] unfolding closed_but_def by force
qed

lemma retain_keys_itself:
  assumes "i < length snapshots"
    and "kept_itself (set (rp_pinned policy)) (set (take_number (rp_branches policy) (ranked_branches snapshots)))
      (add_number (rp_perBranch policy) (if locks \<or> keepsRemoved then 0 else 1)) locks now
      (take i snapshots) (snapshots ! i)"
  shows "si_key (snapshots ! i) \<in> set (retain_keys policy locks keepsRemoved now snapshots)"
proof -
  let ?parents = "fold (\<lambda>(k, v) m. map_set k v m) (map (\<lambda>s. (si_key s, si_parent s)) snapshots) []"
  define keys where "keys = snd (keep_loop (set (rp_pinned policy))
    (set (take_number (rp_branches policy) (ranked_branches snapshots)))
    (add_number (rp_perBranch policy) (if locks \<or> keepsRemoved then 0 else 1)) locks now snapshots ([], []))"
  have "si_key (snapshots ! i) \<in> set keys"
    unfolding keys_def using keep_loop_spec [of "[]" _ "[]"] assms by (force simp: newer_count_def)
  moreover have "closed_but ?parents (set keys) None (set keys)" by (auto simp: closed_but_def)
  from keep_all_parents [OF this] have "set keys \<subseteq> set (retain_keys policy locks keepsRemoved now snapshots)"
    by (simp add: retain_keys_def Let_def keys_def)
  ultimately show ?thesis by blast
qed

section \<open>What retain leaves\<close>

text \<open>
  The contract of a store with \<open>list\<close>: what it lists is what it holds, each key once, with the parent
  of its layout.
\<close>

locale listed_store = snapshot_store get add remove ok
  for get :: "'s \<Rightarrow> stored_map" and add remove ok +
  fixes list :: "'s \<Rightarrow> snapshot_info list"
  assumes list_get: "ok st \<Longrightarrow> keys_ok (get st) \<Longrightarrow>
      distinct (map si_key (list st)) \<and> set (list st) = {i. \<exists>k. map_option st_info (get st k) = Some i}"
begin

lemma delete_loop_get:
  assumes "ok st" and "delete_loop remove free keys i ss (st, deleted) = (st', deleted')"
  shows "ok st' \<and> (\<forall>k. get st' k = get st k \<or> k \<notin> keys \<and> k \<in> set deleted' \<and> get st' k = None)
    \<and> set deleted \<subseteq> set deleted' \<and> (parents_ok (get st) \<longrightarrow> parents_ok (get st'))
    \<and> (\<forall>k \<in> set deleted' - set deleted. get st k \<noteq> None \<and> get st' k = None)"
  using assms
proof (induction ss arbitrary: i st deleted)
  case Nil
  then show ?case by simp
next
  case (Cons s ss)
  let ?k = "si_key s"
  show ?case
  proof (cases "?k \<in> keys \<or> \<not> free i ?k")
    case True
    then show ?thesis using Cons.IH [of st "Suc i" deleted] Cons.prems by simp
  next
    case False
    obtain st1 b where r: "remove st ?k False = (st1, b)" by (cases "remove st ?k False")
    have rest: "delete_loop remove free keys (Suc i) ss (st1, if b then deleted @ [?k] else deleted) = (st', deleted')"
      using Cons.prems(2) False r by simp
    show ?thesis
    proof (cases b)
      case True
      have st1: "ok st1 \<and> get st ?k \<noteq> None \<and> get st1 = (get st)(?k := None)"
        using remove_True [OF Cons.prems(1), of ?k False st1] r True by simp
      have "parents_ok (get st1)" if "parents_ok (get st)"
        using step_parents [OF Cons.prems(1) that, of "Remove ?k"] r
        by (simp add: fits_def step_def store_step_def)
      moreover have ok1: "ok st1" using st1 by simp
      note IH = Cons.IH [OF ok1 rest]
      ultimately have par: "parents_ok (get st) \<longrightarrow> parents_ok (get st')" using IH by blast
      have st1k: "get st1 k = (if k = ?k then None else get st k)" for k using st1 by simp
      have a: "get st' k = get st1 k \<or> k \<notin> keys \<and> k \<in> set deleted' \<and> get st' k = None" for k
        using IH by blast
      have c: "set deleted \<subseteq> set deleted'" "?k \<in> set deleted'" using IH True by auto
      have b: "get st1 k \<noteq> None \<and> get st' k = None" if "k \<in> set deleted' - set deleted" "k \<noteq> ?k" for k
        using IH that True by simp
      have "get st' k = get st k \<or> k \<notin> keys \<and> k \<in> set deleted' \<and> get st' k = None" for k
        using a [of k] st1k [of k] c(2) False by (cases "k = ?k") simp_all
      moreover have "get st k \<noteq> None \<and> get st' k = None" if "k \<in> set deleted' - set deleted" for k
        using a [of k] b [OF that] st1k [of k] st1 by (cases "k = ?k") auto
      ultimately show ?thesis using IH [THEN conjunct1] par c(1) by blast
    next
      case b: False
      have "ok st1 \<and> get st1 = get st"
        using remove_False [OF Cons.prems(1), of ?k False st1] r b by simp
      then show ?thesis
        using Cons.IH [OF _ rest] b by simp
    qed
  qed
qed

end

text \<open>A chain of kept snapshots reads the same from a store that kept them.\<close>

lemma read_chain_kept:
  assumes "\<And>k. k \<in> K \<Longrightarrow> g' k = g k"
    and "\<And>k sn d. k \<in> K \<Longrightarrow> g k = Some sn \<Longrightarrow> st_delta sn = Some d \<Longrightarrow> dl_parent d \<in> K"
    and "pos \<in> K" and "read_chain (\<lambda>_. g) i pos ss"
  shows "read_chain (\<lambda>_. g') i pos ss"
  using assms(3,4)
proof (induction ss arbitrary: i pos)
  case Nil
  then show ?case by simp
next
  case (Cons sn ts)
  show ?case
  proof (cases "st_delta sn")
    case None
    then show ?thesis using Cons.prems assms(1) by simp
  next
    case (Some d)
    then have "dl_parent d \<in> K" using Cons.prems assms(2) [of pos sn d] by simp
    then show ?thesis using Cons Some assms(1) by simp
  qed
qed

definition infos_ok :: "stored_map \<Rightarrow> bool" where
  "infos_ok g \<longleftrightarrow> keys_ok g \<and>
     (\<forall>k sn. g k = Some sn \<longrightarrow> si_parent (st_info sn) = map_option dl_parent (st_delta sn))"

context listed_store begin

lemma retain_get:
  assumes "ok st" and "infos_ok (get st)"
    and "retain list remove free locks keepsRemoved now policy st = Inr (st', deleted)"
  defines "K \<equiv> set (retain_keys policy locks keepsRemoved now (newest_first (list st)))"
  shows "ok st'" and "k \<in> K \<Longrightarrow> get st' k = get st k"
    and "get st' k = get st k \<or> k \<in> set deleted \<and> get st' k = None"
    and "k \<in> set deleted \<Longrightarrow> get st k \<noteq> None \<and> get st' k = None"
    and "parents_ok (get st) \<Longrightarrow> parents_ok (get st')"
    and "k \<in> K \<Longrightarrow> get st k = Some sn \<Longrightarrow> st_delta sn = Some d \<Longrightarrow> dl_parent d \<in> K"
proof -
  have loop: "delete_loop remove free K 0 (newest_first (list st)) (st, []) = (st', deleted)"
    using assms(3) by (auto simp: retain_def and_then_eq_Inr storage_list_def Let_def K_def)
  note d = delete_loop_get [OF assms(1) loop]
  show "ok st'" using d by blast
  show "get st' k = get st k \<or> k \<in> set deleted \<and> get st' k = None" using d by blast
  show "parents_ok (get st) \<Longrightarrow> parents_ok (get st')" using d by blast
  show "k \<in> set deleted \<Longrightarrow> get st k \<noteq> None \<and> get st' k = None" using d by simp
  show "k \<in> K \<Longrightarrow> get st' k = get st k" using d by blast
  have keys: "keys_ok (get st)" using assms(2) by (simp add: infos_ok_def)
  note l = list_get [OF assms(1) keys]
  assume k: "k \<in> K" "get st k = Some sn" "st_delta sn = Some d"
  have s: "st_info sn \<in> set (newest_first (list st))" "si_key (st_info sn) = k"
    using l k(2) keys by (auto simp: newest_first_def keys_ok_def)
  have "distinct (map si_key (newest_first (list st)))"
  proof -
    have "inj_on si_key (set (list st))" "distinct (list st)"
      using l [THEN conjunct1] by (simp_all add: distinct_map)
    then show ?thesis by (simp add: distinct_map newest_first_def)
  qed
  moreover have "si_parent (st_info sn) = Some (dl_parent d)"
    using assms(2) k(2,3) by (simp add: infos_ok_def)
  ultimately show "dl_parent d \<in> K"
    using retain_keys_closed [of "newest_first (list st)" "st_info sn" policy locks keepsRemoved now] s k(1)
    by (simp add: K_def)
qed

lemma retain_resolves:
  assumes "ok st" and "infos_ok (get st)"
    and "retain list remove free locks keepsRemoved now policy st = Inr (st', deleted)"
    and "key \<in> set (retain_keys policy locks keepsRemoved now (newest_first (list st)))"
    and "resolve n (\<lambda>_. get st) key = Inr (Some (b, held))"
  shows "resolve n (\<lambda>_. get st') key = Inr (Some (b, held))"
proof -
  note r = retain_get [OF assms(1-3)]
  obtain found where f: "resolve_loop (\<lambda>_. get st) key key [] [] = Inr (Some (found, held))"
    and b: "b = baseOf (build_layer n (hd found) (tl found))"
    using assms(5) by (auto simp: resolve_def and_then_eq_Inr)
  have ss: "read_chain (\<lambda>_. get st) 0 key found" "length found \<le> Suc MAX_CHAIN" "held = chain_keys key found"
    using resolve_loop_sound [OF f] by auto
  have "read_chain (\<lambda>_. get st') 0 key found"
    by (rule read_chain_kept [OF r(2) r(6) assms(4) ss(1)])
  then show ?thesis
    using resolve_chain [of "\<lambda>_. get st'" key "hd found" "tl found" n] ss b by (cases found) auto
qed

end

lemma map_set_list:
  assumes "map_ok m"
  shows "set (map f m) = {f (k, v) | k v. map_get m k = Some v}"
  using assms by (force simp: map_ok_def)

interpretation mem_listed: listed_store mem_get mem_add mem_remove mem_ok mem_list
proof
  fix st
  assume ok: "mem_ok st" and keys: "keys_ok (mem_get st)"
  have m: "map_ok (ms_bases st)" using ok by (simp add: mem_ok_def)
  have key: "si_key (mb_info b) = k" if "map_get (ms_bases st) k = Some b" for k b
    using keys that by (fastforce simp: keys_ok_def mem_get_def)
  have "map si_key (mem_list st) = map fst (ms_bases st)"
    using m key by (auto simp: mem_list_def map_ok_def)
  moreover have "set (mem_list st) = {i. \<exists>k. map_option st_info (mem_get st k) = Some i}"
    unfolding mem_list_def map_set_list [OF m] by (force simp: mem_get_def option.map_comp o_def)
  ultimately show "distinct (map si_key (mem_list st))
      \<and> set (mem_list st) = {i. \<exists>k. map_option st_info (mem_get st k) = Some i}"
    using m by (simp add: map_ok_def)
qed

interpretation idb_listed: listed_store idb_get idb_add idb_remove idb_ok idb_list
proof
  fix st
  assume ok: "idb_ok st" and keys: "keys_ok (idb_get st)"
  have m: "map_ok st" using ok by (simp add: idb_ok_def)
  have key: "si_key (idb_info r) = k" if "map_get st k = Some r" for k r
    using keys that by (fastforce simp: keys_ok_def idb_get_def)
  have "map si_key (idb_list st) = map fst st"
    using m key by (auto simp: idb_list_def map_ok_def)
  moreover have "set (idb_list st) = {i. \<exists>k. map_option st_info (idb_get st k) = Some i}"
    unfolding idb_list_def map_set_list [OF m] by (force simp: idb_get_def option.map_comp o_def)
  ultimately show "distinct (map si_key (idb_list st))
      \<and> set (idb_list st) = {i. \<exists>k. map_option st_info (idb_get st k) = Some i}"
    using m by (simp add: map_ok_def)
qed

section \<open>Opening finds the newest readable snapshot\<close>

lemma pick_default_member: "pick_default branch ss = Some s \<Longrightarrow> s \<in> set ss"
  by (auto simp: pick_default_def find_Some_iff split: option.splits list.splits)

text \<open>
  With a \<open>choose\<close> that picks one of the snapshots it is given, the loop ends: every attempt that
  fails leaves one snapshot fewer.
\<close>

lemma open_loop_ends:
  assumes "\<And>ss s. pick ss = Some s \<Longrightarrow> s \<in> set ss"
  shows "\<exists>r. open_loop pick attempt listed i unreadable = Some r"
proof (induction "length (filter (\<lambda>s. si_key s \<notin> set unreadable) listed)" arbitrary: i unreadable rule: less_induct)
  case less
  let ?rest = "filter (\<lambda>s. si_key s \<notin> set unreadable) listed"
  show ?case
  proof (cases "pick ?rest")
    case None
    then show ?thesis by (subst open_loop.simps) simp
  next
    case (Some s)
    then have s: "s \<in> set ?rest" by (rule assms)
    show ?thesis
    proof (cases "attempt i (si_key s)")
      case (Inr db)
      then show ?thesis using Some by (subst open_loop.simps) simp
    next
      case (Inl e)
      have "length (filter (\<lambda>x. si_key x \<notin> set (unreadable @ [si_key s])) listed)
          = length (filter (\<lambda>x. si_key x \<noteq> si_key s) ?rest)"
        by (simp add: conj_commute)
      also have "\<dots> < length ?rest"
        using s by (intro length_filter_less [of s]) simp_all
      finally obtain r where "open_loop pick attempt listed (Suc i) (unreadable @ [si_key s]) = Some r"
        using less.hyps by blast
      then show ?thesis using Some Inl by (subst open_loop.simps) auto
    qed
  qed
qed

text \<open>
  By default, the snapshot that opens is the first of its branch in the list for which no attempt
  failed: those before it are unreadable.
\<close>

definition of_branch :: "string option \<Rightarrow> snapshot_info \<Rightarrow> bool" where
  "of_branch branch s = (case branch of None \<Rightarrow> True | Some b \<Rightarrow> si_branch s = b)"

lemma pick_default_first: "pick_default branch ss = find (of_branch branch) ss"
proof (cases branch)
  case None
  then have "of_branch branch = (\<lambda>_. True)" by (simp add: of_branch_def fun_eq_iff)
  then show ?thesis using None by (cases ss) (simp_all add: pick_default_def)
next
  case (Some b)
  then have "of_branch branch = (\<lambda>s. si_branch s = b)" by (simp add: of_branch_def fun_eq_iff)
  then show ?thesis using Some by (simp add: pick_default_def)
qed

lemma find_filter_Some:
  "find P (filter Q xs) = Some x \<Longrightarrow>
   \<exists>pre post. xs = pre @ x # post \<and> P x \<and> Q x \<and> (\<forall>y \<in> set pre. P y \<longrightarrow> \<not> Q y)"
proof (induction xs)
  case Nil
  then show ?case by simp
next
  case (Cons y ys)
  show ?case
  proof (cases "P y \<and> Q y")
    case True
    then show ?thesis using Cons.prems by (intro exI [of _ "[]"] exI [of _ ys]) simp
  next
    case False
    then obtain pre post where "ys = pre @ x # post" "P x" "Q x" "\<forall>y \<in> set pre. P y \<longrightarrow> \<not> Q y"
      using Cons by (auto split: if_splits)
    then show ?thesis using False by (intro exI [of _ "y # pre"] exI [of _ post]) auto
  qed
qed

lemma open_loop_first:
  assumes "open_loop (pick_default branch) attempt listed i unreadable = Some (Opened key db)"
  shows "\<exists>k. i \<le> k \<and> attempt k key = Inr db \<and>
    (\<exists>pre s post. listed = pre @ s # post \<and> si_key s = key \<and> of_branch branch s \<and>
       (\<forall>x \<in> set pre. of_branch branch x \<longrightarrow> si_key x \<in> set unreadable \<or>
          (\<exists>j \<ge> i. attempt j (si_key x) = Inl (SqliteError SQLITE_CANTOPEN))))"
  using assms
proof (induction "length (filter (\<lambda>s. si_key s \<notin> set unreadable) listed)" arbitrary: i unreadable rule: less_induct)
  case less
  let ?rest = "filter (\<lambda>s. si_key s \<notin> set unreadable) listed"
  obtain s where pick: "pick_default branch ?rest = Some s"
    using less.prems by (subst (asm) open_loop.simps) (auto split: option.splits)
  obtain pre post where s: "listed = pre @ s # post" "of_branch branch s" "si_key s \<notin> set unreadable"
    and pre: "\<forall>y \<in> set pre. of_branch branch y \<longrightarrow> si_key y \<in> set unreadable"
    using find_filter_Some [OF pick [unfolded pick_default_first]] by blast
  show ?case
  proof (cases "attempt i (si_key s)")
    case (Inr db')
    then have "db' = db" "si_key s = key"
      using less.prems pick s(3) by (subst (asm) open_loop.simps, simp)+
    then show ?thesis using Inr s(1,2) pre by blast
  next
    case (Inl e)
    then have e: "e = SqliteError SQLITE_CANTOPEN"
      and rest: "open_loop (pick_default branch) attempt listed (Suc i) (unreadable @ [si_key s]) = Some (Opened key db)"
      using less.prems pick s(3) by (subst (asm) open_loop.simps, simp split: if_splits)+
    have "length (filter (\<lambda>x. si_key x \<notin> set (unreadable @ [si_key s])) listed)
        = length (filter (\<lambda>x. si_key x \<noteq> si_key s) ?rest)"
      by (simp add: conj_commute)
    also have "\<dots> < length ?rest"
      using s by (intro length_filter_less [of s]) simp_all
    finally obtain k pre' s' post' where k: "Suc i \<le> k" "attempt k key = Inr db"
      and s': "listed = pre' @ s' # post'" "si_key s' = key" "of_branch branch s'"
      and pre': "\<forall>x \<in> set pre'. of_branch branch x \<longrightarrow> si_key x \<in> set (unreadable @ [si_key s]) \<or>
          (\<exists>j \<ge> Suc i. attempt j (si_key x) = Inl (SqliteError SQLITE_CANTOPEN))"
      using less.hyps [OF _ rest] by blast
    have "si_key x \<in> set unreadable \<or> (\<exists>j \<ge> i. attempt j (si_key x) = Inl (SqliteError SQLITE_CANTOPEN))"
      if x: "x \<in> set pre'" "of_branch branch x" for x
    proof -
      consider "si_key x \<in> set unreadable" | "si_key x = si_key s"
        | j where "Suc i \<le> j" "attempt j (si_key x) = Inl (SqliteError SQLITE_CANTOPEN)"
        using bspec [OF pre' x(1)] x(2) by auto
      then show ?thesis using Inl e by cases (auto dest: Suc_leD)
    qed
    then show ?thesis using k s' by (intro exI [of _ k]) auto
  qed
qed

section \<open>The keys retain keeps, exactly\<close>

lemma keep_parents_within:
  "(\<And>k p. R k \<Longrightarrow> map_get parents k = Some (Some p) \<Longrightarrow> R p) \<Longrightarrow> \<forall>k \<in> set keys. R k \<Longrightarrow>
   (\<And>k. pos = Some k \<Longrightarrow> R k) \<Longrightarrow> k \<in> set (keep_parents parents pos keys) \<Longrightarrow> R k"
proof (induction parents pos keys rule: keep_parents.induct)
  case (1 parents pos keys)
  show ?case
  proof (cases pos)
    case None
    then show ?thesis using "1.prems"(2,4) by (subst (asm) keep_parents.simps) simp
  next
    case (Some j)
    show ?thesis
    proof (cases "j \<in> set keys")
      case True
      then show ?thesis using "1.prems"(2,4) Some by (subst (asm) keep_parents.simps) simp
    next
      case False
      let ?next = "case map_get parents j of None \<Rightarrow> None | Some p \<Rightarrow> p"
      have k: "k \<in> set (keep_parents parents ?next (keys @ [j]))"
        using "1.prems"(4) Some False by (subst (asm) keep_parents.simps) simp
      have "R j" using "1.prems"(3) Some by blast
      moreover from this have "R p" if "?next = Some p" for p
        using "1.prems"(1) [of j p] that by (simp split: option.splits)
      ultimately show ?thesis
        using "1.IH" [OF Some False "1.prems"(1) _ _ k] "1.prems"(2) by simp
    qed
  qed
qed

lemma keep_all_within:
  fixes parents :: "(string \<times> string option) list"
  assumes "\<And>k p. R k \<Longrightarrow> map_get parents k = Some (Some p) \<Longrightarrow> R p"
    and "\<forall>k \<in> set ks. R k" and "\<forall>k \<in> set keys. R k"
  shows "\<forall>k \<in> set (fold (\<lambda>key keys. keep_parents parents
      (case map_get parents key of None \<Rightarrow> None | Some p \<Rightarrow> p) keys) ks keys). R k"
  using assms(2,3)
proof (induction ks arbitrary: keys)
  case (Cons k ks)
  have "R p" if "(case map_get parents k of None \<Rightarrow> None | Some p \<Rightarrow> p) = Some p" for p
    using assms(1) [of k p] Cons.prems(1) that by (simp split: option.splits)
  then have "\<forall>j \<in> set (keep_parents parents (case map_get parents k of None \<Rightarrow> None | Some p \<Rightarrow> p) keys). R j"
    using keep_parents_within [of R parents keys] assms(1) Cons.prems(2) by blast
  then show ?case using Cons.IH Cons.prems(1) by simp
qed simp

text \<open>What the policy keeps of the snapshots, newest first: those kept for themselves.\<close>

abbreviation policy_keeps ::
  "retain_policy \<Rightarrow> bool \<Rightarrow> bool \<Rightarrow> rat \<Rightarrow> snapshot_info list \<Rightarrow> nat \<Rightarrow> bool" where
  "policy_keeps policy locks keepsRemoved now snapshots i \<equiv>
     kept_itself (set (rp_pinned policy)) (set (take_number (rp_branches policy) (ranked_branches snapshots)))
       (add_number (rp_perBranch policy) (if locks \<or> keepsRemoved then 0 else 1)) locks now
       (take i snapshots) (snapshots ! i)"

definition lies_over :: "snapshot_info list \<Rightarrow> (string \<times> string) set" where
  "lies_over snapshots = {(si_key s, p) | s p. s \<in> set snapshots \<and> si_parent s = Some p}"

lemma retain_keys_exact:
  assumes "distinct (map si_key snapshots)"
  shows "set (retain_keys policy locks keepsRemoved now snapshots) =
    {k. \<exists>i < length snapshots. policy_keeps policy locks keepsRemoved now snapshots i
        \<and> (si_key (snapshots ! i), k) \<in> (lies_over snapshots)\<^sup>*}" (is "?K = {k. ?R k}")
proof (intro subset_antisym subsetI CollectI)
  fix k assume "k \<in> {k. ?R k}"
  then obtain i where i: "i < length snapshots" "policy_keeps policy locks keepsRemoved now snapshots i"
    and path: "(si_key (snapshots ! i), k) \<in> (lies_over snapshots)\<^sup>*" by blast
  from path show "k \<in> ?K"
  proof (induction rule: rtrancl_induct)
    case base
    show ?case using retain_keys_itself [OF i] .
  next
    case (step k p)
    then obtain s where "s \<in> set snapshots" "si_key s = k" "si_parent s = Some p"
      by (auto simp: lies_over_def)
    then show ?case using retain_keys_closed [OF assms] step.IH by metis
  qed
next
  fix k assume k: "k \<in> ?K"
  let ?parents = "fold (\<lambda>(k, v) m. map_set k v m) (map (\<lambda>s. (si_key s, si_parent s)) snapshots) []"
  define keys where "keys = snd (keep_loop (set (rp_pinned policy))
    (set (take_number (rp_branches policy) (ranked_branches snapshots)))
    (add_number (rp_perBranch policy) (if locks \<or> keepsRemoved then 0 else 1)) locks now snapshots ([], []))"
  have up: "?R p" if "?R k" "map_get ?parents k = Some (Some p)" for k p
  proof -
    have "(k, Some p) \<in> set (map (\<lambda>s. (si_key s, si_parent s)) snapshots)"
      using that(2) unfolding map_get_fold_set by (auto dest: map_of_SomeD)
    then have "(k, p) \<in> lies_over snapshots" by (auto simp: lies_over_def)
    then show ?thesis using that(1) by (meson rtrancl.rtrancl_into_rtrancl)
  qed
  have "\<forall>k \<in> set keys. ?R k"
    unfolding keys_def using keep_loop_spec [of "[]" _ "[]"] by (force simp: newer_count_def)
  with keep_all_within [of ?R ?parents keys keys] up show "?R k"
    using k by (simp add: retain_keys_def Let_def keys_def)
qed

lemma find_sorted_max:
  assumes "sorted (map f xs)" and "find P xs = Some x" and "y \<in> set xs" and "P y"
  shows "f x \<le> f y"
  using assms by (induction xs) (auto split: if_splits)

lemma last_by_time_max:
  "last_by_time kl rs = Some r \<Longrightarrow> r \<in> set rs \<and> (\<forall>x \<in> set rs. ir_createdAt x \<le> ir_createdAt r)"
proof (induction rs arbitrary: r)
  case Nil
  then show ?case by simp
next
  case (Cons x xs)
  show ?case
  proof (cases "last_by_time kl xs")
    case None
    then have "xs = []" by (cases xs) (auto split: option.splits if_splits)
    then show ?thesis using Cons.prems by simp
  next
    case (Some best)
    then show ?thesis using Cons.IH [OF Some] Cons.prems by (fastforce split: if_splits)
  qed
qed

lemma last_by_time_None: "last_by_time kl rs = None \<longleftrightarrow> rs = []"
  by (cases rs) (auto split: option.splits if_splits)

lemma listed_head:
  fixes stored :: "snapshot_info list" and branch :: "string option"
  defines "listed \<equiv> find (\<lambda>s. 0 < si_size s) (storage_list stored branch)"
  shows "(listed = None \<longleftrightarrow> (\<forall>x \<in> set stored. of_branch branch x \<longrightarrow> si_size x = 0)) \<and>
    (\<forall>s. listed = Some s \<longrightarrow> s \<in> set stored \<and> of_branch branch s \<and> 0 < si_size s \<and>
       (\<forall>x \<in> set stored. of_branch branch x \<and> 0 < si_size x \<longrightarrow> si_createdAt x \<le> si_createdAt s))"
proof -
  have "(\<lambda>s. si_branch s = b) = of_branch (Some b)" for b by (simp add: of_branch_def fun_eq_iff)
  then have l: "storage_list stored branch = filter (of_branch branch) (newest_first stored)"
    by (cases branch) (simp_all add: storage_list_def of_branch_def [of None])
  have set: "set (newest_first stored) = set stored" by (simp add: newest_first_def)
  have sorted: "sorted (map (\<lambda>s. - si_createdAt s) (storage_list stored branch))"
    unfolding l newest_first_def by (intro sorted_filter) simp
  have "listed = None \<longleftrightarrow> (\<forall>x \<in> set stored. of_branch branch x \<longrightarrow> si_size x = 0)"
    by (auto simp: listed_def find_None_iff l set)
  moreover have "s \<in> set stored \<and> of_branch branch s \<and> 0 < si_size s \<and>
       (\<forall>x \<in> set stored. of_branch branch x \<and> 0 < si_size x \<longrightarrow> si_createdAt x \<le> si_createdAt s)"
    if s: "listed = Some s" for s
  proof -
    have "s \<in> set (storage_list stored branch)" "0 < si_size s"
      using s by (auto simp: listed_def find_Some_iff)
    moreover have "- si_createdAt s \<le> - si_createdAt x"
      if "x \<in> set (storage_list stored branch)" "0 < si_size x" for x
      using find_sorted_max [OF sorted s [unfolded listed_def] that] .
    ultimately show ?thesis by (simp add: l set)
  qed
  ultimately show ?thesis by blast
qed

section \<open>Properties\<close>

lemma memory_retain:
  assumes "mem_ok st" and "infos_ok (mem_get st)" and "parents_ok (mem_get st)"
    and "retain mem_list mem_remove free locks keepsRemoved now policy st = Inr (st', deleted)"
  defines "K \<equiv> set (retain_keys policy locks keepsRemoved now (newest_first (mem_list st)))"
  shows "(\<forall>key \<in> K. mem_get st' key = mem_get st key \<and>
        (\<forall>n b held. resolve n (\<lambda>_. mem_get st) key = Inr (Some (b, held)) \<longrightarrow>
           resolve n (\<lambda>_. mem_get st') key = Inr (Some (b, held))))
    \<and> (\<forall>key. key \<in> set deleted \<longleftrightarrow> mem_get st key \<noteq> None \<and> mem_get st' key = None)
    \<and> (\<forall>key. key \<notin> set deleted \<longrightarrow> mem_get st' key = mem_get st key)
    \<and> mem_ok st' \<and> parents_ok (mem_get st')"
  using mem_listed.retain_get [OF assms(1,2,4)] mem_listed.retain_resolves [OF assms(1,2,4)] assms(3)
  unfolding K_def by (metis (no_types, lifting))

lemma idb_retain:
  assumes "idb_ok st" and "infos_ok (idb_get st)" and "parents_ok (idb_get st)"
    and "retain idb_list idb_remove free locks keepsRemoved now policy st = Inr (st', deleted)"
  defines "K \<equiv> set (retain_keys policy locks keepsRemoved now (newest_first (idb_list st)))"
  shows "(\<forall>key \<in> K. idb_get st' key = idb_get st key \<and>
        (\<forall>n b held. resolve n (\<lambda>_. idb_get st) key = Inr (Some (b, held)) \<longrightarrow>
           resolve n (\<lambda>_. idb_get st') key = Inr (Some (b, held))))
    \<and> (\<forall>key. key \<in> set deleted \<longleftrightarrow> idb_get st key \<noteq> None \<and> idb_get st' key = None)
    \<and> (\<forall>key. key \<notin> set deleted \<longrightarrow> idb_get st' key = idb_get st key)
    \<and> idb_ok st' \<and> parents_ok (idb_get st')"
  using idb_listed.retain_get [OF assms(1,2,4)] idb_listed.retain_resolves [OF assms(1,2,4)] assms(3)
  unfolding K_def by (metis (no_types, lifting))

text \<open>
  C17. \<open>retain\<close> on the memory store and on the IndexedDB store: what the policy keeps, and everything it
  lies over, stays and resolves as before; nothing but what it reports is deleted; and every delta still
  has its parent.
\<close>

theorem retain_safe:
  assumes "mem_ok st" and "infos_ok (mem_get st)" and "parents_ok (mem_get st)"
    and "retain mem_list mem_remove free locks keepsRemoved now policy st = Inr (st', deleted)"
    and "idb_ok it" and "infos_ok (idb_get it)" and "parents_ok (idb_get it)"
    and "retain idb_list idb_remove free locks keepsRemoved now policy it = Inr (it', gone)"
  shows "(\<forall>key \<in> set (retain_keys policy locks keepsRemoved now (newest_first (mem_list st))).
        mem_get st' key = mem_get st key \<and>
        (\<forall>n b held. resolve n (\<lambda>_. mem_get st) key = Inr (Some (b, held)) \<longrightarrow>
           resolve n (\<lambda>_. mem_get st') key = Inr (Some (b, held))))
    \<and> (\<forall>key. key \<in> set deleted \<longleftrightarrow> mem_get st key \<noteq> None \<and> mem_get st' key = None)
    \<and> (\<forall>key. key \<notin> set deleted \<longrightarrow> mem_get st' key = mem_get st key)
    \<and> mem_ok st' \<and> parents_ok (mem_get st')
    \<and> (\<forall>key \<in> set (retain_keys policy locks keepsRemoved now (newest_first (idb_list it))).
        idb_get it' key = idb_get it key \<and>
        (\<forall>n b held. resolve n (\<lambda>_. idb_get it) key = Inr (Some (b, held)) \<longrightarrow>
           resolve n (\<lambda>_. idb_get it') key = Inr (Some (b, held))))
    \<and> (\<forall>key. key \<in> set gone \<longleftrightarrow> idb_get it key \<noteq> None \<and> idb_get it' key = None)
    \<and> (\<forall>key. key \<notin> set gone \<longrightarrow> idb_get it' key = idb_get it key)
    \<and> idb_ok it' \<and> parents_ok (idb_get it')"
  using memory_retain [OF assms(1-4)] idb_retain [OF assms(5-8)] by (intro conjI) (elim conjE; assumption)+

definition ex_default :: retain_policy where
  "ex_default = \<lparr>rp_perBranch = Whole 1, rp_branches = Infinity, rp_pinned = []\<rparr>"

definition ex_old_info :: snapshot_info where
  "ex_old_info = \<lparr>si_key = ''z'', si_branch = [], si_meta = [], si_createdAt = 4, si_size = 1, si_parent = None\<rparr>"

definition ex_new_info :: snapshot_info where
  "ex_new_info = \<lparr>si_key = ''y'', si_branch = [], si_meta = [], si_createdAt = 9, si_size = 1, si_parent = None\<rparr>"

definition ex_two :: mem_store where
  "ex_two = \<lparr>ms_bases = [(''z'', \<lparr>mb_info = ex_old_info, mb_data = [7], mb_delta = None\<rparr>),
     (''y'', \<lparr>mb_info = ex_new_info, mb_data = [8], mb_delta = None\<rparr>)], ms_last = 9\<rparr>"

lemma ex_newest_first: "newest_first [ex_old_info, ex_new_info] = [ex_new_info, ex_old_info]"
  by (simp add: newest_first_def ex_old_info_def ex_new_info_def)

lemma ex_retain_keys: "retain_keys ex_default False True 10 [ex_new_info, ex_old_info] = [''y'']"
  by (simp add: retain_keys_def Let_def ex_default_def take_number_def add_number_def ranked_branches_def
      ex_old_info_def ex_new_info_def le_number_def keep_parents.simps)

definition ex_two_idb :: idb_store where
  "ex_two_idb = [(''z'', \<lparr>ir_key = ''z'', ir_branch = [], ir_meta = [], ir_createdAt = 4, ir_size = 1,
       ir_blob = Blob [7], ir_delta = None, ir_parent = None\<rparr>),
     (''y'', \<lparr>ir_key = ''y'', ir_branch = [], ir_meta = [], ir_createdAt = 9, ir_size = 1,
       ir_blob = Blob [8], ir_delta = None, ir_parent = None\<rparr>)]"

theorem retain_safe_witness:
  "\<exists>st' it' deleted gone.
     retain mem_list mem_remove (\<lambda>_ _. True) False True 10 ex_default ex_two = Inr (st', deleted)
     \<and> retain idb_list idb_remove (\<lambda>_ _. True) False True 10 ex_default ex_two_idb = Inr (it', gone)
     \<and> set deleted = {''z''} \<and> mem_get st' ''y'' = mem_get ex_two ''y''
     \<and> set gone = {''z''} \<and> idb_get it' ''y'' = idb_get ex_two_idb ''y''"
proof -
  have ok: "mem_ok ex_two" "idb_ok ex_two_idb"
    by (auto simp: mem_ok_def idb_ok_def map_ok_def ex_two_def ex_two_idb_def ex_old_info_def ex_new_info_def split: if_splits)
  have infos: "infos_ok (mem_get ex_two)" and parents: "parents_ok (mem_get ex_two)"
    by (auto simp: infos_ok_def keys_ok_def parents_ok_def mem_get_def ex_two_def ex_old_info_def ex_new_info_def
        split: if_splits)
  have infos': "infos_ok (idb_get ex_two_idb)" and parents': "parents_ok (idb_get ex_two_idb)"
    by (auto simp: infos_ok_def keys_ok_def parents_ok_def idb_get_def idb_info_def ex_two_idb_def split: if_splits)
  have list: "mem_list ex_two = [ex_old_info, ex_new_info]" "idb_list ex_two_idb = [ex_old_info, ex_new_info]"
    by (simp_all add: mem_list_def ex_two_def idb_list_def ex_two_idb_def idb_info_def ex_old_info_def ex_new_info_def)
  obtain st' deleted where r: "retain mem_list mem_remove (\<lambda>_ _. True) False True 10 ex_default ex_two = Inr (st', deleted)"
    and d: "deleted = [''z'']"
    by (simp add: retain_def storage_list_def list ex_newest_first ex_retain_keys Let_def)
      (simp add: ex_default_def wholeNumber_def ex_old_info_def ex_new_info_def mem_remove_def ex_two_def)
  obtain it' gone where r': "retain idb_list idb_remove (\<lambda>_ _. True) False True 10 ex_default ex_two_idb = Inr (it', gone)"
    and d': "gone = [''z'']"
    by (simp add: retain_def storage_list_def list ex_newest_first ex_retain_keys Let_def)
      (simp add: ex_default_def wholeNumber_def ex_old_info_def ex_new_info_def idb_remove_def ex_two_idb_def)
  have K: "''y'' \<in> set (retain_keys ex_default False True 10 (newest_first (mem_list ex_two)))"
    "''y'' \<in> set (retain_keys ex_default False True 10 (newest_first (idb_list ex_two_idb)))"
    by (simp_all add: list ex_newest_first ex_retain_keys)
  from retain_safe [OF ok(1) infos parents r ok(2) infos' parents' r'] K r d r' d' show ?thesis by auto
qed

text \<open>
  C19. The keys \<open>retain\<close> keeps are exactly those of the snapshots the policy keeps and, through their
  parents, all those they lie over. The policy keeps a snapshot that is pinned; one that was written,
  in one of the branches with the newest heads, if fewer than \<open>perBranch\<close> newer ones of its branch
  count (one more without locks or a store that keeps what it removed); and, without locks, one
  that is empty and not stale.
\<close>

theorem retain_keeps_exactly:
  assumes "distinct (map si_key snapshots)"
  shows "set (retain_keys policy locks keepsRemoved now snapshots) =
    {k. \<exists>i < length snapshots. policy_keeps policy locks keepsRemoved now snapshots i
        \<and> (si_key (snapshots ! i), k) \<in> (lies_over snapshots)\<^sup>*}"
  using assms by (rule retain_keys_exact)

theorem retain_keeps_exactly_witness:
  "{k. \<exists>i < length [ex_new_info, ex_old_info]. policy_keeps ex_default False True 10 [ex_new_info, ex_old_info] i
        \<and> (si_key ([ex_new_info, ex_old_info] ! i), k) \<in> (lies_over [ex_new_info, ex_old_info])\<^sup>*}
   = {''y''}"
proof -
  have "distinct (map si_key [ex_new_info, ex_old_info])"
    by (simp add: ex_new_info_def ex_old_info_def)
  from retain_keeps_exactly [OF this, of ex_default False True 10, symmetric] show ?thesis
    unfolding ex_retain_keys by (rule trans) simp
qed

text \<open>
  C20. Opening ends, with a database or an error, whatever the attempts to open snapshots give; for a
  \<open>choose\<close> of the caller's, as long as it picks one of the snapshots it is given.
\<close>

theorem open_ends:
  assumes "\<And>c ss s. oo_choose options = Some c \<Longrightarrow> c ss = Some s \<Longrightarrow> s \<in> set ss"
  shows "\<exists>r. open_storage options head stored attempt = Some r"
proof -
  let ?pick = "case oo_choose options of Some c \<Rightarrow> c | None \<Rightarrow> pick_default (oo_branch options)"
  have pick: "?pick ss = Some s \<Longrightarrow> s \<in> set ss" for ss s
    using assms pick_default_member by (cases "oo_choose options") auto
  show ?thesis
    using open_loop_ends [of ?pick attempt, OF pick]
    by (auto simp: open_storage_def Let_def split: option.splits sum.splits)
qed

definition ex_options :: open_options where
  "ex_options = \<lparr>oo_key = None, oo_branch = Some [], oo_choose = None\<rparr>"

definition ex_attempt :: "nat \<Rightarrow> string \<Rightarrow> nat result" where
  "ex_attempt i key = (if key = ''z'' then Inr 1 else Inl (SqliteError SQLITE_CANTOPEN))"

theorem open_ends_witness:
  "\<exists>r. open_storage (ex_options\<lparr>oo_choose := Some (\<lambda>ss. case ss of [] \<Rightarrow> None | s # _ \<Rightarrow> Some s)\<rparr>) None
     [ex_old_info, ex_new_info] ex_attempt = Some r"
  by (rule open_ends) (auto split: list.splits)



text \<open>
  \<open>head\<close> is the newest snapshot of the branch that is written, or none if there is none, for a
  store without a \<open>head\<close> of its own, and for the IndexedDB store, unless the newest of all is empty.
\<close>

theorem storage_head_newest:
  assumes "store_head = None \<or> (\<exists>kl st. store_head = Some (idb_head kl st) \<and> stored = idb_list st)"
  shows "(storage_head store_head stored branch = None \<longleftrightarrow>
       (\<forall>x \<in> set stored. of_branch branch x \<longrightarrow> si_size x = 0))
    \<and> (\<forall>s. storage_head store_head stored branch = Some s \<longrightarrow>
       s \<in> set stored \<and> of_branch branch s \<and> 0 < si_size s
       \<and> (\<forall>x \<in> set stored. of_branch branch x \<and> 0 < si_size x \<longrightarrow> si_createdAt x \<le> si_createdAt s))"
  using assms
proof
  assume "store_head = None"
  then show ?thesis using listed_head [of stored branch] by (simp add: storage_head_def Let_def)
next
  assume "\<exists>kl st. store_head = Some (idb_head kl st) \<and> stored = idb_list st"
  then obtain kl st where st: "store_head = Some (idb_head kl st)" "stored = idb_list st" by blast
  let ?rs = "filter (\<lambda>r. of_branch branch (idb_info r)) (map snd st)"
  have rs: "idb_head kl st branch = map_option idb_info (last_by_time kl ?rs)"
    by (cases branch) (simp_all add: idb_head_def of_branch_def idb_info_def)
  have list: "set stored = idb_info ` set (map snd st)" by (force simp: st(2) idb_list_def)
  show ?thesis
  proof (cases "last_by_time kl ?rs")
    case None
    then have "?rs = []" by (simp only: last_by_time_None)
    then have "\<forall>x \<in> set stored. \<not> of_branch branch x" by (auto simp: list filter_empty_conv)
    then show ?thesis using rs None by (simp add: storage_head_def st(1))
  next
    case (Some r)
    have r: "r \<in> set ?rs" and max: "\<forall>x \<in> set ?rs. ir_createdAt x \<le> ir_createdAt r"
      using last_by_time_max [OF Some] by blast+
    show ?thesis
    proof (cases "0 < si_size (idb_info r)")
      case True
      then have "storage_head store_head stored branch = Some (idb_info r)"
        using rs Some by (simp add: storage_head_def st(1))
      moreover have "idb_info r \<in> set stored" "of_branch branch (idb_info r)" using r by (auto simp: list)
      moreover have "si_createdAt x \<le> si_createdAt (idb_info r)" if "x \<in> set stored" "of_branch branch x" for x
        using max that by (auto simp: list idb_info_def)
      ultimately show ?thesis using True by auto
    next
      case False
      then have "storage_head store_head stored branch = find (\<lambda>s. 0 < si_size s) (storage_list stored branch)"
        using rs Some by (simp add: storage_head_def st(1) Let_def)
      then show ?thesis using listed_head [of stored branch] by simp
    qed
  qed
qed

theorem storage_head_newest_witness:
  "storage_head (Some (idb_head (\<lambda>_ _. False) ex_two_idb)) (idb_list ex_two_idb) None \<noteq> None"
proof -
  have "\<exists>x \<in> set (idb_list ex_two_idb). of_branch None x \<and> si_size x \<noteq> 0"
    by (simp add: idb_list_def ex_two_idb_def idb_info_def of_branch_def)
  moreover have "Some (idb_head (\<lambda>_ _. False) ex_two_idb) = None \<or>
      (\<exists>kl st. Some (idb_head (\<lambda>_ _. False) ex_two_idb) = Some (idb_head kl st) \<and> idb_list ex_two_idb = idb_list st)"
    by blast
  from storage_head_newest [OF this, of None] show ?thesis using calculation by fastforce
qed

end
