(* ===== verification/Db_Header.thy ===== *)
theory Db_Header
  imports Js_Number
begin

text \<open>
  The checks of what is read back before it is used: \<open>checkHeader\<close> of snapshots.ts and of indexeddb.ts
  on the first bytes of a database file, \<open>checkMeta\<close> of indexeddb.ts on the record of the sizes, and the
  codes of SQLiteError.ts. The two header checks are written out twice in the code; here it is proved
  that they accept the same files.
\<close>

section \<open>SQLiteError\<close>

definition names :: "string list" where
  "names =
    [''OK'', ''ERROR'', ''INTERNAL'', ''PERM'', ''ABORT'', ''BUSY'', ''LOCKED'', ''NOMEM'',
     ''READONLY'', ''INTERRUPT'', ''IOERR'', ''CORRUPT'', ''NOTFOUND'', ''FULL'', ''CANTOPEN'',
     ''PROTOCOL'', ''EMPTY'', ''SCHEMA'', ''TOOBIG'', ''CONSTRAINT'', ''MISMATCH'', ''MISUSE'',
     ''NOLFS'', ''AUTH'', ''FORMAT'', ''RANGE'', ''NOTADB'', ''NOTICE'', ''WARNING'']"

text \<open>\<open>code\<close>, of the low byte of the result code; a name the list does not have is \<open>ERROR\<close>.\<close>

definition error_code :: "32 word \<Rightarrow> string" where
  "error_code resultCode =
     (let i = unat (and resultCode 0xff)
      in ''SQLITE_'' @ (if i < length names then names ! i else ''ERROR''))"

section \<open>The header of a database file\<close>

text \<open>
  \<open>DataView.getUint16\<close> and \<open>getUint32\<close>, big-endian, of a view that is long enough (both checks make a
  view of 100 bytes first).
\<close>

definition getUint16 :: "bytes \<Rightarrow> nat \<Rightarrow> nat" where
  "getUint16 view ofs = 256 * unat (view ! ofs) + unat (view ! (ofs + 1))"

definition getUint32 :: "bytes \<Rightarrow> nat \<Rightarrow> nat" where
  "getUint32 view ofs = 65536 * getUint16 view ofs + getUint16 view (ofs + 2)"

definition MAGIC :: bytes where
  "MAGIC = [0x53, 0x51, 0x4c, 0x69, 0x74, 0x65, 0x20, 0x66, 0x6f, 0x72, 0x6d, 0x61, 0x74, 0x20, 0x33, 0]"

lemma MAGIC_chars: "map unat MAGIC = map of_char (''SQLite format 3'' @ [CHR 0x00])"
  by (simp add: MAGIC_def)

lemma length_MAGIC: "length MAGIC = 16"
  by (simp add: MAGIC_def)

text \<open>\<open>new DataView(header.buffer, header.byteOffset, 100)\<close>: the header is all of its buffer.\<close>

definition data_view :: "bytes \<Rightarrow> nat \<Rightarrow> bytes result" where
  "data_view header n = (if n \<le> length header then Inr (take n header) else Inl RangeError)"

text \<open>\<open>Math.ceil(a / b)\<close> of whole numbers.\<close>

definition ceil_div :: "nat \<Rightarrow> nat \<Rightarrow> nat" where
  "ceil_div a b = (a + b - 1) div b"

lemma ceil_div_le: "0 < b \<Longrightarrow> ceil_div a b \<le> n \<longleftrightarrow> a \<le> n * b"
proof -
  assume b: "0 < b"
  have "ceil_div a b \<le> n \<longleftrightarrow> (a + b - 1) div b < Suc n" by (auto simp: ceil_div_def)
  also have "\<dots> \<longleftrightarrow> a + b - 1 < Suc n * b" using b by (rule div_less_iff_less_mult)
  also have "\<dots> \<longleftrightarrow> a \<le> n * b" using b by auto
  finally show ?thesis .
qed

text \<open>
  The loop over the magic: it compares \<open>header[i]\<close>, which is \<open>undefined\<close> past the end and equal to
  nothing then, and throws at the first that differs.
\<close>

primrec magic_loop :: "js_error \<Rightarrow> bytes \<Rightarrow> nat \<Rightarrow> bytes \<Rightarrow> unit result" where
  "magic_loop e header i [] = Inr ()"
| "magic_loop e header i (c # cs) =
     (if i < length header \<and> header ! i = c then magic_loop e header (Suc i) cs else Inl e)"

lemma magic_loop_iff: "magic_loop e header i cs = Inr () \<longleftrightarrow> subarray header i (i + length cs) = cs"
proof (induction cs arbitrary: i)
  case Nil
  then show ?case by simp
next
  case (Cons c cs)
  have "subarray header i (i + length (c # cs)) = c # cs \<longleftrightarrow>
    i < length header \<and> header ! i = c \<and> subarray header (Suc i) (Suc i + length cs) = cs"
  proof (cases "i < length header")
    case True
    then show ?thesis by (simp add: subarray_def Cons_nth_drop_Suc [symmetric] del: Cons_nth_drop_Suc)
  next
    case False
    then show ?thesis by (simp add: subarray_def)
  qed
  then show ?case using Cons.IH [of "Suc i"] by auto
qed

lemma magic_loop_Inl: "magic_loop e header i cs = Inl e' \<Longrightarrow> e' = e"
  by (induction cs arbitrary: i) (auto split: if_splits)

text \<open>\<open>checkHeader\<close> of snapshots.ts.\<close>

definition snapshot_checkHeader :: "bytes \<Rightarrow> nat \<Rightarrow> unit result" where
  "snapshot_checkHeader header n =
     (let corrupt = SqliteError SQLITE_CORRUPT
      in if n < 512 then Inl corrupt
         else and_then (magic_loop corrupt header 0 MAGIC) (\<lambda>_.
              and_then (data_view header 100) (\<lambda>view.
                let field = getUint16 view 16;
                    pageSize = (if field = 1 then 65536 else field)
                in if pageSize < 512 \<or> pageSize > 65536 \<or> and pageSize (pageSize - 1) \<noteq> 0 then Inl corrupt
                   else let pageCount = getUint32 view 28;
                            stored = ceil_div n pageSize
                        in if getUint32 view 92 = getUint32 view 24 \<and> pageCount > stored then Inl corrupt
                           else Inr ())))"

text \<open>\<open>isPowerOfTwo\<close>, \<open>checkMeta\<close> and \<open>checkHeader\<close> of indexeddb.ts.\<close>

definition isPowerOfTwo :: "js_number \<Rightarrow> nat \<Rightarrow> nat \<Rightarrow> bool" where
  "isPowerOfTwo n low high =
     (case n of
        Whole i \<Rightarrow> int low \<le> i \<and> i \<le> int high \<and> and i (i - 1) = 0
      | _ \<Rightarrow> False)"

text \<open>\<open>CorruptDatabaseError\<close> is a \<open>SQLiteError\<close> with \<open>SQLITE_CORRUPT\<close>.\<close>

abbreviation CorruptDatabaseError :: js_error where
  "CorruptDatabaseError \<equiv> SqliteError SQLITE_CORRUPT"

record meta =
  mt_size :: js_number
  mt_chunkSize :: js_number

definition checkMeta :: "meta \<Rightarrow> unit result" where
  "checkMeta meta =
     (if \<not> isPowerOfTwo (mt_chunkSize meta) 512 65536 then Inl CorruptDatabaseError
      else if \<not> isSafeInteger (mt_size meta) \<or> (case mt_size meta of Whole i \<Rightarrow> i < 0 | _ \<Rightarrow> False)
      then Inl CorruptDatabaseError
      else Inr ())"

definition idb_checkHeader :: "bytes \<Rightarrow> nat \<Rightarrow> unit result" where
  "idb_checkHeader header n =
     (if n < 512 then Inl CorruptDatabaseError
      else and_then (magic_loop CorruptDatabaseError header 0 MAGIC) (\<lambda>_.
           and_then (data_view header 100) (\<lambda>view.
             let field = getUint16 view 16;
                 pageSize = (if field = 1 then 65536 else field)
             in if \<not> isPowerOfTwo (Whole (int pageSize)) 512 65536 then Inl CorruptDatabaseError
                else let pageCount = getUint32 view 28;
                         stored = ceil_div n pageSize
                     in if getUint32 view 92 = getUint32 view 24 \<and> pageCount > stored
                        then Inl CorruptDatabaseError
                        else Inr ())))"

section \<open>What the checks accept\<close>

definition page_sizes :: "nat set" where
  "page_sizes = {512, 1024, 2048, 4096, 8192, 16384, 32768, 65536}"

lemma power_two_sizes: "512 \<le> (n::nat) \<and> n \<le> 65536 \<and> and n (n - 1) = 0 \<longleftrightarrow> n \<in> page_sizes"
proof
  assume n: "512 \<le> n \<and> n \<le> 65536 \<and> and n (n - 1) = 0"
  then obtain k where k: "n = 2 ^ k" using and_pred_0 [of n] by auto
  have "2 ^ 9 \<le> (2::nat) ^ k" "(2::nat) ^ k \<le> 2 ^ 16" using n k by simp_all
  then have "9 \<le> k" "k \<le> 16" by (simp_all only: power_increasing_iff one_less_numeral_iff semiring_norm)
  then have "k = 9 \<or> k = 10 \<or> k = 11 \<or> k = 12 \<or> k = 13 \<or> k = 14 \<or> k = 15 \<or> k = 16" by arith
  then show "n \<in> page_sizes" by (auto simp: k page_sizes_def)
next
  have "n \<in> page_sizes \<Longrightarrow> \<exists>k. n = 2 ^ k"
    by (auto simp: page_sizes_def intro: exI [of _ 9] exI [of _ 10] exI [of _ 11] exI [of _ 12]
        exI [of _ 13] exI [of _ 14] exI [of _ 15] exI [of _ 16])
  moreover have "n \<in> page_sizes \<Longrightarrow> 512 \<le> n \<and> n \<le> 65536"
    by (auto simp: page_sizes_def)
  moreover assume "n \<in> page_sizes"
  ultimately show "512 \<le> n \<and> n \<le> 65536 \<and> and n (n - 1) = 0" using and_pred_0 [of n] by auto
qed

lemma isPowerOfTwo_nat: "isPowerOfTwo (Whole (int n)) 512 65536 \<longleftrightarrow> n \<in> page_sizes"
proof (cases n)
  case 0
  then show ?thesis by (simp add: isPowerOfTwo_def page_sizes_def)
next
  case (Suc m)
  then have "and (int n) (int n - 1) = int (and n (n - 1))"
    by (simp add: of_nat_and_eq)
  then show ?thesis by (simp add: isPowerOfTwo_def flip: power_two_sizes)
qed

lemma isPowerOfTwo_sizes: "isPowerOfTwo v 512 65536 \<longleftrightarrow> (\<exists>n \<in> page_sizes. v = Whole (int n))"
proof
  assume v: "isPowerOfTwo v 512 65536"
  then obtain i where i: "v = Whole i" "512 \<le> i" by (auto simp: isPowerOfTwo_def split: js_number.splits)
  then have "v = Whole (int (nat i))" by simp
  then show "\<exists>n \<in> page_sizes. v = Whole (int n)" using v isPowerOfTwo_nat [of "nat i"] by metis
qed (auto simp: isPowerOfTwo_nat)

lemma checkMeta_iff:
  "checkMeta meta = Inr () \<longleftrightarrow>
     (\<exists>cs n. cs \<in> page_sizes \<and> n < 2 ^ 53 \<and> meta = \<lparr>mt_size = Whole (int n), mt_chunkSize = Whole (int cs)\<rparr>)"
proof
  assume ok: "checkMeta meta = Inr ()"
  then obtain cs where cs: "cs \<in> page_sizes" "mt_chunkSize meta = Whole (int cs)"
    by (auto simp: checkMeta_def isPowerOfTwo_sizes split: if_splits)
  obtain i where i: "mt_size meta = Whole i" "0 \<le> i" "i < 2 ^ 53"
    using ok by (auto simp: checkMeta_def isSafeInteger_def split: if_splits js_number.splits)
  then have "mt_size meta = Whole (int (nat i))" "nat i < 2 ^ 53" by auto
  then show "\<exists>cs n. cs \<in> page_sizes \<and> n < 2 ^ 53 \<and> meta = \<lparr>mt_size = Whole (int n), mt_chunkSize = Whole (int cs)\<rparr>"
    using cs by (intro exI [of _ cs] exI [of _ "nat i"]) simp
qed (auto simp: checkMeta_def isPowerOfTwo_nat isSafeInteger_def simp flip: of_nat_power)

text \<open>The files the checks accept, from the file format: the magic, a page size, no page missing.\<close>

definition header_ok :: "bytes \<Rightarrow> nat \<Rightarrow> bool" where
  "header_ok header n \<longleftrightarrow>
     512 \<le> n \<and> take 16 header = MAGIC \<and>
     (\<exists>ps \<in> page_sizes. getUint16 header 16 = (if ps = 65536 then 1 else ps) \<and>
       (getUint32 header 92 = getUint32 header 24 \<longrightarrow> (\<forall>k. n \<le> k * ps \<longrightarrow> getUint32 header 28 \<le> k)))"

lemma getUint_take:
  "ofs + 1 < m \<Longrightarrow> getUint16 (take m h) ofs = getUint16 h ofs"
  "ofs + 3 < m \<Longrightarrow> getUint32 (take m h) ofs = getUint32 h ofs"
  by (simp_all add: getUint16_def getUint32_def)

lemma getUint16_less: "getUint16 h ofs < 65536"
  using unsigned_less [of "h ! ofs", where 'a = nat] unsigned_less [of "h ! (ofs + 1)", where 'a = nat]
  by (simp add: getUint16_def)

lemma count_iff: "0 < b \<Longrightarrow> c \<le> ceil_div n b \<longleftrightarrow> (\<forall>k. n \<le> k * b \<longrightarrow> c \<le> k)"
  using ceil_div_le [of b n] by (meson le_trans order_refl)

lemma field_iff:
  "(if getUint16 h ofs = 1 then 65536 else getUint16 h ofs) = ps \<and> ps \<in> page_sizes \<longleftrightarrow>
     ps \<in> page_sizes \<and> getUint16 h ofs = (if ps = 65536 then 1 else ps)"
  using getUint16_less [of h ofs] by (auto simp: page_sizes_def)

lemma checkHeader_same: "idb_checkHeader header n = snapshot_checkHeader header n"
proof -
  have "isPowerOfTwo (Whole (int ps)) 512 65536 \<longleftrightarrow> \<not> (ps < 512 \<or> ps > 65536 \<or> and ps (ps - 1) \<noteq> 0)" for ps
    unfolding isPowerOfTwo_nat power_two_sizes [symmetric] by auto
  then show ?thesis unfolding idb_checkHeader_def snapshot_checkHeader_def Let_def by simp
qed

lemma snapshot_checkHeader_iff:
  assumes "100 \<le> length header"
  shows "snapshot_checkHeader header n = Inr () \<longleftrightarrow> header_ok header n"
proof -
  let ?field = "getUint16 header 16"
  let ?ps = "if ?field = 1 then 65536 else ?field"
  have magic: "magic_loop e header 0 MAGIC = Inr () \<longleftrightarrow> take 16 header = MAGIC" for e
    using magic_loop_iff [of e header 0 MAGIC] by (simp add: subarray_def length_MAGIC)
  have view: "getUint16 (take 100 header) 16 = ?field" "getUint32 (take 100 header) 28 = getUint32 header 28"
    "getUint32 (take 100 header) 24 = getUint32 header 24" "getUint32 (take 100 header) 92 = getUint32 header 92"
    by (simp_all add: getUint_take)
  define ps where "ps = ?ps"
  let ?counts = "getUint32 header 92 = getUint32 header 24"
  let ?count = "getUint32 header 28"
  have check: "snapshot_checkHeader header n = (if n < 512 then Inl (SqliteError SQLITE_CORRUPT)
      else and_then (magic_loop (SqliteError SQLITE_CORRUPT) header 0 MAGIC) (\<lambda>_.
        if ps < 512 \<or> ps > 65536 \<or> and ps (ps - 1) \<noteq> 0 then Inl (SqliteError SQLITE_CORRUPT)
        else if ?counts \<and> ceil_div n ps < ?count then Inl (SqliteError SQLITE_CORRUPT) else Inr ()))"
    using assms by (simp only: snapshot_checkHeader_def data_view_def Let_def view ps_def and_then_simps if_True)
  have "snapshot_checkHeader header n = Inr () \<longleftrightarrow>
      512 \<le> n \<and> take 16 header = MAGIC \<and> \<not> (ps < 512 \<or> ps > 65536 \<or> and ps (ps - 1) \<noteq> 0) \<and>
      \<not> (?counts \<and> ceil_div n ps < ?count)"
    by (simp add: check and_then_eq_Inr magic)
  also have "\<dots> \<longleftrightarrow> 512 \<le> n \<and> take 16 header = MAGIC \<and>
      (\<exists>p. (?ps = p \<and> p \<in> page_sizes) \<and> (?counts \<longrightarrow> ?count \<le> ceil_div n p))"
    unfolding ps_def [symmetric] power_two_sizes [symmetric] by (auto simp: not_less)
  also have "\<dots> \<longleftrightarrow> header_ok header n"
  proof -
    have "?count \<le> ceil_div n p \<longleftrightarrow> (\<forall>k. n \<le> k * p \<longrightarrow> ?count \<le> k)" if "p \<in> page_sizes" for p
      using that by (intro count_iff) (auto simp: page_sizes_def)
    then show ?thesis unfolding header_ok_def field_iff by blast
  qed
  finally show ?thesis .
qed

lemma snapshot_checkHeader_error:
  assumes "100 \<le> length header"
  shows "snapshot_checkHeader header n = Inr () \<or> snapshot_checkHeader header n = Inl (SqliteError SQLITE_CORRUPT)"
proof -
  have "magic_loop (SqliteError SQLITE_CORRUPT) header 0 MAGIC = Inr ()
      \<or> magic_loop (SqliteError SQLITE_CORRUPT) header 0 MAGIC = Inl (SqliteError SQLITE_CORRUPT)"
    using magic_loop_Inl by (cases "magic_loop (SqliteError SQLITE_CORRUPT) header 0 MAGIC") auto
  then show ?thesis
    using assms by (auto simp: snapshot_checkHeader_def data_view_def Let_def)
qed

section \<open>Properties\<close>

text \<open>
  C23. Both header checks, of snapshots.ts and of indexeddb.ts, accept exactly the files of the format
  that miss no page: the magic, a page size that is a power of two from 512 to 65536, and, if the page
  count was written with the change counter, as many pages as it says. They refuse all other files
  with \<open>SQLITE_CORRUPT\<close>.
\<close>

theorem headers_checked:
  assumes "100 \<le> length header"
  shows "snapshot_checkHeader header n = (if header_ok header n then Inr () else Inl (SqliteError SQLITE_CORRUPT))
    \<and> idb_checkHeader header n = (if header_ok header n then Inr () else Inl (SqliteError SQLITE_CORRUPT))"
  using snapshot_checkHeader_iff [OF assms, of n] snapshot_checkHeader_error [OF assms, of n]
  by (auto simp: checkHeader_same)

text \<open>A file of 700 bytes with a page size of 512 and two pages, and one that says three.\<close>

definition ex_header :: "byte \<Rightarrow> bytes" where
  "ex_header count = MAGIC @ [2, 0] @ replicate 6 0 @ [0, 0, 0, 9, 0, 0, 0, count] @ replicate 60 0 @ [0, 0, 0, 9]
     @ replicate 4 0"

lemma ex_header_fields:
  "length (ex_header c) = 100" "take 16 (ex_header c) = MAGIC" "getUint16 (ex_header c) 16 = 512"
  "getUint32 (ex_header c) 24 = 9" "getUint32 (ex_header c) 28 = unat c" "getUint32 (ex_header c) 92 = 9"
  by (simp_all add: ex_header_def length_MAGIC getUint16_def getUint32_def nth_append)

theorem headers_checked_witness:
  "idb_checkHeader (ex_header 2) 700 = Inr () \<and> snapshot_checkHeader (ex_header 3) 700 = Inl (SqliteError SQLITE_CORRUPT)"
proof -
  have len: "100 \<le> length (ex_header c)" for c by (simp add: ex_header_fields)
  have two: "header_ok (ex_header 2) 700"
    by (auto simp: header_ok_def ex_header_fields page_sizes_def)
  have three: "\<not> header_ok (ex_header 3) 700"
    by (auto simp: header_ok_def ex_header_fields page_sizes_def intro!: exI [of _ 2] split: if_splits)
  show ?thesis
    using headers_checked [OF len, of 2 700] headers_checked [OF len, of 3 700] two three by simp
qed

end
