(* ===== verification/Indexed_DB.thy ===== *)
theory Indexed_DB
  imports Db_Header
begin

text \<open>
  The stored file of indexeddb.ts: chunks by index and a record of the sizes. Here are the batches of
  commits (\<open>Batch\<close>, \<open>merge\<close>), the transaction that writes one (\<open>writeBatch\<close>) and the loading of
  what is stored (\<open>loadInto\<close>). A commit is what \<open>Database.onCommit\<close> reports of one.
\<close>

section \<open>Commits, batches and the stored file\<close>

record commit =
  cm_chunkSize :: nat
  cm_size :: nat
  cm_minSize :: nat
  cm_chunks :: "(nat \<times> bytes) list"

record batch =
  bt_truncate :: enat
  bt_chunks :: "(nat \<times> bytes) list"
  bt_meta :: "meta option"

text \<open>The two object stores; a key that holds \<open>undefined\<close> reads as one that is not there.\<close>

record idb =
  db_chunks :: "nat \<Rightarrow> bytes option"
  db_meta :: "meta option"

definition emptyBatch :: batch where
  "emptyBatch = \<lparr>bt_truncate = \<infinity>, bt_chunks = [], bt_meta = None\<rparr>"

definition set_all :: "('k \<times> 'v) list \<Rightarrow> ('k \<times> 'v) list \<Rightarrow> ('k \<times> 'v) list" where
  "set_all kvs m = fold (\<lambda>(k, v) m. map_set k v m) kvs m"

text \<open>
  \<open>merge\<close>: applies a later batch on top of an earlier one. Deleting a key of a \<open>Map\<close> while its keys
  are iterated leaves the iteration of the others as it is.
\<close>

definition merge :: "batch \<Rightarrow> batch \<Rightarrow> batch" where
  "merge into batch =
     (let truncate = (if bt_truncate batch < bt_truncate into then bt_truncate batch else bt_truncate into);
          kept = (if bt_truncate batch < \<infinity>
                  then filter (\<lambda>(index, _). enat index < bt_truncate batch) (bt_chunks into)
                  else bt_chunks into)
      in \<lparr>bt_truncate = truncate, bt_chunks = set_all (bt_chunks batch) kept,
          bt_meta = (case bt_meta batch of Some m \<Rightarrow> Some m | None \<Rightarrow> bt_meta into)\<rparr>)"

text \<open>
  What the transaction of \<open>writeBatch\<close> does if it completes: delete the chunks from \<open>truncate\<close> on, put
  the others, put the record. If it is aborted, it does nothing.
\<close>

definition apply_batch :: "batch \<Rightarrow> idb \<Rightarrow> idb" where
  "apply_batch batch db =
     (let chunks = (if bt_truncate batch < \<infinity>
            then (\<lambda>i. if bt_truncate batch \<le> enat i then None else db_chunks db i) else db_chunks db)
      in \<lparr>db_chunks = fold (\<lambda>(index, chunk) f. f(index \<mapsto> chunk)) (bt_chunks batch) chunks,
          db_meta = bt_meta batch\<rparr>)"

definition writeBatch :: "idb \<Rightarrow> batch \<Rightarrow> js_error option \<Rightarrow> idb \<times> unit result" where
  "writeBatch db batch aborted =
     (case aborted of None \<Rightarrow> (apply_batch batch db, Inr ()) | Some e \<Rightarrow> (db, Inl e))"

section \<open>What a batch holds\<close>

lemma map_get_set_all: "map_ok kvs \<Longrightarrow> map_get (set_all kvs m) = map_get m ++ map_get kvs"
proof (induction kvs arbitrary: m)
  case Nil
  then show ?case by (simp add: set_all_def)
next
  case (Cons kv kvs)
  obtain k v where kv: "kv = (k, v)" by (cases kv)
  have ok: "map_ok kvs" "k \<notin> fst ` set kvs" using Cons.prems kv by (auto simp: map_ok_def)
  then have "map_get kvs k = None" by (simp add: map_of_eq_None_iff)
  then show ?case
    using Cons.IH [OF ok(1), of "map_set k v m"]
    by (auto simp: set_all_def kv map_get_set map_add_def fun_eq_iff split: option.splits)
qed

lemma map_ok_set_all: "map_ok m \<Longrightarrow> map_ok (set_all kvs m)"
  unfolding set_all_def by (induction kvs arbitrary: m) auto

lemma fold_put: "map_ok kvs \<Longrightarrow> fold (\<lambda>(k, v) f. f(k \<mapsto> v)) kvs f = f ++ map_get kvs"
proof (induction kvs arbitrary: f)
  case Nil
  then show ?case by simp
next
  case (Cons kv kvs)
  obtain k v where kv: "kv = (k, v)" by (cases kv)
  have ok: "map_ok kvs" "k \<notin> fst ` set kvs" using Cons.prems kv by (auto simp: map_ok_def)
  then have "map_get kvs k = None" by (simp add: map_of_eq_None_iff)
  then show ?case
    using Cons.IH [OF ok(1), of "f(k \<mapsto> v)"]
    by (auto simp: kv map_add_def fun_eq_iff split: option.splits)
qed

lemma map_get_filter_keys:
  "map_get (filter (\<lambda>(k, _). P k) m) = (\<lambda>k. if P k then map_get m k else None)"
  by (induction m) (auto simp: fun_eq_iff)

lemma map_ok_filter: "map_ok m \<Longrightarrow> map_ok (filter P m)"
  by (simp add: map_ok_def distinct_map_filter)

definition batch_ok :: "batch \<Rightarrow> bool" where
  "batch_ok b \<longleftrightarrow> map_ok (bt_chunks b)"

lemma batch_ok_empty [simp]: "batch_ok emptyBatch"
  by (simp add: batch_ok_def emptyBatch_def)

lemma apply_batch_chunks:
  "batch_ok b \<Longrightarrow> db_chunks (apply_batch b db) i =
     (case map_get (bt_chunks b) i of Some chunk \<Rightarrow> Some chunk
      | None \<Rightarrow> if bt_truncate b \<le> enat i then None else db_chunks db i)"
  by (auto simp: apply_batch_def batch_ok_def fold_put map_add_def Let_def split: option.splits)

lemma apply_batch_meta [simp]: "db_meta (apply_batch b db) = bt_meta b"
  by (simp add: apply_batch_def Let_def)

lemma merge_ok: "batch_ok a \<Longrightarrow> batch_ok (merge a b)"
  by (simp add: batch_ok_def merge_def map_ok_set_all map_ok_filter Let_def)

lemma merge_empty: "merge b emptyBatch = b"
  by (simp add: merge_def emptyBatch_def set_all_def)

lemma merge_meta: "bt_meta (merge a b) = (case bt_meta b of Some m \<Rightarrow> Some m | None \<Rightarrow> bt_meta a)"
  by (simp add: merge_def Let_def)

lemma merge_chunks:
  "batch_ok b \<Longrightarrow> map_get (bt_chunks (merge a b)) i =
     (case map_get (bt_chunks b) i of Some c \<Rightarrow> Some c
      | None \<Rightarrow> if enat i < bt_truncate b then map_get (bt_chunks a) i else None)"
  by (auto simp: merge_def Let_def batch_ok_def map_get_set_all map_add_def map_get_filter_keys split: option.splits)

lemma merge_truncate: "bt_truncate (merge a b) = min (bt_truncate a) (bt_truncate b)"
  by (auto simp: merge_def Let_def min_def)

text \<open>Writing a merged batch is writing one after the other.\<close>

lemma apply_merge:
  assumes "batch_ok a" and "batch_ok b" and "bt_meta b \<noteq> None"
  shows "apply_batch (merge a b) db = apply_batch b (apply_batch a db)"
proof -
  have "db_chunks (apply_batch (merge a b) db) i = db_chunks (apply_batch b (apply_batch a db)) i" for i
    using assms(1,2) merge_ok [OF assms(1), of b]
    by (auto simp: apply_batch_chunks merge_chunks merge_truncate not_le min_le_iff_disj split: option.splits)
  moreover have "db_meta (apply_batch (merge a b) db) = db_meta (apply_batch b (apply_batch a db))"
    using assms(3) by (auto simp: merge_meta)
  ultimately show ?thesis by (intro idb.equality) auto
qed

lemma emptyBatch_fields [simp]:
  "bt_chunks emptyBatch = []" "bt_truncate emptyBatch = \<infinity>" "bt_meta emptyBatch = None"
  by (simp_all add: emptyBatch_def)

lemma apply_merge_empty:
  assumes "batch_ok b"
  shows "apply_batch (merge emptyBatch b) db = apply_batch b db"
proof -
  have "db_chunks (apply_batch (merge emptyBatch b) db) i = db_chunks (apply_batch b db) i" for i
    using assms merge_ok [OF batch_ok_empty, of b]
    by (auto simp: apply_batch_chunks merge_chunks merge_truncate min_def split: option.splits)
  moreover have "db_meta (apply_batch (merge emptyBatch b) db) = db_meta (apply_batch b db)"
    by (simp add: merge_meta split: option.splits)
  ultimately show ?thesis by (intro idb.equality) auto
qed

section \<open>What a commit does to the file\<close>

text \<open>
  The contract of \<open>Commit\<close> (Database.ts): the chunks that were written are as given, those at or past
  \<open>minSize\<close> that were not are gone and read as zero, the others are as they were.
\<close>

definition meta_of :: "commit \<Rightarrow> meta" where
  "meta_of c = \<lparr>mt_size = Whole (int (cm_size c)), mt_chunkSize = Whole (int (cm_chunkSize c))\<rparr>"

definition spec_commit :: "idb \<Rightarrow> commit \<Rightarrow> idb" where
  "spec_commit db c =
     \<lparr>db_chunks = (\<lambda>i. case map_get (cm_chunks c) i of Some chunk \<Rightarrow> Some chunk
        | None \<Rightarrow> if cm_minSize c \<le> i * cm_chunkSize c then None else db_chunks db i),
      db_meta = Some (meta_of c)\<rparr>"

text \<open>
  Commits as the overlay of the database reports them: whole chunks, none past the end, and everything
  replaced when the chunk size changes.
\<close>

definition commit_ok :: "enat \<Rightarrow> nat \<Rightarrow> commit \<Rightarrow> bool" where
  "commit_ok n cs c \<longleftrightarrow>
     0 < cm_chunkSize c \<and> cm_minSize c \<le> cm_size c \<and> map_ok (cm_chunks c) \<and>
     (\<forall>(i, chunk) \<in> set (cm_chunks c). length chunk = cm_chunkSize c \<and> i * cm_chunkSize c < cm_size c) \<and>
     (n = \<infinity> \<or> cm_chunkSize c \<noteq> cs \<longrightarrow> cm_minSize c = 0)"

text \<open>A file in order: whole chunks, none past the end.\<close>

definition file_ok :: "idb \<Rightarrow> nat \<Rightarrow> nat \<Rightarrow> bool" where
  "file_ok db n cs \<longleftrightarrow> 0 < cs \<and>
     db_meta db = Some \<lparr>mt_size = Whole (int n), mt_chunkSize = Whole (int cs)\<rparr> \<and>
     (\<forall>i chunk. db_chunks db i = Some chunk \<longrightarrow> length chunk = cs \<and> i * cs < n)"

lemma file_ok_past: "file_ok db n cs \<Longrightarrow> n \<le> i * cs \<Longrightarrow> db_chunks db i = None"
  unfolding file_ok_def by (metis not_le option.exhaust)

lemma spec_commit_ok:
  assumes "commit_ok n cs c" and "n < \<infinity> \<Longrightarrow> \<exists>m. n = enat m \<and> file_ok db m cs"
  shows "file_ok (spec_commit db c) (cm_size c) (cm_chunkSize c)"
proof -
  have "length chunk = cm_chunkSize c \<and> i * cm_chunkSize c < cm_size c"
    if chunk: "db_chunks (spec_commit db c) i = Some chunk" for i chunk
  proof (cases "map_get (cm_chunks c) i")
    case (Some b)
    then have "(i, chunk) \<in> set (cm_chunks c)" using chunk by (auto simp: spec_commit_def dest: map_of_SomeD)
    then show ?thesis using assms(1) by (auto simp: commit_ok_def)
  next
    case None
    then have i: "i * cm_chunkSize c < cm_minSize c" and old: "db_chunks db i = Some chunk"
      using chunk by (auto simp: spec_commit_def split: if_splits)
    then have cs: "cm_chunkSize c = cs" "n < \<infinity>" using assms(1) by (auto simp: commit_ok_def)
    then obtain m where "file_ok db m cs" using assms(2) by auto
    then show ?thesis using old i cs assms(1) by (auto simp: file_ok_def commit_ok_def)
  qed
  then show ?thesis using assms(1) by (simp add: file_ok_def spec_commit_def meta_of_def commit_ok_def)
qed

text \<open>The batch \<open>IndexedDBPersistence.commit\<close> makes of a commit: it deletes only below the known size.\<close>

definition commit_batch :: "enat \<Rightarrow> commit \<Rightarrow> batch" where
  "commit_batch n c =
     \<lparr>bt_truncate = (if enat (cm_minSize c) < n then enat (ceil_div (cm_minSize c) (cm_chunkSize c)) else \<infinity>),
      bt_chunks = cm_chunks c, bt_meta = Some (meta_of c)\<rparr>"

lemma commit_batch_ok: "commit_ok n cs c \<Longrightarrow> batch_ok (commit_batch n c)"
  by (simp add: batch_ok_def commit_batch_def commit_ok_def)

lemma apply_commit_batch:
  assumes c: "commit_ok n cs c" and db: "n < \<infinity> \<Longrightarrow> \<exists>m. n = enat m \<and> file_ok db m cs"
  shows "apply_batch (commit_batch n c) db = spec_commit db c"
proof -
  have trunc: "ceil_div (cm_minSize c) (cm_chunkSize c) \<le> i \<longleftrightarrow> cm_minSize c \<le> i * cm_chunkSize c" for i
    using c by (intro ceil_div_le) (simp add: commit_ok_def)
  have past: "db_chunks db i = None" if small: "\<not> enat (cm_minSize c) < n" and past_min: "cm_minSize c \<le> i * cm_chunkSize c" for i
  proof -
    obtain m where m: "n = enat m" "file_ok db m cs" "m \<le> cm_minSize c"
      using db small by (cases n) auto
    show ?thesis
    proof (cases "cm_chunkSize c = cs")
      case True
      then have "m \<le> i * cs" using m(3) past_min by simp
      then show ?thesis by (rule file_ok_past [OF m(2)])
    next
      case False
      then have "m = 0" using c m(3) by (simp add: commit_ok_def)
      then show ?thesis by (intro file_ok_past [OF m(2)]) simp
    qed
  qed
  have "db_chunks (apply_batch (commit_batch n c) db) i = db_chunks (spec_commit db c) i" for i
    using past [of i] trunc [of i] unfolding apply_batch_chunks [OF commit_batch_ok [OF c]]
    by (auto simp: commit_batch_def spec_commit_def split: option.splits)
  then show ?thesis by (intro idb.equality) (auto simp: commit_batch_def spec_commit_def)
qed

end
