(* ===== verification/Idb_Load.thy ===== *)
theory Idb_Load
  imports Indexed_DB
begin

text \<open>
  \<open>loadInto\<close> of indexeddb.ts: the stored file is read a few MiB at a time, a piece at a time goes to
  \<open>Database.load\<close>, which is a parameter that may fail, and the header is checked in the first piece.
  All reads are in one transaction, so they see one state of the stores.
\<close>

definition READ_BYTES :: nat where "READ_BYTES = 4 * 2 ^ 20"

definition perRead :: "nat \<Rightarrow> nat" where
  "perRead chunkSize = max 1 (READ_BYTES div chunkSize)"

text \<open>\<open>getAllKeys\<close> and \<open>getAll\<close> of the range from \<open>first\<close> to \<open>stop\<close>, without \<open>stop\<close>: in order of the keys.\<close>

definition entries :: "idb \<Rightarrow> nat \<Rightarrow> nat \<Rightarrow> (nat \<times> bytes) list" where
  "entries db first stop =
     concat (map (\<lambda>k. case db_chunks db k of None \<Rightarrow> [] | Some chunk \<Rightarrow> [(k, chunk)]) [first..<stop])"

text \<open>The loop over them, with its \<open>break\<close>.\<close>

primrec put_entries :: "nat \<Rightarrow> nat \<Rightarrow> (nat \<times> bytes) list \<Rightarrow> bytes \<Rightarrow> bytes result" where
  "put_entries first chunkSize [] part = Inr part"
| "put_entries first chunkSize (e # rest) part =
     (let offset = (fst e - first) * chunkSize
      in if length part \<le> offset then Inr part
         else and_then (u8_set part (subarray (snd e) 0 (length part - offset)) offset)
                (put_entries first chunkSize rest))"

text \<open>
  The loop over the file. \<open>chunkSize\<close> is not 0 after \<open>checkMeta\<close>. The result has the pieces that were
  loaded, each with its offset.
\<close>

function load_loop ::
  "idb \<Rightarrow> (nat \<Rightarrow> bytes \<Rightarrow> unit result) \<Rightarrow> nat \<Rightarrow> nat \<Rightarrow> nat \<Rightarrow> (nat \<times> bytes) list \<Rightarrow> (nat \<times> bytes) list \<times> unit result" where
  "load_loop db load n cs start loaded =
     (if start < n \<and> 0 < cs then
        (let first = start div cs;
             part = zeros (min (perRead cs * cs) (n - start))
         in case put_entries first cs (entries db first (first + perRead cs)) part of
              Inl e \<Rightarrow> (loaded, Inl e)
            | Inr part \<Rightarrow>
                (case (if start = 0 then idb_checkHeader part n else Inr ()) of
                   Inl e \<Rightarrow> (loaded, Inl e)
                 | Inr _ \<Rightarrow>
                     (case load start part of
                        Inl e \<Rightarrow> (loaded, Inl e)
                      | Inr _ \<Rightarrow> load_loop db load n cs (start + perRead cs * cs) (loaded @ [(start, part)]))))
      else (loaded, Inr ()))"
  by pat_completeness auto

termination
  by (relation "measure (\<lambda>(db, load, n, cs, start, loaded). n - start)")
    (auto simp: perRead_def max_def intro!: diff_less_mono2)

declare load_loop.simps [simp del]

definition loadInto ::
  "idb \<Rightarrow> (nat \<Rightarrow> bytes \<Rightarrow> unit result) \<Rightarrow> (nat \<times> bytes) list \<times> nat option result" where
  "loadInto db load =
     (case db_meta db of
        None \<Rightarrow> ([], Inr None)
      | Some meta \<Rightarrow>
          (case checkMeta meta of
             Inl e \<Rightarrow> ([], Inl e)
           | Inr _ \<Rightarrow>
               (case (mt_size meta, mt_chunkSize meta) of
                  (Whole n, Whole cs) \<Rightarrow>
                    (case load_loop db load (nat n) (nat cs) 0 [] of
                       (loaded, Inl e) \<Rightarrow> (loaded, Inl e)
                     | (loaded, Inr _) \<Rightarrow> (loaded, Inr (Some (nat n))))
                | _ \<Rightarrow> ([], Inl RangeError))))"

section \<open>The content of the stored file\<close>

definition chunk_byte :: "idb \<Rightarrow> nat \<Rightarrow> nat \<Rightarrow> byte" where
  "chunk_byte db cs q = (case db_chunks db (q div cs) of None \<Rightarrow> 0 | Some chunk \<Rightarrow> chunk ! (q mod cs))"

definition file_content :: "idb \<Rightarrow> nat \<Rightarrow> nat \<Rightarrow> bytes" where
  "file_content db n cs = map (chunk_byte db cs) [0..<n]"

lemma length_file_content [simp]: "length (file_content db n cs) = n"
  by (simp add: file_content_def)

lemma entries_split:
  "j < stop \<Longrightarrow> entries db j stop =
     (case db_chunks db j of None \<Rightarrow> [] | Some chunk \<Rightarrow> [(j, chunk)]) @ entries db (Suc j) stop"
  by (simp add: entries_def upt_conv_Cons)

text \<open>The bytes of a piece that the entries below \<open>j\<close> have filled.\<close>

definition filled :: "idb \<Rightarrow> nat \<Rightarrow> nat \<Rightarrow> nat \<Rightarrow> nat \<Rightarrow> bytes" where
  "filled db cs first j len =
     map (\<lambda>q. if q < (j - first) * cs then chunk_byte db cs (first * cs + q) else 0) [0..<len]"

lemma filled_first: "filled db cs first first len = zeros len"
  by (rule nth_equalityI) (simp_all add: filled_def)

lemma filled_last: "len \<le> (j - first) * cs \<Longrightarrow>
  filled db cs first j len = map (\<lambda>q. chunk_byte db cs (first * cs + q)) [0..<len]"
  by (simp add: filled_def)

lemma filled_None:
  assumes "0 < cs" and "first \<le> j" and "db_chunks db j = None"
  shows "filled db cs first (Suc j) len = filled db cs first j len"
proof (rule nth_equalityI)
  fix q assume "q < length (filled db cs first (Suc j) len)"
  then have q: "q < len" by (simp add: filled_def)
  have "chunk_byte db cs (first * cs + q) = 0" if "(j - first) * cs \<le> q" "q < (Suc j - first) * cs"
  proof -
    have "(first * cs + q) div cs = j"
      using that assms(2) by (subst div_eq_block [OF assms(1)]) (auto simp: diff_mult_distrib Suc_diff_le le_diff_conv)
    then show ?thesis using assms(3) by (simp add: chunk_byte_def)
  qed
  moreover have "q < (Suc j - first) * cs" if "q < (j - first) * cs"
    using that by (rule order.strict_trans2) (intro mult_le_mono1 diff_le_mono, simp)
  ultimately show "filled db cs first (Suc j) len ! q = filled db cs first j len ! q"
    using q by (auto simp: filled_def not_less)
qed (simp add: filled_def)

lemma filled_Some:
  assumes "0 < cs" and "first \<le> j" and "db_chunks db j = Some chunk" and "length chunk = cs"
    and "(j - first) * cs < len"
  shows "filled db cs first (Suc j) len =
    overwrite (filled db cs first j len) (subarray chunk 0 (len - (j - first) * cs)) ((j - first) * cs)"
proof (rule nth_equalityI)
  let ?o = "(j - first) * cs"
  have Suc: "(Suc j - first) * cs = ?o + cs" using assms(2) by (simp add: Suc_diff_le)
  have fits: "?o + length (subarray chunk 0 (len - ?o)) \<le> length (filled db cs first j len)"
    using assms(4,5) by (auto simp: filled_def)
  then show "length (filled db cs first (Suc j) len) =
      length (overwrite (filled db cs first j len) (subarray chunk 0 (len - ?o)) ?o)"
    by (simp add: filled_def)
  fix q assume "q < length (filled db cs first (Suc j) len)"
  then have q: "q < len" by (simp add: filled_def)
  have in_j: "(first * cs + q) div cs = j \<and> (first * cs + q) mod cs = q - ?o" if low: "?o \<le> q" and high: "q < ?o + cs"
  proof -
    have j: "first * cs + ?o = j * cs" using assms(2) by (simp flip: add_mult_distrib)
    obtain r where r: "q = ?o + r" using low by (auto simp: le_iff_add)
    have q: "first * cs + q = j * cs + r" unfolding r add.assoc [symmetric] j ..
    have "r < cs" "q - ?o = r" using r high by simp_all
    then show ?thesis unfolding q by simp
  qed
  show "filled db cs first (Suc j) len ! q =
      overwrite (filled db cs first j len) (subarray chunk 0 (len - ?o)) ?o ! q"
  proof (cases "?o \<le> q \<and> q < ?o + cs")
    case True
    then have "chunk_byte db cs (first * cs + q) = chunk ! (q - ?o)"
      using in_j assms(3) by (simp add: chunk_byte_def)
    moreover have "q - ?o < min (len - ?o) (length chunk) - 0" using True q assms(4,5) by auto
    moreover have "q < ?o + min (len - ?o) (length chunk)" using True q assms(4,5) by (auto simp: min_def)
    ultimately show ?thesis
      using True q fits nth_subarray [of "q - ?o" "len - ?o" chunk 0]
      by (simp add: nth_overwrite filled_def Suc)
  next
    case False
    then show ?thesis using q fits assms(4) by (auto simp: nth_overwrite filled_def Suc)
  qed
qed

lemma put_entries_all:
  assumes "0 < cs" and "\<And>i chunk. db_chunks db i = Some chunk \<Longrightarrow> length chunk = cs"
    and "first \<le> j" and "j \<le> stop" and "len \<le> (stop - first) * cs"
  shows "put_entries first cs (entries db j stop) (filled db cs first j len) =
    Inr (map (\<lambda>q. chunk_byte db cs (first * cs + q)) [0..<len])"
  using assms(3,4)
proof (induction "stop - j" arbitrary: j)
  case 0
  then show ?case using filled_last assms(5) by (simp add: entries_def)
next
  case (Suc d)
  then have j: "j < stop" "first \<le> Suc j" "Suc j \<le> stop" "d = stop - Suc j" by simp_all
  note IH = Suc.hyps(1) [OF j(4) j(2) j(3)]
  show ?case
  proof (cases "db_chunks db j")
    case None
    then show ?thesis
      using IH filled_None [OF assms(1) Suc.prems(1) None] by (simp add: entries_split [OF j(1)])
  next
    case (Some chunk)
    show ?thesis
    proof (cases "len \<le> (j - first) * cs")
      case True
      then show ?thesis by (simp add: entries_split [OF j(1)] Some filled_last filled_def)
    next
      case False
      then have small: "(j - first) * cs < len" by simp
      note next_part = filled_Some [OF assms(1) Suc.prems(1) Some assms(2) [OF Some] small]
      have "(j - first) * cs + length (subarray chunk 0 (len - (j - first) * cs)) \<le> length (filled db cs first j len)"
        using small by (simp add: filled_def)
      moreover have "length (filled db cs first j len) = len" by (simp add: filled_def)
      ultimately show ?thesis
        using IH small unfolding next_part by (simp add: entries_split [OF j(1)] Some)
    qed
  qed
qed

lemma map_upt_subarray:
  "map (\<lambda>q. g (s + q)) [0..<min k (n - s)] = subarray (map g [0..<n]) s (s + k)"
  by (rule nth_equalityI) (auto simp: subarray_map_upt min_def split: if_splits)

text \<open>A piece that the loop reads is the part of the content at its offset.\<close>

lemma piece_content:
  assumes "file_ok db n cs" and "start = k * (perRead cs * cs)"
  shows "put_entries (start div cs) cs (entries db (start div cs) (start div cs + perRead cs))
      (zeros (min (perRead cs * cs) (n - start))) =
    Inr (subarray (file_content db n cs) start (start + perRead cs * cs))"
proof -
  let ?first = "start div cs" and ?len = "min (perRead cs * cs) (n - start)"
  have cs: "0 < cs" and chunks: "\<And>i chunk. db_chunks db i = Some chunk \<Longrightarrow> length chunk = cs"
    using assms(1) by (auto simp: file_ok_def)
  have start: "?first * cs = start" using assms(2) by simp
  have "put_entries ?first cs (entries db ?first (?first + perRead cs)) (filled db cs ?first ?first ?len) =
      Inr (map (\<lambda>q. chunk_byte db cs (?first * cs + q)) [0..<?len])"
    by (rule put_entries_all [OF cs chunks]) simp_all
  moreover have "map (\<lambda>q. chunk_byte db cs (start + q)) [0..<?len] =
      subarray (file_content db n cs) start (start + perRead cs * cs)"
    unfolding file_content_def by (rule map_upt_subarray)
  ultimately show ?thesis by (simp add: filled_first start)
qed

section \<open>Loading gives the file\<close>

primrec contiguous :: "nat \<Rightarrow> (nat \<times> bytes) list \<Rightarrow> bool" where
  "contiguous start [] \<longleftrightarrow> True"
| "contiguous start (p # ps) \<longleftrightarrow> fst p = start \<and> contiguous (start + length (snd p)) ps"

lemma header_ok_take: "100 \<le> k \<Longrightarrow> header_ok (take k h) n = header_ok h n"
  by (simp add: header_ok_def getUint_take take_take)

lemma idb_checkHeader_small: "n < 512 \<Longrightarrow> idb_checkHeader header n = Inl CorruptDatabaseError"
  by (simp add: idb_checkHeader_def)

lemma idb_checkHeader_eq:
  assumes "n < 512 \<or> 100 \<le> length header"
  shows "idb_checkHeader header n = (if header_ok header n then Inr () else Inl CorruptDatabaseError)"
proof (cases "n < 512")
  case True
  then have "\<not> header_ok header n" by (simp add: header_ok_def)
  then show ?thesis using True idb_checkHeader_small by simp
next
  case False
  then have "100 \<le> length header" using assms by simp
  from snapshot_checkHeader_iff [OF this] snapshot_checkHeader_error [OF this] show ?thesis
    unfolding checkHeader_same by metis
qed

lemma perRead_bytes: "cs \<in> page_sizes \<Longrightarrow> 100 \<le> perRead cs * cs"
  by (auto simp: page_sizes_def perRead_def max_def READ_BYTES_def)

lemma first_piece_header:
  assumes "cs \<in> page_sizes"
  shows "idb_checkHeader (subarray (file_content db n cs) 0 (perRead cs * cs)) n =
    (if header_ok (file_content db n cs) n then Inr () else Inl CorruptDatabaseError)"
proof -
  have "header_ok (subarray (file_content db n cs) 0 (perRead cs * cs)) n = header_ok (file_content db n cs) n"
    using header_ok_take [OF perRead_bytes [OF assms]] by (simp add: subarray_def)
  then show ?thesis
    using perRead_bytes [OF assms] by (subst idb_checkHeader_eq) auto
qed

lemma load_loop_spec:
  assumes "file_ok db n cs" and "cs \<in> page_sizes" and "start = k * (perRead cs * cs)"
    and "load_loop db load n cs start loaded = (loaded', r)"
  shows "(\<exists>ps. loaded' = loaded @ ps \<and> contiguous start ps \<and> (n \<le> start \<longrightarrow> ps = []) \<and>
       (r = Inr () \<longrightarrow> concat (map snd ps) = drop start (file_content db n cs)) \<and>
       (start = 0 \<and> n \<noteq> 0 \<and> \<not> header_ok (file_content db n cs) n \<longrightarrow> r = Inl CorruptDatabaseError \<and> ps = []) \<and>
       (start \<noteq> 0 \<or> n = 0 \<or> header_ok (file_content db n cs) n \<longrightarrow> r = Inr () \<or> (\<exists>s p e. load s p = Inl e \<and> r = Inl e)))"
  using assms(3,4)
proof (induction "n - start" arbitrary: start k loaded rule: less_induct)
  case less
  let ?step = "perRead cs * cs" and ?content = "file_content db n cs"
  have cs: "0 < cs" using assms(1) by (simp add: file_ok_def)
  show ?case
  proof (cases "start < n")
    case False
    then have "load_loop db load n cs start loaded = (loaded, Inr ())" by (subst load_loop.simps) simp
    then show ?thesis using less.prems False by auto
  next
    case True
    define part where "part = subarray ?content start (start + ?step)"
    have put: "put_entries (start div cs) cs (entries db (start div cs) (start div cs + perRead cs))
        (zeros (min ?step (n - start))) = Inr part"
      unfolding part_def by (rule piece_content [OF assms(1) less.prems(1)])
    have loop: "load_loop db load n cs start loaded =
        (case (if start = 0 then idb_checkHeader part n else Inr ()) of Inl e \<Rightarrow> (loaded, Inl e)
         | Inr _ \<Rightarrow> (case load start part of Inl e \<Rightarrow> (loaded, Inl e)
             | Inr _ \<Rightarrow> load_loop db load n cs (start + ?step) (loaded @ [(start, part)])))"
      by (subst load_loop.simps) (simp only: True cs put Let_def sum.case if_True simp_thms)
    have header: "(if start = 0 then idb_checkHeader part n else Inr ()) =
        (if start = 0 \<and> \<not> header_ok ?content n then Inl CorruptDatabaseError else Inr ())"
      using first_piece_header [OF assms(2), of db n] by (simp add: part_def)
    show ?thesis
    proof (cases "start = 0 \<and> \<not> header_ok ?content n")
      case True
      then have "load_loop db load n cs start loaded = (loaded, Inl CorruptDatabaseError)"
        using True unfolding loop header by simp
      then show ?thesis using less.prems True \<open>start < n\<close> by auto
    next
      case good: False
      show ?thesis
      proof (cases "load start part")
        case (Inl e)
        then have "load_loop db load n cs start loaded = (loaded, Inl e)"
          by (simp only: loop header good Inl if_False sum.case)
        then have r: "loaded' = loaded" "r = Inl e" using less.prems(2) by simp_all
        have "\<exists>s p e. load s p = Inl e \<and> r = Inl e" using Inl r(2) by blast
        then show ?thesis using r(1) r(2) good \<open>start < n\<close> by (intro exI [of _ "[]"]) auto
      next
        case (Inr u)
        then have rest: "load_loop db load n cs start loaded =
            load_loop db load n cs (start + ?step) (loaded @ [(start, part)])"
          by (simp only: loop header good Inr if_False sum.case)
        have step: "0 < ?step" using cs by (simp add: perRead_def)
        then have "n - (start + ?step) < n - start" "start + ?step \<noteq> 0"
          using \<open>start < n\<close> by linarith+
        moreover have "start + ?step = Suc k * ?step" using less.prems(1) by simp
        ultimately have "n - (start + ?step) < n - start" "start + ?step = Suc k * ?step" "start + ?step \<noteq> 0"
          by blast+
        from less.hyps [OF this(1,2) less.prems(2) [unfolded rest]] this(3)
        obtain ps where ps: "loaded' = (loaded @ [(start, part)]) @ ps" "contiguous (start + ?step) ps"
          "n \<le> start + ?step \<longrightarrow> ps = []"
          "r = Inr () \<longrightarrow> concat (map snd ps) = drop (start + ?step) ?content"
          "r = Inr () \<or> (\<exists>s p e. load s p = Inl e \<and> r = Inl e)"
          by auto
        have "contiguous (start + length part) ps"
          using ps(2,3) by (cases "n \<le> start + ?step") (auto simp: part_def)
        moreover have "part @ drop (start + ?step) ?content = drop start ?content"
          using subarray_append [of start "start + ?step" "max n (start + ?step)" ?content]
          by (simp add: part_def subarray_def add.commute)
        ultimately show ?thesis
          using ps(1,3,4,5) good \<open>start < n\<close> by (intro exI [of _ "(start, part) # ps"]) auto
      qed
    qed
  qed
qed

section \<open>Properties\<close>

text \<open>
  C24. Loading a stored file in order passes the database its content, in pieces that follow each other
  from the start, with zeros for chunks that are missing, unless \<open>Database.load\<close> fails; a file whose
  header is not one of a database of its size is refused with \<open>SQLITE_CORRUPT\<close> before anything is
  passed on.
\<close>

theorem load_gives_file:
  assumes "file_ok db n cs" and "cs \<in> page_sizes" and "n < 2 ^ 53" and "loadInto db load = (ps, r)"
  shows "(n = 0 \<or> header_ok (file_content db n cs) n \<longrightarrow>
      r = Inr (Some n) \<and> contiguous 0 ps \<and> concat (map snd ps) = file_content db n cs
      \<or> (\<exists>s p e. load s p = Inl e \<and> r = Inl e))
    \<and> (\<not> (n = 0 \<or> header_ok (file_content db n cs) n) \<longrightarrow> r = Inl CorruptDatabaseError \<and> ps = [])"
proof -
  obtain ps' r' where loop: "load_loop db load n cs 0 [] = (ps', r')" by fastforce
  have meta: "db_meta db = Some \<lparr>mt_size = Whole (int n), mt_chunkSize = Whole (int cs)\<rparr>"
    using assms(1) by (simp add: file_ok_def)
  have "checkMeta \<lparr>mt_size = Whole (int n), mt_chunkSize = Whole (int cs)\<rparr> = Inr ()"
    using assms(2,3) checkMeta_iff by blast
  then have "loadInto db load = (ps', case r' of Inl e \<Rightarrow> Inl e | Inr _ \<Rightarrow> Inr (Some n))"
    by (simp add: loadInto_def meta loop split: sum.split)
  then have r: "ps = ps'" "r = (case r' of Inl e \<Rightarrow> Inl e | Inr _ \<Rightarrow> Inr (Some n))"
    using assms(4) by simp_all
  from load_loop_spec [OF assms(1,2) _ loop, of 0] show ?thesis
    unfolding r by (auto split: sum.splits)
qed

definition ex_file :: idb where
  "ex_file = \<lparr>db_chunks = [0 \<mapsto> ex_header 2 @ replicate 412 0], db_meta = Some \<lparr>mt_size = Whole 700, mt_chunkSize = Whole 512\<rparr>\<rparr>"

theorem load_gives_file_witness:
  "\<exists>ps. loadInto ex_file (\<lambda>_ _. Inr ()) = (ps, Inr (Some 700))
     \<and> concat (map snd ps) = ex_header 2 @ replicate 600 0"
proof -
  have ok: "file_ok ex_file 700 512"
    by (auto simp: file_ok_def ex_file_def ex_header_fields split: if_splits)
  have content: "file_content ex_file 700 512 = ex_header 2 @ replicate 600 0"
  proof (rule nth_equalityI)
    fix q assume "q < length (file_content ex_file 700 512)"
    then have "q < 700" by simp
    then consider "q < 100" | "100 \<le> q" "q < 512" | "512 \<le> q" "q < 1024" by linarith
    then show "file_content ex_file 700 512 ! q = (ex_header 2 @ replicate 600 0) ! q"
    proof cases
      case 3
      then have "q div 512 = 1" by (subst div_eq_block) auto
      then show ?thesis using 3 \<open>q < 700\<close>
        by (simp add: file_content_def chunk_byte_def ex_file_def nth_append ex_header_fields)
    qed (use \<open>q < 700\<close> in \<open>auto simp: file_content_def chunk_byte_def ex_file_def nth_append ex_header_fields\<close>)
  qed (simp add: ex_header_fields)
  have "header_ok (file_content ex_file 700 512) 700"
    using header_ok_take [of 100 "ex_header 2 @ replicate 600 0" 700] unfolding content
    by (auto simp: header_ok_def ex_header_fields page_sizes_def)
  moreover obtain ps r where load: "loadInto ex_file (\<lambda>_ _. Inr ()) = (ps, r)" by fastforce
  moreover have "(512::nat) \<in> page_sizes" "(700::nat) < 2 ^ 53" by (simp_all add: page_sizes_def)
  ultimately show ?thesis
    using load_gives_file [OF ok _ _ load] content by auto
qed

end
