(* ===== verification/Idb_Persistence.thy ===== *)
theory Idb_Persistence
  imports Idb_Load
begin

text \<open>
  \<open>IndexedDBPersistence\<close> of indexeddb.ts as a state machine. \<open>commit\<close>, \<open>flush\<close> and \<open>close\<close> run when the
  database calls them; between them, in any order the event loop allows, the writes chained on \<open>queue\<close>
  begin and end, each with its transaction complete or aborted. A promise of the queue is the number of
  the write it waits for (0 for the one that is resolved at first).
\<close>

section \<open>State and operations\<close>

record persistence =
  pe_pending :: batch
  pe_scheduled :: bool
  pe_size :: enat
  pe_queue :: nat
  pe_results :: "js_error option list"
  pe_inflight :: "batch option"
  pe_closed :: "nat option"
  pe_open :: bool
  pe_idb :: idb

definition new_persistence :: "idb \<Rightarrow> enat \<Rightarrow> persistence" where
  "new_persistence db n =
     \<lparr>pe_pending = emptyBatch, pe_scheduled = False, pe_size = n, pe_queue = 0, pe_results = [],
      pe_inflight = None, pe_closed = None, pe_open = True, pe_idb = db\<rparr>"

text \<open>\<open>schedule\<close>: chains one write on the queue, unless one that did not begin is there.\<close>

definition schedule :: "persistence \<Rightarrow> persistence" where
  "schedule p =
     (if pe_scheduled p then p
      else p\<lparr>pe_scheduled := True, pe_queue := Suc (pe_queue p)\<rparr>)"

definition pe_commit :: "persistence \<Rightarrow> commit \<Rightarrow> persistence" where
  "pe_commit p c =
     (if pe_closed p \<noteq> None then p
      else schedule (p\<lparr>pe_pending := merge (pe_pending p) (commit_batch (pe_size p) c),
                       pe_size := enat (cm_size c)\<rparr>))"

text \<open>\<open>write\<close>, up to its \<open>await\<close> and after it.\<close>

definition write_begin :: "persistence \<Rightarrow> persistence" where
  "write_begin p = p\<lparr>pe_scheduled := False, pe_pending := emptyBatch, pe_inflight := Some (pe_pending p)\<rparr>"

definition write_end :: "persistence \<Rightarrow> batch \<Rightarrow> js_error option \<Rightarrow> persistence" where
  "write_end p batch aborted =
     (case writeBatch (pe_idb p) batch aborted of
        (db, Inr _) \<Rightarrow> p\<lparr>pe_idb := db, pe_inflight := None, pe_results := pe_results p @ [None]\<rparr>
      | (db, Inl e) \<Rightarrow> p\<lparr>pe_idb := db, pe_inflight := None, pe_pending := merge batch (pe_pending p),
                         pe_results := pe_results p @ [Some e]\<rparr>)"

text \<open>\<open>flush\<close>: what it does right away, with the promise it awaits, and what it comes to.\<close>

definition flush_begin :: "persistence \<Rightarrow> persistence \<times> nat" where
  "flush_begin p =
     (let p = (if pe_closed p = None \<and> bt_meta (pe_pending p) \<noteq> None then schedule p else p)
      in (p, case pe_closed p of Some q \<Rightarrow> q | None \<Rightarrow> pe_queue p))"

definition promise_result :: "persistence \<Rightarrow> nat \<Rightarrow> js_error option option" where
  "promise_result p q =
     (if q = 0 then Some None
      else if q \<le> length (pe_results p) then Some (pe_results p ! (q - 1)) else None)"

definition flush_end :: "persistence \<Rightarrow> nat \<Rightarrow> unit result option" where
  "flush_end p q =
     (case promise_result p q of
        None \<Rightarrow> None
      | Some None \<Rightarrow> Some (Inr ())
      | Some (Some e) \<Rightarrow> Some (Inl e))"

definition pe_close :: "persistence \<Rightarrow> persistence" where
  "pe_close p =
     (if pe_closed p \<noteq> None then p
      else (let p = (if bt_meta (pe_pending p) \<noteq> None then schedule p else p)
            in p\<lparr>pe_closed := Some (pe_queue p)\<rparr>))"

definition idb_close :: "persistence \<Rightarrow> persistence" where
  "idb_close p = p\<lparr>pe_open := False\<rparr>"

section \<open>Runs\<close>

text \<open>
  A run from a loaded or replaced file, with what happened as the database sees it: the commits it
  made before it closed or detached, and for each \<open>flush\<close> and for \<open>close\<close> the promise and how many
  commits came before. \<open>chunk_size\<close> is that of the last commit.
\<close>

definition last_chunkSize :: "nat \<Rightarrow> commit list \<Rightarrow> nat" where
  "last_chunkSize cs commits = (if commits = [] then cs else cm_chunkSize (last commits))"

inductive pe_run :: "persistence \<Rightarrow> nat \<Rightarrow> commit list \<Rightarrow> (nat \<times> nat) list \<Rightarrow> persistence \<Rightarrow> bool"
  for p0 cs where
  run_start: "pe_run p0 cs [] [] p0"
| run_commit: "pe_run p0 cs commits flushes p \<Longrightarrow> pe_closed p = None
    \<Longrightarrow> commit_ok (pe_size p) (last_chunkSize cs commits) c
    \<Longrightarrow> pe_run p0 cs (commits @ [c]) flushes (pe_commit p c)"
| run_commit_closed: "pe_run p0 cs commits flushes p \<Longrightarrow> pe_closed p \<noteq> None
    \<Longrightarrow> pe_run p0 cs commits flushes (pe_commit p c)"
| run_flush: "pe_run p0 cs commits flushes p \<Longrightarrow> flush_begin p = (p', q)
    \<Longrightarrow> pe_run p0 cs commits (flushes @ [(q, length commits)]) p'"
| run_close: "pe_run p0 cs commits flushes p \<Longrightarrow> pe_run p0 cs commits flushes (pe_close p)"
| run_write_begin: "pe_run p0 cs commits flushes p \<Longrightarrow> pe_inflight p = None
    \<Longrightarrow> length (pe_results p) < pe_queue p \<Longrightarrow> pe_run p0 cs commits flushes (write_begin p)"
| run_write_end: "pe_run p0 cs commits flushes p \<Longrightarrow> pe_inflight p = Some batch
    \<Longrightarrow> pe_run p0 cs commits flushes (write_end p batch aborted)"
| run_idb_close: "pe_run p0 cs commits flushes p \<Longrightarrow> pe_closed p = Some q
    \<Longrightarrow> q \<le> length (pe_results p) \<Longrightarrow> pe_run p0 cs commits flushes (idb_close p)"
| run_versionchange: "pe_run p0 cs commits flushes p \<Longrightarrow> pe_run p0 cs commits flushes (idb_close p)"

section \<open>The invariant\<close>

abbreviation after :: "idb \<Rightarrow> commit list \<Rightarrow> idb" where
  "after db commits \<equiv> foldl spec_commit db commits"

definition apply_pending :: "batch \<Rightarrow> idb \<Rightarrow> idb" where
  "apply_pending b db = (if bt_meta b = None then db else apply_batch b db)"

text \<open>What a batch that was taken or is pending adds to a file.\<close>

definition carries :: "batch \<Rightarrow> idb \<Rightarrow> idb \<Rightarrow> commit list \<Rightarrow> bool" where
  "carries b db db' commits \<longleftrightarrow> batch_ok b \<and>
     (if commits = [] then b = emptyBatch \<and> db' = db else bt_meta b \<noteq> None \<and> apply_batch b db = db')"

text \<open>The commits are those that are stored, those in the write that runs, and those pending.\<close>

definition split_ok :: "idb \<Rightarrow> persistence \<Rightarrow> commit list \<Rightarrow> commit list \<Rightarrow> commit list \<Rightarrow> bool" where
  "split_ok db p A B C \<longleftrightarrow>
     pe_idb p = after db A \<and>
     (case pe_inflight p of
        None \<Rightarrow> B = []
      | Some b \<Rightarrow> B \<noteq> [] \<and> carries b (after db A) (after db (A @ B)) B) \<and>
     carries (pe_pending p) (after db (A @ B)) (after db (A @ B @ C)) C"

text \<open>
  A promise that a \<open>flush\<close> or \<open>close\<close> made \<open>m\<close> commits ago: once its write is done without an error,
  those are stored; while its write runs, they are stored or in that write.
\<close>

definition promise_ok :: "persistence \<Rightarrow> nat \<Rightarrow> nat \<Rightarrow> nat \<times> nat \<Rightarrow> bool" where
  "promise_ok p a b qm \<longleftrightarrow>
     (case qm of (q, m) \<Rightarrow> q \<le> pe_queue p \<and>
       (promise_result p q = Some None \<longrightarrow> m \<le> a) \<and>
       (pe_inflight p \<noteq> None \<and> q = Suc (length (pe_results p)) \<longrightarrow> m \<le> a + b))"

definition queue_ok :: "persistence \<Rightarrow> bool" where
  "queue_ok p \<longleftrightarrow>
     pe_queue p = length (pe_results p) + (if pe_inflight p = None then 0 else 1) + (if pe_scheduled p then 1 else 0) \<and>
     (pe_scheduled p \<longrightarrow> bt_meta (pe_pending p) \<noteq> None) \<and>
     (pe_inflight p = None \<and> bt_meta (pe_pending p) = None \<and> pe_results p \<noteq> [] \<longrightarrow> last (pe_results p) = None)"

definition pe_inv :: "idb \<Rightarrow> enat \<Rightarrow> nat \<Rightarrow> commit list \<Rightarrow> (nat \<times> nat) list \<Rightarrow> persistence \<Rightarrow> bool" where
  "pe_inv db n cs commits flushes p \<longleftrightarrow>
     queue_ok p \<and>
     pe_size p = (if commits = [] then n else enat (cm_size (last commits))) \<and>
     (pe_size p < \<infinity> \<longrightarrow> (\<exists>m. pe_size p = enat m \<and> file_ok (after db commits) m (last_chunkSize cs commits))) \<and>
     (\<exists>A B C. commits = A @ B @ C \<and> split_ok db p A B C \<and>
        (\<forall>qm \<in> set flushes. snd qm \<le> length commits \<and> promise_ok p (length A) (length B) qm) \<and>
        (\<forall>q. pe_closed p = Some q \<longrightarrow> promise_ok p (length A) (length B) (q, length commits)))"

lemma carries_meta: "carries b db db' commits \<Longrightarrow> bt_meta b = None \<longleftrightarrow> commits = []"
  by (auto simp: carries_def emptyBatch_def split: if_splits)

lemma carries_merge:
  assumes "carries a db0 db1 A" and "carries b db1 db2 B" and "A \<noteq> []"
  shows "carries (merge a b) db0 db2 (A @ B)"
proof (cases "B = []")
  case True
  then show ?thesis using assms by (auto simp: carries_def merge_empty)
next
  case False
  then show ?thesis
    using assms by (auto simp: carries_def apply_merge merge_ok merge_meta split: option.splits)
qed

lemma carries_commit:
  assumes "carries b db0 db1 C" and "commit_ok n cs c"
    and "n < \<infinity> \<Longrightarrow> \<exists>m. n = enat m \<and> file_ok db1 m cs"
  shows "carries (merge b (commit_batch n c)) db0 (spec_commit db1 c) (C @ [c])"
proof -
  have c: "carries (commit_batch n c) db1 (spec_commit db1 c) [c]"
    using commit_batch_ok [OF assms(2)] apply_commit_batch [OF assms(2,3)]
    by (simp add: carries_def) (simp add: commit_batch_def)
  show ?thesis
  proof (cases "C = []")
    case True
    then have b: "b = emptyBatch" "db1 = db0" using assms(1) by (simp_all add: carries_def)
    show ?thesis
      using c merge_ok [OF batch_ok_empty, of "commit_batch n c"] apply_merge_empty [of "commit_batch n c"]
      unfolding True b by (auto simp: carries_def merge_meta split: option.splits)
  next
    case False
    then show ?thesis using carries_merge [OF assms(1) c] by simp
  qed
qed

lemma pe_invE:
  assumes "pe_inv db n cs commits flushes p"
  obtains A B C where "commits = A @ B @ C" and "split_ok db p A B C"
    and "\<And>qm. qm \<in> set flushes \<Longrightarrow> snd qm \<le> length commits \<and> promise_ok p (length A) (length B) qm"
    and "\<And>q. pe_closed p = Some q \<Longrightarrow> promise_ok p (length A) (length B) (q, length commits)"
    and "queue_ok p" and "pe_size p = (if commits = [] then n else enat (cm_size (last commits)))"
    and "pe_size p < \<infinity> \<Longrightarrow> \<exists>m. pe_size p = enat m \<and> file_ok (after db commits) m (last_chunkSize cs commits)"
  using assms unfolding pe_inv_def by blast

lemma pe_invI:
  assumes "commits = A @ B @ C" and "split_ok db p A B C"
    and "\<And>qm. qm \<in> set flushes \<Longrightarrow> snd qm \<le> length commits \<and> promise_ok p (length A) (length B) qm"
    and "\<And>q. pe_closed p = Some q \<Longrightarrow> promise_ok p (length A) (length B) (q, length commits)"
    and "queue_ok p" and "pe_size p = (if commits = [] then n else enat (cm_size (last commits)))"
    and "pe_size p < \<infinity> \<Longrightarrow> \<exists>m. pe_size p = enat m \<and> file_ok (after db commits) m (last_chunkSize cs commits)"
  shows "pe_inv db n cs commits flushes p"
  using assms unfolding pe_inv_def by blast

lemma schedule_fields [simp]:
  "pe_pending (schedule p) = pe_pending p" "pe_size (schedule p) = pe_size p"
  "pe_results (schedule p) = pe_results p" "pe_inflight (schedule p) = pe_inflight p"
  "pe_closed (schedule p) = pe_closed p" "pe_idb (schedule p) = pe_idb p" "pe_open (schedule p) = pe_open p"
  "pe_scheduled (schedule p)" "pe_queue p \<le> pe_queue (schedule p)"
  by (simp_all add: schedule_def)

lemma queue_ok_schedule: "queue_ok p \<Longrightarrow> bt_meta (pe_pending p) \<noteq> None \<Longrightarrow> queue_ok (schedule p)"
  by (auto simp: queue_ok_def schedule_def)

lemma promise_ok_more:
  assumes "promise_ok p a b qm" and "pe_queue p \<le> pe_queue p'" and "pe_results p' = pe_results p"
    and "pe_inflight p' = pe_inflight p"
  shows "promise_ok p' a b qm"
  using assms by (auto simp: promise_ok_def promise_result_def split: if_splits)

lemma split_ok_lengths:
  assumes "split_ok db p A B C"
  shows "pe_inflight p = None \<longleftrightarrow> B = []" and "bt_meta (pe_pending p) = None \<longleftrightarrow> C = []"
  using assms carries_meta by (auto simp: split_ok_def split: option.splits)

text \<open>The promise of the queue stands for all commits so far, once what is pending is scheduled.\<close>

lemma promise_ok_queue:
  assumes "queue_ok p" and "split_ok db p A B C" and "C = [] \<or> pe_scheduled p"
  shows "promise_ok p (length A) (length B) (pe_queue p, length (A @ B @ C))"
proof -
  note len = split_ok_lengths [OF assms(2)]
  have sch: "pe_scheduled p \<longleftrightarrow> C \<noteq> []" using assms(1,3) len by (auto simp: queue_ok_def)
  then have "pe_queue p = length (pe_results p) + (if B = [] then 0 else 1) + (if C = [] then 0 else 1)"
    using assms(1) len by (simp add: queue_ok_def)
  then show ?thesis
    using len by (auto simp: promise_ok_def promise_result_def split: if_splits)
qed

lemma inv_start:
  assumes "n < \<infinity> \<Longrightarrow> \<exists>m. n = enat m \<and> file_ok db m cs"
  shows "pe_inv db n cs [] [] (new_persistence db n)"
  by (rule pe_invI [of "[]" "[]" "[]" "[]"])
    (use assms in \<open>auto simp: new_persistence_def split_ok_def carries_def queue_ok_def last_chunkSize_def\<close>)

lemma last_chunkSize_snoc [simp]: "last_chunkSize cs (commits @ [c]) = cm_chunkSize c"
  by (simp add: last_chunkSize_def)

lemma inv_commit:
  assumes "pe_inv db n cs commits flushes p" and "pe_closed p = None"
    and "commit_ok (pe_size p) (last_chunkSize cs commits) c"
  shows "pe_inv db n cs (commits @ [c]) flushes (pe_commit p c)"
proof -
  obtain A B C where inv: "commits = A @ B @ C" "split_ok db p A B C" "queue_ok p"
      "\<And>qm. qm \<in> set flushes \<Longrightarrow> snd qm \<le> length commits \<and> promise_ok p (length A) (length B) qm"
    and size: "pe_size p < \<infinity> \<Longrightarrow> \<exists>m. pe_size p = enat m \<and> file_ok (after db commits) m (last_chunkSize cs commits)"
    using assms(1) by (rule pe_invE) blast
  let ?p = "p\<lparr>pe_pending := merge (pe_pending p) (commit_batch (pe_size p) c), pe_size := enat (cm_size c)\<rparr>"
  have p': "pe_commit p c = schedule ?p" using assms(2) by (simp add: pe_commit_def)
  have meta: "bt_meta (pe_pending ?p) \<noteq> None" by (simp add: merge_meta commit_batch_def)
  have carry: "carries (pe_pending ?p) (after db (A @ B)) (after db (A @ B @ C @ [c])) (C @ [c])"
    using carries_commit [OF _ assms(3) size, of "pe_pending p" "after db (A @ B)" C] inv(1,2)
    by (simp add: split_ok_def)
  show ?thesis
  proof (rule pe_invI)
    show "commits @ [c] = A @ B @ C @ [c]" using inv(1) by simp
    show "split_ok db (pe_commit p c) A B (C @ [c])"
      using inv(2) carry unfolding p' split_ok_def by simp
    show "queue_ok (pe_commit p c)"
      unfolding p' by (rule queue_ok_schedule [OF _ meta]) (use inv(3) meta in \<open>auto simp: queue_ok_def\<close>)
    show "snd qm \<le> length (commits @ [c]) \<and> promise_ok (pe_commit p c) (length A) (length B) qm"
      if "qm \<in> set flushes" for qm
      using inv(4) [OF that] promise_ok_more [of p _ _ qm "pe_commit p c"] schedule_fields(9) [of ?p]
      unfolding p' by simp
    show "\<exists>m. pe_size (pe_commit p c) = enat m \<and> file_ok (after db (commits @ [c])) m (last_chunkSize cs (commits @ [c]))"
      using spec_commit_ok [OF assms(3) size] unfolding p' by simp
  qed (use assms(2) in \<open>simp_all add: p'\<close>)
qed

lemma inv_scheduled:
  assumes "pe_inv db n cs commits flushes p" and "bt_meta (pe_pending p) \<noteq> None"
  shows "pe_inv db n cs commits flushes (schedule p)"
proof -
  obtain A B C where inv: "commits = A @ B @ C" "split_ok db p A B C" "queue_ok p"
      "\<And>qm. qm \<in> set flushes \<Longrightarrow> snd qm \<le> length commits \<and> promise_ok p (length A) (length B) qm"
      "\<And>q. pe_closed p = Some q \<Longrightarrow> promise_ok p (length A) (length B) (q, length commits)"
    and size: "pe_size p = (if commits = [] then n else enat (cm_size (last commits)))"
      "pe_size p < \<infinity> \<Longrightarrow> \<exists>m. pe_size p = enat m \<and> file_ok (after db commits) m (last_chunkSize cs commits)"
    using assms(1) by (rule pe_invE) blast
  have more: "promise_ok p a b qm \<Longrightarrow> promise_ok (schedule p) a b qm" for a b qm
    by (rule promise_ok_more) simp_all
  show ?thesis
    using inv(1) inv(2) queue_ok_schedule [OF inv(3) assms(2)] more inv(4,5) size
    by (intro pe_invI [of commits A B C]) (auto simp: split_ok_def)
qed

text \<open>A promise made once everything pending is scheduled can be added to those that hold.\<close>

lemma inv_flush_add:
  assumes "pe_inv db n cs commits flushes p" and "pe_closed p = None" and "bt_meta (pe_pending p) = None \<or> pe_scheduled p"
  shows "pe_inv db n cs commits (flushes @ [(pe_queue p, length commits)]) p
    \<and> pe_inv db n cs commits flushes (p\<lparr>pe_closed := Some (pe_queue p)\<rparr>)"
proof -
  obtain A B C where inv: "commits = A @ B @ C" "split_ok db p A B C" "queue_ok p"
      "\<And>qm. qm \<in> set flushes \<Longrightarrow> snd qm \<le> length commits \<and> promise_ok p (length A) (length B) qm"
    and size: "pe_size p = (if commits = [] then n else enat (cm_size (last commits)))"
      "pe_size p < \<infinity> \<Longrightarrow> \<exists>m. pe_size p = enat m \<and> file_ok (after db commits) m (last_chunkSize cs commits)"
    using assms(1) by (rule pe_invE) blast
  have C: "C = [] \<or> pe_scheduled p" using assms(3) split_ok_lengths(2) [OF inv(2)] by blast
  have ok: "promise_ok p (length A) (length B) (pe_queue p, length commits)"
    using promise_ok_queue [OF inv(3,2) C] inv(1) by simp
  let ?p = "p\<lparr>pe_closed := Some (pe_queue p)\<rparr>"
  have same: "promise_ok ?p a b qm \<longleftrightarrow> promise_ok p a b qm" for a b qm
    by (cases qm) (simp add: promise_ok_def promise_result_def)
  have "pe_inv db n cs commits (flushes @ [(pe_queue p, length commits)]) p"
    using inv size ok assms(2) by (intro pe_invI [of commits A B C]) auto
  moreover have "pe_inv db n cs commits flushes ?p"
    using inv size ok same by (intro pe_invI [of commits A B C]) (auto simp: split_ok_def queue_ok_def)
  ultimately show ?thesis by blast
qed

lemma inv_flush:
  assumes "pe_inv db n cs commits flushes p" and "flush_begin p = (p', q)"
  shows "pe_inv db n cs commits (flushes @ [(q, length commits)]) p'"
proof (cases "pe_closed p")
  case None
  define p1 where "p1 = (if bt_meta (pe_pending p) \<noteq> None then schedule p else p)"
  have p': "p' = p1" "q = pe_queue p1" using assms(2) None by (auto simp: flush_begin_def p1_def Let_def)
  have "pe_inv db n cs commits flushes p1" "pe_closed p1 = None" "bt_meta (pe_pending p1) = None \<or> pe_scheduled p1"
    using assms(1) inv_scheduled None by (auto simp: p1_def)
  from inv_flush_add [OF this] show ?thesis by (simp add: p')
next
  case (Some c)
  then have p': "p' = p" "q = c" using assms(2) by (auto simp: flush_begin_def Let_def)
  obtain A B C where inv: "commits = A @ B @ C" "split_ok db p A B C" "queue_ok p"
      "\<And>qm. qm \<in> set flushes \<Longrightarrow> snd qm \<le> length commits \<and> promise_ok p (length A) (length B) qm"
      "\<And>q. pe_closed p = Some q \<Longrightarrow> promise_ok p (length A) (length B) (q, length commits)"
    and size: "pe_size p = (if commits = [] then n else enat (cm_size (last commits)))"
      "pe_size p < \<infinity> \<Longrightarrow> \<exists>m. pe_size p = enat m \<and> file_ok (after db commits) m (last_chunkSize cs commits)"
    using assms(1) by (rule pe_invE) blast
  show ?thesis
    using inv size Some unfolding p' by (intro pe_invI [of commits A B C]) auto
qed

lemma inv_close:
  assumes "pe_inv db n cs commits flushes p"
  shows "pe_inv db n cs commits flushes (pe_close p)"
proof (cases "pe_closed p")
  case None
  define p1 where "p1 = (if bt_meta (pe_pending p) \<noteq> None then schedule p else p)"
  have p': "pe_close p = p1\<lparr>pe_closed := Some (pe_queue p1)\<rparr>" using None by (simp add: pe_close_def p1_def Let_def)
  have "pe_inv db n cs commits flushes p1" "pe_closed p1 = None" "bt_meta (pe_pending p1) = None \<or> pe_scheduled p1"
    using assms inv_scheduled None by (auto simp: p1_def)
  from inv_flush_add [OF this] show ?thesis by (simp add: p')
qed (simp add: pe_close_def assms)

lemma inv_write_begin:
  assumes "pe_inv db n cs commits flushes p" and "pe_inflight p = None" and "length (pe_results p) < pe_queue p"
  shows "pe_inv db n cs commits flushes (write_begin p)"
proof -
  obtain A B C where inv: "commits = A @ B @ C" "split_ok db p A B C" "queue_ok p"
      "\<And>qm. qm \<in> set flushes \<Longrightarrow> snd qm \<le> length commits \<and> promise_ok p (length A) (length B) qm"
      "\<And>q. pe_closed p = Some q \<Longrightarrow> promise_ok p (length A) (length B) (q, length commits)"
    and size: "pe_size p = (if commits = [] then n else enat (cm_size (last commits)))"
      "pe_size p < \<infinity> \<Longrightarrow> \<exists>m. pe_size p = enat m \<and> file_ok (after db commits) m (last_chunkSize cs commits)"
    using assms(1) by (rule pe_invE) blast
  have B: "B = []" using split_ok_lengths(1) [OF inv(2)] assms(2) by simp
  have sch: "pe_scheduled p" using inv(3) assms(2,3) by (auto simp: queue_ok_def split: if_splits)
  then have C: "C \<noteq> []" using inv(3) split_ok_lengths(2) [OF inv(2)] by (auto simp: queue_ok_def)
  have more: "m \<le> length commits \<Longrightarrow> promise_ok p (length A) (length B) (q, m)
      \<Longrightarrow> promise_ok (write_begin p) (length A) (length C) (q, m)" for q m
    using inv(1) B by (auto simp: promise_ok_def promise_result_def write_begin_def split: if_splits)
  show ?thesis
  proof (rule pe_invI [of commits A C "[]"])
    show "split_ok db (write_begin p) A C []"
      using inv(2) B C by (simp add: split_ok_def write_begin_def carries_def)
    show "queue_ok (write_begin p)"
      using inv(3) sch assms(2) by (simp add: queue_ok_def write_begin_def)
    show "snd qm \<le> length commits \<and> promise_ok (write_begin p) (length A) (length C) qm"
      if "qm \<in> set flushes" for qm
      using inv(4) [OF that] more [of "snd qm" "fst qm"] by simp
    show "promise_ok (write_begin p) (length A) (length C) (q, length commits)"
      if "pe_closed (write_begin p) = Some q" for q
      using inv(5) [of q] that more [of "length commits" q] by (simp add: write_begin_def)
  qed (use inv(1) B size in \<open>simp_all add: write_begin_def\<close>)
qed

lemma write_end_cases:
  "write_end p b aborted = (case aborted of
     None \<Rightarrow> p\<lparr>pe_idb := apply_batch b (pe_idb p), pe_inflight := None, pe_results := pe_results p @ [None]\<rparr>
   | Some e \<Rightarrow> p\<lparr>pe_inflight := None, pe_pending := merge b (pe_pending p), pe_results := pe_results p @ [Some e]\<rparr>)"
  by (simp add: write_end_def writeBatch_def split: option.split)

lemma inv_write_end:
  assumes "pe_inv db n cs commits flushes p" and "pe_inflight p = Some b"
  shows "pe_inv db n cs commits flushes (write_end p b aborted)"
proof -
  obtain A B C where inv: "commits = A @ B @ C" "split_ok db p A B C" "queue_ok p"
      "\<And>qm. qm \<in> set flushes \<Longrightarrow> snd qm \<le> length commits \<and> promise_ok p (length A) (length B) qm"
      "\<And>q. pe_closed p = Some q \<Longrightarrow> promise_ok p (length A) (length B) (q, length commits)"
    and size: "pe_size p = (if commits = [] then n else enat (cm_size (last commits)))"
      "pe_size p < \<infinity> \<Longrightarrow> \<exists>m. pe_size p = enat m \<and> file_ok (after db commits) m (last_chunkSize cs commits)"
    using assms(1) by (rule pe_invE) blast
  have B: "B \<noteq> []" "carries b (after db A) (after db (A @ B)) B" and db: "pe_idb p = after db A"
    and C: "carries (pe_pending p) (after db (A @ B)) (after db (A @ B @ C)) C"
    using inv(2) assms(2) by (simp_all add: split_ok_def)
  let ?p = "write_end p b aborted"
  have fields: "pe_size ?p = pe_size p" "pe_closed ?p = pe_closed p" "pe_queue ?p = pe_queue p"
    "pe_inflight ?p = None" "pe_scheduled ?p = pe_scheduled p" "pe_results ?p = pe_results p @ [aborted]"
    by (simp_all add: write_end_cases split: option.split)
  let ?a = "length (if aborted = None then A @ B else A)"
  have promise: "promise_ok p (length A) (length B) qm \<Longrightarrow> promise_ok ?p ?a 0 qm" for qm
    using assms(2) by (cases qm) (auto simp: promise_ok_def promise_result_def fields nth_append le_Suc_eq split: if_splits)
  have queue: "queue_ok ?p"
    using inv(3) assms(2) B by (auto simp: queue_ok_def fields write_end_cases merge_meta carries_def split: option.splits)
  have rest: "pe_inv db n cs commits flushes ?p"
    if "commits = A' @ [] @ C'" and "split_ok db ?p A' [] C'"
      and "\<And>qm. promise_ok p (length A) (length B) qm \<Longrightarrow> promise_ok ?p (length A') 0 qm" for A' C'
  proof (rule pe_invI [OF that(1,2) _ _ queue])
    show "snd qm \<le> length commits \<and> promise_ok ?p (length A') (length []) qm" if "qm \<in> set flushes" for qm
      using inv(4) [OF that] \<open>\<And>qm. promise_ok p (length A) (length B) qm \<Longrightarrow> promise_ok ?p (length A') 0 qm\<close> by simp
    show "promise_ok ?p (length A') (length []) (q, length commits)" if "pe_closed ?p = Some q" for q
      using inv(5) [of q] that \<open>\<And>qm. promise_ok p (length A) (length B) qm \<Longrightarrow> promise_ok ?p (length A') 0 qm\<close>
      by (simp add: fields(2))
    show "pe_size ?p = (if commits = [] then n else enat (cm_size (last commits)))"
      unfolding fields by (rule size(1))
    show "\<exists>m. pe_size ?p = enat m \<and> file_ok (after db commits) m (last_chunkSize cs commits)" if "pe_size ?p < \<infinity>"
      using that unfolding fields by (rule size(2))
  qed
  show ?thesis
  proof (cases aborted)
    case None
    have "split_ok db ?p (A @ B) [] C"
      using B C db None by (simp add: split_ok_def write_end_cases carries_def)
    from rest [OF _ this] show ?thesis using inv(1) promise None by simp
  next
    case (Some e)
    have "split_ok db ?p A [] (B @ C)"
      using carries_merge [OF B(2) C B(1)] B db Some by (simp add: split_ok_def write_end_cases)
    from rest [OF _ this] show ?thesis using inv(1) promise Some by simp
  qed
qed

lemma inv_idb_close: "pe_inv db n cs commits flushes p \<Longrightarrow> pe_inv db n cs commits flushes (idb_close p)"
proof -
  have "promise_ok (idb_close p) a b qm \<longleftrightarrow> promise_ok p a b qm" for a b qm
    by (cases qm) (simp add: promise_ok_def promise_result_def idb_close_def)
  note promise = this
  have eqs: "queue_ok (idb_close p) \<longleftrightarrow> queue_ok p" "split_ok db (idb_close p) A B C \<longleftrightarrow> split_ok db p A B C"
    "pe_size (idb_close p) = pe_size p" "pe_closed (idb_close p) = pe_closed p" for A B C
    by (simp_all add: queue_ok_def split_ok_def idb_close_def)
  show "pe_inv db n cs commits flushes p \<Longrightarrow> pe_inv db n cs commits flushes (idb_close p)"
    unfolding pe_inv_def eqs promise .
qed

lemma run_inv:
  assumes "pe_run (new_persistence db n) cs commits flushes p"
    and "n < \<infinity> \<Longrightarrow> \<exists>m. n = enat m \<and> file_ok db m cs"
  shows "pe_inv db n cs commits flushes p"
  using assms
proof (induction rule: pe_run.induct)
  case run_start
  then show ?case by (rule inv_start)
next
  case (run_commit_closed commits flushes p c)
  then show ?case by (simp add: pe_commit_def)
qed (auto intro: inv_commit inv_flush inv_close inv_write_begin inv_write_end inv_idb_close)

section \<open>Properties\<close>

lemma run_prefix:
  assumes "pe_run (new_persistence db n) cs commits flushes p"
    and "n < \<infinity> \<Longrightarrow> \<exists>m. n = enat m \<and> file_ok db m cs"
  shows "\<exists>k \<le> length commits. pe_idb p = after db (take k commits) \<and>
    (\<forall>(q, m) \<in> set flushes. promise_result p q = Some None \<longrightarrow> m \<le> k)"
proof -
  obtain A B C where inv: "commits = A @ B @ C" "split_ok db p A B C"
      "\<And>qm. qm \<in> set flushes \<Longrightarrow> snd qm \<le> length commits \<and> promise_ok p (length A) (length B) qm"
    using run_inv [OF assms] unfolding pe_inv_def by blast
  show ?thesis
    using inv by (intro exI [of _ "length A"]) (auto simp: split_ok_def promise_ok_def)
qed

lemma run_file_ok:
  assumes "pe_run (new_persistence db n) cs commits flushes p"
    and "n < \<infinity> \<Longrightarrow> \<exists>m. n = enat m \<and> file_ok db m cs"
  shows "k \<le> length commits \<Longrightarrow> k \<noteq> 0 \<Longrightarrow>
    file_ok (after db (take k commits)) (cm_size (commits ! (k - 1))) (cm_chunkSize (commits ! (k - 1)))"
  using assms(1)
proof (induction rule: pe_run.induct)
  case (run_commit commits flushes p c)
  show ?case
  proof (cases "k \<le> length commits")
    case True
    moreover have "k - Suc 0 < length commits" using True run_commit.prems(2) by linarith
    ultimately show ?thesis using run_commit by (simp add: nth_append)
  next
    case False
    then have k: "k = Suc (length commits)" using run_commit.prems by simp
    have "pe_size p < \<infinity> \<Longrightarrow> \<exists>m. pe_size p = enat m \<and> file_ok (after db commits) m (last_chunkSize cs commits)"
      using run_inv [OF run_commit(1) assms(2)] unfolding pe_inv_def by blast
    from spec_commit_ok [OF run_commit(3) this] show ?thesis by (simp add: k)
  qed
qed auto

text \<open>
  C25. Whatever order commits, flushes and writes come in and whichever writes fail, what is stored at
  any moment is the file after some of the commits, from the first on, in order, whole commits only; a
  file in order, so that loading it (C24) gives the database as it was after those commits. And a
  \<open>flush\<close> that resolved has everything stored that was committed before it.
\<close>

theorem stored_is_committed_state:
  assumes "pe_run (new_persistence db n) cs commits flushes p"
    and "n < \<infinity> \<Longrightarrow> \<exists>m. n = enat m \<and> file_ok db m cs"
  shows "\<exists>k \<le> length commits. pe_idb p = after db (take k commits)
    \<and> (k \<noteq> 0 \<longrightarrow> file_ok (pe_idb p) (cm_size (commits ! (k - 1))) (cm_chunkSize (commits ! (k - 1))))
    \<and> (\<forall>(q, m) \<in> set flushes. flush_end p q = Some (Inr ()) \<longrightarrow> m \<le> k)"
proof -
  obtain k where k: "k \<le> length commits" "pe_idb p = after db (take k commits)"
    and fl: "\<forall>(q, m) \<in> set flushes. promise_result p q = Some None \<longrightarrow> m \<le> k"
    using run_prefix [OF assms] by blast
  have "flush_end p q = Some (Inr ()) \<longleftrightarrow> promise_result p q = Some None" for q
    by (simp add: flush_end_def split: option.splits)
  then show ?thesis using k fl run_file_ok [OF assms k(1)] by (intro exI [of _ k]) simp
qed

text \<open>Two commits, the first write of which fails; a flush after them waits for a write of both.\<close>

definition ex_commit1 :: commit where
  "ex_commit1 = \<lparr>cm_chunkSize = 2, cm_size = 4, cm_minSize = 0, cm_chunks = [(0, [1, 2]), (1, [3, 4])]\<rparr>"

definition ex_commit2 :: commit where
  "ex_commit2 = \<lparr>cm_chunkSize = 2, cm_size = 2, cm_minSize = 2, cm_chunks = [(0, [7, 8])]\<rparr>"

definition ex_empty_idb :: idb where
  "ex_empty_idb = \<lparr>db_chunks = Map.empty, db_meta = None\<rparr>"

definition ex_p1 :: persistence where
  "ex_p1 = write_begin (pe_commit (new_persistence ex_empty_idb \<infinity>) ex_commit1)"

definition ex_p2 :: persistence where
  "ex_p2 = fst (flush_begin (pe_commit (write_end ex_p1 (pe_pending (pe_commit (new_persistence ex_empty_idb \<infinity>) ex_commit1))
     (Some (Foreign 1))) ex_commit2))"

definition ex_p3 :: persistence where
  "ex_p3 = write_end (write_begin ex_p2) (pe_pending ex_p2) None"

lemma ex_p2_run: "pe_run (new_persistence ex_empty_idb \<infinity>) 0 [ex_commit1, ex_commit2] [(2, 2)] ex_p2"
proof -
  let ?p0 = "new_persistence ex_empty_idb \<infinity>"
  let ?b = "pe_pending (pe_commit ?p0 ex_commit1)"
  have "pe_run ?p0 0 ([] @ [ex_commit1]) [] (pe_commit ?p0 ex_commit1)"
    by (rule run_commit [OF run_start])
      (simp_all add: new_persistence_def commit_ok_def ex_commit1_def map_ok_def)
  then have "pe_run ?p0 0 [ex_commit1] [] ex_p1"
    unfolding ex_p1_def
    by (intro run_write_begin) (simp_all add: new_persistence_def pe_commit_def schedule_def)
  then have "pe_run ?p0 0 [ex_commit1] [] (write_end ex_p1 ?b (Some (Foreign 1)))"
    by (rule run_write_end) (simp add: ex_p1_def write_begin_def)
  then have "pe_run ?p0 0 ([ex_commit1] @ [ex_commit2]) [] (pe_commit (write_end ex_p1 ?b (Some (Foreign 1))) ex_commit2)"
    by (rule run_commit)
      (simp_all add: ex_p1_def write_end_cases write_begin_def new_persistence_def pe_commit_def schedule_def
        commit_ok_def last_chunkSize_def ex_commit1_def ex_commit2_def map_ok_def)
  then have "pe_run ?p0 0 ([ex_commit1] @ [ex_commit2]) ([] @ [(2, length ([ex_commit1] @ [ex_commit2]))]) ex_p2"
    unfolding ex_p2_def
    by (rule run_flush)
      (simp add: flush_begin_def ex_p1_def write_end_cases write_begin_def new_persistence_def pe_commit_def
        schedule_def merge_meta commit_batch_def Let_def)
  then show ?thesis by (simp add: numeral_2_eq_2)
qed

lemma ex_p3_run: "pe_run (new_persistence ex_empty_idb \<infinity>) 0 [ex_commit1, ex_commit2] [(2, 2)] ex_p3"
proof -
  have "pe_run (new_persistence ex_empty_idb \<infinity>) 0 [ex_commit1, ex_commit2] [(2, 2)] (write_begin ex_p2)"
    by (rule run_write_begin [OF ex_p2_run])
      (simp_all add: ex_p2_def flush_begin_def ex_p1_def write_end_cases write_begin_def new_persistence_def pe_commit_def
        schedule_def merge_meta commit_batch_def Let_def)
  then show ?thesis unfolding ex_p3_def by (rule run_write_end) (simp add: write_begin_def)
qed

theorem stored_is_committed_state_witness:
  "pe_idb ex_p3 = after ex_empty_idb [ex_commit1, ex_commit2] \<and> pe_idb ex_p2 = ex_empty_idb"
proof -
  have "flush_end ex_p3 2 = Some (Inr ())"
    by (simp add: flush_end_def promise_result_def ex_p3_def ex_p2_def flush_begin_def ex_p1_def write_end_cases
        write_begin_def new_persistence_def pe_commit_def schedule_def merge_meta commit_batch_def Let_def)
  moreover have "\<exists>k \<le> length [ex_commit1, ex_commit2]. pe_idb ex_p3 = after ex_empty_idb (take k [ex_commit1, ex_commit2])
      \<and> (\<forall>(q, m) \<in> set [(2, 2)]. flush_end ex_p3 q = Some (Inr ()) \<longrightarrow> m \<le> k)"
    using stored_is_committed_state [OF ex_p3_run] by blast
  moreover have "pe_idb ex_p2 = ex_empty_idb"
    by (simp add: ex_p2_def flush_begin_def ex_p1_def write_end_cases
        write_begin_def new_persistence_def pe_commit_def schedule_def Let_def)
  ultimately show ?thesis by auto
qed

text \<open>
  C26. Failed writes lose nothing: from every state that a run reaches before it closed, a \<open>flush\<close>
  and the writes that are due after it, if they complete, store all commits, and the \<open>flush\<close> resolves.
\<close>

theorem flush_stores_everything:
  assumes "pe_run (new_persistence db n) cs commits flushes p" and "pe_closed p = None"
    and "n < \<infinity> \<Longrightarrow> \<exists>m. n = enat m \<and> file_ok db m cs"
    and "flush_begin p = (p1, q)"
    and "p2 = (case pe_inflight p1 of None \<Rightarrow> p1 | Some b \<Rightarrow> write_end p1 b None)"
    and "p3 = (if length (pe_results p2) < pe_queue p2 then write_end (write_begin p2) (pe_pending p2) None else p2)"
  shows "pe_idb p3 = after db commits \<and> flush_end p3 q = Some (Inr ())"
proof -
  have run1: "pe_run (new_persistence db n) cs commits (flushes @ [(q, length commits)]) p1"
    using run_flush [OF assms(1,4)] .
  then have run2: "pe_run (new_persistence db n) cs commits (flushes @ [(q, length commits)]) p2"
    unfolding assms(5) by (auto intro: run_write_end split: option.split)
  have none: "pe_inflight p2 = None" by (simp add: assms(5) write_end_cases split: option.split)
  have run3: "pe_run (new_persistence db n) cs commits (flushes @ [(q, length commits)]) p3"
  proof (cases "length (pe_results p2) < pe_queue p2")
    case True
    from run_write_begin [OF run2 none True]
    have "pe_run (new_persistence db n) cs commits (flushes @ [(q, length commits)]) (write_begin p2)" .
    from run_write_end [OF this, of "pe_pending p2" None] True show ?thesis
      by (simp add: assms(6) write_begin_def)
  qed (use run2 in \<open>simp add: assms(6)\<close>)
  have q: "q = pe_queue p1" using assms(2,4) by (auto simp: flush_begin_def Let_def split: if_splits)
  have ok1: "queue_ok p1" and ok2: "queue_ok p2"
    using run_inv [OF run1 assms(3)] run_inv [OF run2 assms(3)] by (simp_all add: pe_inv_def)
  have queue2: "pe_queue p2 = q" by (simp add: q assms(5) write_end_cases split: option.split)
  have pend: "bt_meta (pe_pending p1) = None \<or> pe_scheduled p1"
    using assms(2,4) by (auto simp: flush_begin_def Let_def split: if_splits)
  have last: "promise_result p3 q = Some None"
  proof (cases "length (pe_results p2) < pe_queue p2")
    case True
    then have "q = Suc (length (pe_results p2))" using ok2 none queue2 by (simp add: queue_ok_def split: if_splits)
    then show ?thesis using True by (simp add: promise_result_def assms(6) write_end_cases write_begin_def nth_append)
  next
    case False
    then have "\<not> pe_scheduled p2" "q = length (pe_results p2)" using ok2 none queue2 by (auto simp: queue_ok_def)
    moreover have "bt_meta (pe_pending p2) = None"
      using pend calculation(1) by (auto simp: assms(5) write_end_cases split: option.splits)
    ultimately show ?thesis
      using ok2 none False by (cases "pe_results p2 = []") (auto simp: promise_result_def assms(6) queue_ok_def last_conv_nth)
  qed
  obtain k where "k \<le> length commits" "pe_idb p3 = after db (take k commits)" "length commits \<le> k"
    using run_prefix [OF run3 assms(3)] last by fastforce
  then show ?thesis using last by (simp add: flush_end_def)
qed

theorem flush_stores_everything_witness:
  "pe_idb ex_p3 = after ex_empty_idb [ex_commit1, ex_commit2]"
proof -
  have "pe_closed ex_p2 = None" "flush_begin ex_p2 = (ex_p2, 2)" "pe_inflight ex_p2 = None"
    "length (pe_results ex_p2) < pe_queue ex_p2"
    by (simp_all add: ex_p2_def flush_begin_def ex_p1_def write_end_cases write_begin_def new_persistence_def pe_commit_def
        schedule_def merge_meta commit_batch_def Let_def)
  with flush_stores_everything [OF ex_p2_run, of ex_p2 2 ex_p2 ex_p3] show ?thesis
    by (simp add: ex_p3_def)
qed

end
