(* ===== verification/Idb_Names.thy ===== *)
theory Idb_Names
  imports Idb_Persistence
begin

text \<open>
  The names of the databases in one IndexedDB implementation (\<open>Names\<close> of indexeddb.ts), and
  \<open>IndexedDBStorage.store\<close> and \<open>delete\<close> as far as they take and give back names. A client is one call
  of \<open>store\<close> and the persistence that came of it, by a number; what it does between two awaits is one
  step, and the steps of the clients interleave.
\<close>

section \<open>State and operations\<close>

text \<open>
  \<open>Waiting\<close> is in \<open>store\<close>, waiting for the client whose final write \<open>closing\<close> had when it was called;
  \<open>Loading\<close> opens and loads; \<open>Stored\<close> has a persistence that stores; \<open>Closing\<close> writes what is left;
  \<open>Gone\<close> has closed its connection and its promise in \<open>closing\<close> is resolved.
\<close>

datatype phase = Waiting "nat option" | Loading | Stored | Closing | Gone

record registry =
  rg_active :: "string set"
  rg_closing :: "(string \<times> nat) list"
  rg_clients :: "nat \<Rightarrow> (string \<times> phase) option"

definition rg_empty :: registry where
  "rg_empty = \<lparr>rg_active = {}, rg_closing = [], rg_clients = Map.empty\<rparr>"

definition set_client :: "nat \<Rightarrow> string \<Rightarrow> phase \<Rightarrow> registry \<Rightarrow> registry" where
  "set_client i name ph rg = rg\<lparr>rg_clients := (rg_clients rg)(i \<mapsto> (name, ph))\<rparr>"

text \<open>\<open>store\<close> up to its first \<open>await\<close>: the name is taken right away.\<close>

definition store_call :: "registry \<Rightarrow> string \<Rightarrow> nat \<Rightarrow> registry result" where
  "store_call rg name i =
     (if name \<in> rg_active rg then Inl (SqliteError SQLITE_BUSY)
      else Inr (set_client i name (Waiting (map_get (rg_closing rg) name))
                  (rg\<lparr>rg_active := insert name (rg_active rg)\<rparr>)))"

text \<open>After \<open>closing.get(name)\<close>: the connection is opened, and the file is loaded.\<close>

definition store_open :: "registry \<Rightarrow> string \<Rightarrow> nat \<Rightarrow> registry" where
  "store_open rg name i = set_client i name Loading rg"

definition store_done :: "registry \<Rightarrow> string \<Rightarrow> nat \<Rightarrow> registry" where
  "store_done rg name i = set_client i name Stored rg"

text \<open>The names in \<open>IndexedDBPersistence.close\<close>, and after the final write.\<close>

definition names_close :: "registry \<Rightarrow> string \<Rightarrow> nat \<Rightarrow> registry" where
  "names_close rg name i =
     set_client i name Closing
       (rg\<lparr>rg_closing := map_set name i (rg_closing rg), rg_active := rg_active rg - {name}\<rparr>)"

definition names_closed :: "registry \<Rightarrow> string \<Rightarrow> nat \<Rightarrow> registry" where
  "names_closed rg name i =
     set_client i name Gone
       (if map_get (rg_closing rg) name = Some i
        then rg\<lparr>rg_closing := map_delete name (rg_closing rg)\<rparr> else rg)"

text \<open>The \<open>catch\<close> of \<open>store\<close>: with a persistence it closes that, without it gives back the name.\<close>

definition store_failed :: "registry \<Rightarrow> string \<Rightarrow> nat \<Rightarrow> bool \<Rightarrow> registry" where
  "store_failed rg name i persistence =
     (if persistence then names_close rg name i
      else set_client i name Gone (rg\<lparr>rg_active := rg_active rg - {name}\<rparr>))"

text \<open>\<open>delete\<close> up to its first \<open>await\<close>: an error, or the client it waits for.\<close>

definition delete_call :: "registry \<Rightarrow> string \<Rightarrow> nat option result" where
  "delete_call rg name =
     (if name \<in> rg_active rg then Inl (SqliteError SQLITE_BUSY)
      else Inr (map_get (rg_closing rg) name))"

section \<open>Steps\<close>

definition resolved :: "registry \<Rightarrow> nat option \<Rightarrow> bool" where
  "resolved rg w = (case w of None \<Rightarrow> True
     | Some j \<Rightarrow> (case rg_clients rg j of Some (_, Gone) \<Rightarrow> True | _ \<Rightarrow> False))"

inductive rg_step :: "registry \<Rightarrow> registry \<Rightarrow> bool" where
  step_call: "rg_clients rg i = None \<Longrightarrow> store_call rg name i = Inr rg' \<Longrightarrow> rg_step rg rg'"
| step_open: "rg_clients rg i = Some (name, Waiting w) \<Longrightarrow> resolved rg w \<Longrightarrow> rg_step rg (store_open rg name i)"
| step_done: "rg_clients rg i = Some (name, Loading) \<Longrightarrow> rg_step rg (store_done rg name i)"
| step_failed: "rg_clients rg i = Some (name, Loading) \<Longrightarrow> rg_step rg (store_failed rg name i persistence)"
| step_close: "rg_clients rg i = Some (name, Stored) \<Longrightarrow> rg_step rg (names_close rg name i)"
| step_closed: "rg_clients rg i = Some (name, Closing) \<Longrightarrow> rg_step rg (names_closed rg name i)"

inductive_cases rg_stepE: "rg_step rg rg'"

abbreviation rg_reachable :: "registry \<Rightarrow> bool" where
  "rg_reachable \<equiv> rg_step\<^sup>*\<^sup>* rg_empty"

section \<open>The invariant\<close>

text \<open>A client has the name from its call on, until it closes.\<close>

definition holds_name :: "registry \<Rightarrow> string \<Rightarrow> nat \<Rightarrow> bool" where
  "holds_name rg name i \<longleftrightarrow>
     (\<exists>ph. rg_clients rg i = Some (name, ph) \<and> ph \<noteq> Closing \<and> ph \<noteq> Gone)"

definition is_closing :: "registry \<Rightarrow> string \<Rightarrow> nat \<Rightarrow> bool" where
  "is_closing rg name i \<longleftrightarrow> rg_clients rg i = Some (name, Closing)"

text \<open>A client that has the connection open.\<close>

definition uses :: "registry \<Rightarrow> string \<Rightarrow> nat \<Rightarrow> bool" where
  "uses rg name i \<longleftrightarrow>
     (\<exists>ph. rg_clients rg i = Some (name, ph) \<and> (ph = Loading \<or> ph = Stored \<or> ph = Closing))"

definition rg_inv :: "registry \<Rightarrow> bool" where
  "rg_inv rg \<longleftrightarrow>
     (\<forall>name. name \<in> rg_active rg \<longleftrightarrow> (\<exists>i. holds_name rg name i)) \<and>
     (\<forall>name i j. holds_name rg name i \<longrightarrow> holds_name rg name j \<longrightarrow> i = j) \<and>
     (\<forall>name i. is_closing rg name i \<longleftrightarrow> map_get (rg_closing rg) name = Some i) \<and>
     (\<forall>name i w j. rg_clients rg i = Some (name, Waiting w) \<longrightarrow> is_closing rg name j \<longrightarrow> w = Some j) \<and>
     (\<forall>name i ph j. rg_clients rg i = Some (name, ph) \<longrightarrow> (ph = Loading \<or> ph = Stored) \<longrightarrow> \<not> is_closing rg name j)"

lemma rg_inv_empty: "rg_inv rg_empty"
  by (simp add: rg_inv_def rg_empty_def holds_name_def is_closing_def)

lemma set_client_fields [simp]:
  "rg_active (set_client i name ph rg) = rg_active rg"
  "rg_closing (set_client i name ph rg) = rg_closing rg"
  "rg_clients (set_client i name ph rg) = (rg_clients rg)(i \<mapsto> (name, ph))"
  by (simp_all add: set_client_def)

lemma holds_set_client:
  "holds_name (set_client i name ph rg) n j \<longleftrightarrow>
     (if j = i then n = name \<and> ph \<noteq> Closing \<and> ph \<noteq> Gone else holds_name rg n j)"
  by (auto simp: holds_name_def)

lemma closing_set_client:
  "is_closing (set_client i name ph rg) n j \<longleftrightarrow> (if j = i then n = name \<and> ph = Closing else is_closing rg n j)"
  by (auto simp: is_closing_def)

lemma holds_update [simp]:
  "holds_name (rg\<lparr>rg_active := a\<rparr>) = holds_name rg" "holds_name (rg\<lparr>rg_closing := c\<rparr>) = holds_name rg"
  "is_closing (rg\<lparr>rg_active := a\<rparr>) = is_closing rg" "is_closing (rg\<lparr>rg_closing := c\<rparr>) = is_closing rg"
  by (simp_all add: holds_name_def is_closing_def fun_eq_iff)

lemma rg_invI:
  assumes "\<And>name. name \<in> rg_active rg \<longleftrightarrow> (\<exists>i. holds_name rg name i)"
    and "\<And>name i j. holds_name rg name i \<Longrightarrow> holds_name rg name j \<Longrightarrow> i = j"
    and "\<And>name i. is_closing rg name i \<longleftrightarrow> map_get (rg_closing rg) name = Some i"
    and "\<And>name i w j. rg_clients rg i = Some (name, Waiting w) \<Longrightarrow> is_closing rg name j \<Longrightarrow> w = Some j"
    and "\<And>name i ph j. rg_clients rg i = Some (name, ph) \<Longrightarrow> ph = Loading \<or> ph = Stored \<Longrightarrow> \<not> is_closing rg name j"
  shows "rg_inv rg"
  using assms unfolding rg_inv_def by blast

lemma rg_invD:
  assumes "rg_inv rg"
  shows "name \<in> rg_active rg \<longleftrightarrow> (\<exists>i. holds_name rg name i)"
    and "holds_name rg name i \<Longrightarrow> holds_name rg name j \<Longrightarrow> i = j"
    and "is_closing rg name i \<longleftrightarrow> map_get (rg_closing rg) name = Some i"
    and "rg_clients rg i = Some (name, Waiting w) \<Longrightarrow> is_closing rg name j \<Longrightarrow> w = Some j"
    and "rg_clients rg i = Some (name, ph) \<Longrightarrow> ph = Loading \<or> ph = Stored \<Longrightarrow> \<not> is_closing rg name j"
  using assms unfolding rg_inv_def by blast+

lemma inv_store_call:
  assumes "rg_inv rg" and "rg_clients rg i = None" and "store_call rg name i = Inr rg'"
  shows "rg_inv rg'"
proof -
  let ?w = "map_get (rg_closing rg) name"
  have free: "name \<notin> rg_active rg"
    and rg': "rg' = set_client i name (Waiting ?w) (rg\<lparr>rg_active := insert name (rg_active rg)\<rparr>)"
    using assms(3) by (auto simp: store_call_def split: if_splits)
  note inv = rg_invD [OF assms(1)]
  have noholder: "\<not> holds_name rg name j" for j using inv(1) free by blast
  have new: "\<not> is_closing rg n i" "\<not> holds_name rg n i" for n
    using assms(2) by (simp_all add: is_closing_def holds_name_def)
  show ?thesis
  proof (rule rg_invI)
    show "n \<in> rg_active rg' \<longleftrightarrow> (\<exists>j. holds_name rg' n j)" for n
    proof -
      have "holds_name rg' n j \<longleftrightarrow> holds_name rg n j \<or> j = i \<and> n = name" for j
        using new by (auto simp: rg' holds_set_client)
      then show ?thesis using inv(1) [of n] by (auto simp: rg')
    qed
    show "j = k" if "holds_name rg' n j" "holds_name rg' n k" for n j k
      using that noholder inv(2) by (auto simp: rg' holds_set_client split: if_splits)
    show "is_closing rg' n j \<longleftrightarrow> map_get (rg_closing rg') n = Some j" for n j
      using inv(3) [of n j] new by (auto simp: rg' closing_set_client)
    show "w = Some k" if "rg_clients rg' j = Some (n, Waiting w)" "is_closing rg' n k" for n j w k
      using that inv(3,4) by (auto simp: rg' closing_set_client split: if_splits)
    show "\<not> is_closing rg' n k" if "rg_clients rg' j = Some (n, ph)" "ph = Loading \<or> ph = Stored" for n j ph k
      using that inv(5) by (auto simp: rg' closing_set_client split: if_splits)
  qed
qed

lemma inv_advance:
  assumes "rg_inv rg" and "holds_name rg name i" and "\<And>j. \<not> is_closing rg name j" and "ph = Loading \<or> ph = Stored"
  shows "rg_inv (set_client i name ph rg)"
proof -
  note inv = rg_invD [OF assms(1)]
  have i: "\<not> is_closing rg n i" for n using assms(2) by (auto simp: is_closing_def holds_name_def)
  have ph: "ph \<noteq> Closing" "ph \<noteq> Gone" "\<And>w. ph \<noteq> Waiting w" using assms(4) by auto
  have same: "holds_name (set_client i name ph rg) = holds_name rg"
    using assms(2) ph by (auto simp: fun_eq_iff holds_set_client) (auto simp: holds_name_def)
  have closing: "is_closing (set_client i name ph rg) = is_closing rg"
    using i ph by (auto simp: fun_eq_iff closing_set_client)
  show ?thesis
    by (rule rg_invI) (use inv assms(3) ph in \<open>auto simp: same closing split: if_splits\<close>)
qed

lemma inv_close_name:
  assumes "rg_inv rg" and "rg_clients rg i = Some (name, ph)" and "ph = Loading \<or> ph = Stored"
  shows "rg_inv (names_close rg name i)"
proof -
  note inv = rg_invD [OF assms(1)]
  have h: "holds_name rg name i" using assms(2,3) by (auto simp: holds_name_def)
  have none: "\<not> is_closing rg name j" for j using inv(5) [OF assms(2,3)] .
  have other: "\<not> holds_name rg name j" if "j \<noteq> i" for j using inv(2) h that by blast
  have at_i: "holds_name rg n i \<Longrightarrow> n = name" "\<not> is_closing rg n i" for n
    using assms(2,3) by (auto simp: holds_name_def is_closing_def)
  show ?thesis
  proof (rule rg_invI)
    show "n \<in> rg_active (names_close rg name i) \<longleftrightarrow> (\<exists>j. holds_name (names_close rg name i) n j)" for n
    proof -
      have "holds_name (names_close rg name i) n j \<longleftrightarrow> holds_name rg n j \<and> n \<noteq> name" for j
        using other [of j] at_i(1) [of n] by (auto simp: names_close_def holds_set_client)
      then show ?thesis using inv(1) [of n] by (auto simp: names_close_def)
    qed
    show "j = k" if "holds_name (names_close rg name i) n j" "holds_name (names_close rg name i) n k" for n j k
      using that inv(2) by (auto simp: names_close_def holds_set_client split: if_splits)
    show "is_closing (names_close rg name i) n j \<longleftrightarrow> map_get (rg_closing (names_close rg name i)) n = Some j" for n j
      using inv(3) [of n j] none [of j] at_i
      by (auto simp: names_close_def closing_set_client map_get_set)
    show "w = Some k" if "rg_clients (names_close rg name i) j = Some (n, Waiting w)"
        "is_closing (names_close rg name i) n k" for n j w k
    proof -
      have j: "j \<noteq> i" "rg_clients rg j = Some (n, Waiting w)"
        using that(1) by (auto simp: names_close_def split: if_splits)
      then have "holds_name rg n j" by (simp add: holds_name_def)
      then have "n \<noteq> name" using other j(1) by blast
      then show ?thesis using that(2) inv(4) [OF j(2)] by (auto simp: names_close_def closing_set_client split: if_splits)
    qed
    show "\<not> is_closing (names_close rg name i) n k"
      if "rg_clients (names_close rg name i) j = Some (n, ph')" "ph' = Loading \<or> ph' = Stored" for n j ph' k
    proof -
      have j: "j \<noteq> i" "rg_clients rg j = Some (n, ph')"
        using that by (auto simp: names_close_def split: if_splits)
      then have "holds_name rg n j" using that(2) by (auto simp: holds_name_def)
      then have "n \<noteq> name" using other j(1) by blast
      then show ?thesis using inv(5) [OF j(2) that(2)] by (auto simp: names_close_def closing_set_client)
    qed
  qed
qed

lemma inv_closed_name:
  assumes "rg_inv rg" and "rg_clients rg i = Some (name, Closing)"
  shows "rg_inv (names_closed rg name i)"
proof -
  let ?rg = "names_closed rg name i"
  note inv = rg_invD [OF assms(1)]
  have "is_closing rg name i" using assms(2) by (simp add: is_closing_def)
  then have get: "map_get (rg_closing rg) name = Some i" using inv(3) by simp
  have rg: "rg_active ?rg = rg_active rg" "rg_closing ?rg = map_delete name (rg_closing rg)"
    "rg_clients ?rg = (rg_clients rg)(i \<mapsto> (name, Gone))"
    using get by (simp_all add: names_closed_def)
  have holds: "holds_name ?rg n j \<longleftrightarrow> holds_name rg n j" for n j
    using assms(2) by (auto simp: holds_name_def rg)
  have "is_closing ?rg n j \<longleftrightarrow> is_closing rg n j \<and> j \<noteq> i" for n j
    by (auto simp: is_closing_def rg)
  moreover have "is_closing rg n i \<Longrightarrow> n = name" "is_closing rg name j \<Longrightarrow> j = i" for n j
    using assms(2) get inv(3) by (auto simp: is_closing_def)
  ultimately have closing: "is_closing ?rg n j \<longleftrightarrow> is_closing rg n j \<and> n \<noteq> name" for n j
    by blast
  show ?thesis
  proof (rule rg_invI)
    show "n \<in> rg_active ?rg \<longleftrightarrow> (\<exists>j. holds_name ?rg n j)" for n using inv(1) by (simp add: holds rg)
    show "j = k" if "holds_name ?rg n j" "holds_name ?rg n k" for n j k using that inv(2) by (simp add: holds)
    show "is_closing ?rg n j \<longleftrightarrow> map_get (rg_closing ?rg) n = Some j" for n j
      using inv(3) by (simp add: closing rg map_get_delete)
    show "w = Some k" if "rg_clients ?rg j = Some (n, Waiting w)" "is_closing ?rg n k" for n j w k
      using that inv(4) [of j n w k] by (auto simp: closing rg split: if_splits)
    show "\<not> is_closing ?rg n k" if "rg_clients ?rg j = Some (n, ph)" "ph = Loading \<or> ph = Stored" for n j ph k
      using that inv(5) [of j n ph k] by (auto simp: closing rg split: if_splits)
  qed
qed

lemma inv_failed:
  assumes "rg_inv rg" and "rg_clients rg i = Some (name, Loading)"
  shows "rg_inv (store_failed rg name i persistence)"
proof (cases persistence)
  case True
  then show ?thesis using inv_close_name [OF assms] by (simp add: store_failed_def)
next
  case False
  let ?rg = "store_failed rg name i persistence"
  note inv = rg_invD [OF assms(1)]
  have h: "holds_name rg name i" using assms(2) by (simp add: holds_name_def)
  have rg: "rg_active ?rg = rg_active rg - {name}" "rg_closing ?rg = rg_closing rg"
    "rg_clients ?rg = (rg_clients rg)(i \<mapsto> (name, Gone))"
    using False by (simp_all add: store_failed_def)
  have at_i: "holds_name rg n i \<Longrightarrow> n = name" for n
    using assms(2) by (auto simp: holds_name_def)
  have "holds_name ?rg n j \<longleftrightarrow> holds_name rg n j \<and> j \<noteq> i" for n j
    by (auto simp: holds_name_def rg)
  then have holds: "holds_name ?rg n j \<longleftrightarrow> holds_name rg n j \<and> n \<noteq> name" for n j
    using inv(2) h at_i by blast
  have closing: "is_closing ?rg n j \<longleftrightarrow> is_closing rg n j" for n j
    using assms(2) by (auto simp: is_closing_def rg)
  show ?thesis
  proof (rule rg_invI)
    show "n \<in> rg_active ?rg \<longleftrightarrow> (\<exists>j. holds_name ?rg n j)" for n using inv(1) [of n] by (auto simp: holds rg)
    show "j = k" if "holds_name ?rg n j" "holds_name ?rg n k" for n j k using that inv(2) by (auto simp: holds)
    show "is_closing ?rg n j \<longleftrightarrow> map_get (rg_closing ?rg) n = Some j" for n j
      using inv(3) by (simp add: closing rg)
    show "w = Some k" if "rg_clients ?rg j = Some (n, Waiting w)" "is_closing ?rg n k" for n j w k
      using that inv(4) [of j n w k] by (auto simp: closing rg split: if_splits)
    show "\<not> is_closing ?rg n k" if "rg_clients ?rg j = Some (n, ph)" "ph = Loading \<or> ph = Stored" for n j ph k
      using that inv(5) [of j n ph k] by (auto simp: closing rg split: if_splits)
  qed
qed

lemma inv_step: "rg_step rg rg' \<Longrightarrow> rg_inv rg \<Longrightarrow> rg_inv rg'"
proof (induction rule: rg_step.induct)
  case (step_call rg i name rg')
  then show ?case by (auto intro: inv_store_call)
next
  case (step_open rg i name w)
  have "\<not> is_closing rg name j" for j
    using rg_invD(4) [OF step_open.prems step_open.hyps(1), of j] step_open.hyps(2)
    by (auto simp: resolved_def is_closing_def)
  then show ?case
    unfolding store_open_def using step_open by (intro inv_advance) (auto simp: holds_name_def)
next
  case (step_done rg i name)
  then show ?case
    unfolding store_done_def by (intro inv_advance) (auto simp: holds_name_def dest: rg_invD(5))
next
  case (step_failed rg i name persistence)
  then show ?case by (intro inv_failed) auto
next
  case (step_close rg i name)
  then show ?case by (intro inv_close_name) auto
next
  case (step_closed rg i name)
  then show ?case by (intro inv_closed_name) auto
qed

lemma reachable_inv: "rg_reachable rg \<Longrightarrow> rg_inv rg"
  by (induction rule: rtranclp_induct) (auto intro: rg_inv_empty inv_step)

section \<open>Properties\<close>

text \<open>
  C27. However the calls of \<open>store\<close> and the closing of what they stored interleave: under a name at
  most one has the stored database open, also while it writes its last commits; \<open>store\<close> and \<open>delete\<close>
  fail with \<open>SQLITE_BUSY\<close> exactly while a call has the name; and a name that no call has or closes is
  left in neither collection.
\<close>

theorem names_exclusive:
  assumes "rg_reachable rg"
  shows "(uses rg name i \<and> uses rg name j \<longrightarrow> i = j)
    \<and> (store_call rg name k = Inl (SqliteError SQLITE_BUSY) \<longleftrightarrow> (\<exists>i. holds_name rg name i))
    \<and> (delete_call rg name = Inl (SqliteError SQLITE_BUSY) \<longleftrightarrow> (\<exists>i. holds_name rg name i))
    \<and> ((\<forall>i ph. rg_clients rg i = Some (name, ph) \<longrightarrow> ph = Gone) \<longrightarrow>
        name \<notin> rg_active rg \<and> map_get (rg_closing rg) name = None)"
proof -
  note inv = rg_invD [OF reachable_inv [OF assms]]
  have "i = j" if u: "uses rg name i" "uses rg name j"
  proof -
    have cases: "holds_name rg name k \<and> (\<forall>l. \<not> is_closing rg name l) \<or> is_closing rg name k" if "uses rg name k" for k
      using that inv(5) by (auto simp: uses_def holds_name_def is_closing_def)
    have "is_closing rg name k \<and> is_closing rg name l \<Longrightarrow> k = l" for k l
      using inv(3) [of name k] inv(3) [of name l] by auto
    then show ?thesis using cases [OF u(1)] cases [OF u(2)] inv(2) by blast
  qed
  moreover have "store_call rg name k = Inl (SqliteError SQLITE_BUSY) \<longleftrightarrow> name \<in> rg_active rg"
    by (simp add: store_call_def)
  moreover have "delete_call rg name = Inl (SqliteError SQLITE_BUSY) \<longleftrightarrow> name \<in> rg_active rg"
    by (simp add: delete_call_def)
  moreover have "name \<notin> rg_active rg \<and> map_get (rg_closing rg) name = None"
    if gone: "\<forall>i ph. rg_clients rg i = Some (name, ph) \<longrightarrow> ph = Gone"
  proof -
    have "\<not> holds_name rg name i" "\<not> is_closing rg name i" for i
      using gone by (auto simp: holds_name_def is_closing_def)
    then show ?thesis using inv(1) [of name] inv(3) [of name] by (metis option.exhaust)
  qed
  ultimately show ?thesis using inv(1) [of name] by blast
qed

text \<open>A name is taken, stored, closed and taken again while the first one still writes.\<close>

definition ex_rg :: registry where
  "ex_rg = (case store_call (names_close (store_done (store_open
       (case store_call rg_empty ''n'' 0 of Inr rg \<Rightarrow> rg) ''n'' 0) ''n'' 0) ''n'' 0) ''n'' 1 of Inr rg \<Rightarrow> rg)"

lemma ex_rg_reachable: "rg_reachable ex_rg"
proof -
  define r1 where "r1 = (case store_call rg_empty ''n'' 0 of Inr rg \<Rightarrow> rg)"
  define r2 where "r2 = store_open r1 ''n'' 0"
  define r3 where "r3 = store_done r2 ''n'' 0"
  define r4 where "r4 = names_close r3 ''n'' 0"
  note defs = ex_rg_def r1_def r2_def r3_def r4_def rg_empty_def store_call_def store_open_def store_done_def
    names_close_def
  have "rg_step rg_empty r1" by (rule step_call [of _ 0 "''n''"]) (simp_all add: defs)
  moreover have "rg_step r1 r2"
    unfolding r2_def by (rule step_open [of _ _ _ None]) (simp_all add: defs resolved_def)
  moreover have "rg_step r2 r3" unfolding r3_def by (rule step_done) (simp add: defs)
  moreover have "rg_step r3 r4" unfolding r4_def by (rule step_close) (simp add: defs)
  moreover have "rg_step r4 ex_rg" by (rule step_call [of _ 1 "''n''"]) (simp_all add: defs)
  ultimately show ?thesis by (meson rtranclp.rtrancl_into_rtrancl rtranclp.rtrancl_refl)
qed

theorem names_exclusive_witness:
  "store_call ex_rg ''n'' 2 = Inl (SqliteError SQLITE_BUSY) \<and> uses ex_rg ''n'' 0 \<and> \<not> uses ex_rg ''n'' 1"
proof -
  have "holds_name ex_rg ''n'' 1" "uses ex_rg ''n'' 0"
    by (simp_all add: holds_name_def uses_def ex_rg_def rg_empty_def store_call_def store_open_def store_done_def
        names_close_def)
  then show ?thesis using names_exclusive [OF ex_rg_reachable, of "''n''" 0 1 2] by auto
qed

end
