(* ===== verification/Js_Files.thy ===== *)
theory Js_Files
  imports Read_Only_File
begin

text \<open>
  The class \<open>Files\<close> of opfs.ts, which answers the "js" VFS of SQLite with the files storages opened:
  names and ids of files, the handles SQLite has open on files that were added with a release callback,
  and the reads, writes and other calls from Wasm, where errors become result codes.
\<close>

section \<open>State\<close>

text \<open>A \<open>SyncFile\<close>: a state, and its methods, each of which may throw.\<close>

record 'f file_methods =
  fm_read :: "'f reader"
  fm_write :: "'f \<Rightarrow> bytes \<Rightarrow> nat \<Rightarrow> 'f \<times> nat result"
  fm_truncate :: "'f \<Rightarrow> nat \<Rightarrow> 'f \<times> unit result"
  fm_getSize :: "'f \<Rightarrow> nat result"
  fm_flush :: "'f \<Rightarrow> 'f \<times> unit result"

record handles =
  hd_name :: string
  hd_count :: int

text \<open>\<open>jf_released\<close> are the files whose \<open>release\<close> was called, by id, in the order of the calls.\<close>

record 'f js_files =
  jf_ids :: "(string \<times> nat) list"
  jf_files :: "'f option list"
  jf_handles :: "(nat \<times> handles) list"
  jf_released :: "nat list"

definition js_empty :: "'f js_files" where
  "js_empty = \<lparr>jf_ids = [], jf_files = [], jf_handles = [], jf_released = []\<rparr>"

section \<open>Names and handles\<close>

definition js_add :: "'f js_files \<Rightarrow> string \<Rightarrow> 'f \<Rightarrow> bool \<Rightarrow> 'f js_files" where
  "js_add st name f release =
     (let i = length (jf_files st);
          st = st\<lparr>jf_ids := map_set name i (jf_ids st), jf_files := jf_files st @ [Some f]\<rparr>
      in if release then st\<lparr>jf_handles := map_set i \<lparr>hd_name = name, hd_count = 0\<rparr> (jf_handles st)\<rparr> else st)"

definition js_openHandles :: "'f js_files \<Rightarrow> string \<Rightarrow> int" where
  "js_openHandles st name =
     (case map_get (jf_ids st) name of
        None \<Rightarrow> 0
      | Some i \<Rightarrow> (case map_get (jf_handles st) i of None \<Rightarrow> 0 | Some h \<Rightarrow> hd_count h))"

definition js_remove :: "'f js_files \<Rightarrow> string \<Rightarrow> 'f js_files" where
  "js_remove st name =
     (case map_get (jf_ids st) name of
        None \<Rightarrow> st
      | Some i \<Rightarrow>
          let st = st\<lparr>jf_ids := map_delete name (jf_ids st), jf_files := (jf_files st)[i := None]\<rparr>
          in (case map_get (jf_handles st) i of
                None \<Rightarrow> st
              | Some h \<Rightarrow> st\<lparr>jf_handles := map_delete i (jf_handles st), jf_released := jf_released st @ [i]\<rparr>))"

definition js_open :: "'f js_files \<Rightarrow> string \<Rightarrow> 'f js_files \<times> int" where
  "js_open st name =
     (case map_get (jf_ids st) name of
        None \<Rightarrow> (st, -1)
      | Some i \<Rightarrow>
          (case map_get (jf_handles st) i of
             None \<Rightarrow> (st, int i)
           | Some h \<Rightarrow> (st\<lparr>jf_handles := map_set i (h\<lparr>hd_count := hd_count h + 1\<rparr>) (jf_handles st)\<rparr>, int i)))"

definition js_close :: "'f js_files \<Rightarrow> nat \<Rightarrow> 'f js_files" where
  "js_close st i =
     (case map_get (jf_handles st) i of
        None \<Rightarrow> st
      | Some h \<Rightarrow>
          let st = st\<lparr>jf_handles := map_set i (h\<lparr>hd_count := hd_count h - 1\<rparr>) (jf_handles st)\<rparr>
          in if hd_count h - 1 = 0 then js_remove st (hd_name h) else st)"

section \<open>Calls from Wasm\<close>

definition file_of :: "'f js_files \<Rightarrow> nat \<Rightarrow> 'f option" where
  "file_of st i = (if i < length (jf_files st) then jf_files st ! i else None)"

definition put_file :: "'f js_files \<Rightarrow> nat \<Rightarrow> 'f \<Rightarrow> 'f js_files" where
  "put_file st i f = st\<lparr>jf_files := (jf_files st)[i := Some f]\<rparr>"

text \<open>
  \<open>use\<close>: no file, or an action that throws, is the code \<open>e\<close>. The action may leave the heap changed, also
  when it throws.
\<close>

definition js_use ::
  "'f js_files \<Rightarrow> bytes \<Rightarrow> nat \<Rightarrow> int \<Rightarrow> ('f \<Rightarrow> bytes \<Rightarrow> 'f \<times> bytes \<times> int result) \<Rightarrow> 'f js_files \<times> bytes \<times> int" where
  "js_use st heap i e action =
     (case file_of st i of
        None \<Rightarrow> (st, heap, e)
      | Some f \<Rightarrow>
          (case action f heap of
             (f', heap', Inl _) \<Rightarrow> (put_file st i f', heap', e)
           | (f', heap', Inr code) \<Rightarrow> (put_file st i f', heap', code)))"

text \<open>\<open>HEAPU8.subarray\<close> is a view, so what the file leaves in the target is in the heap.\<close>

definition js_read ::
  "'f file_methods \<Rightarrow> 'f js_files \<Rightarrow> bytes \<Rightarrow> nat \<Rightarrow> nat \<Rightarrow> nat \<Rightarrow> nat \<Rightarrow> 'f js_files \<times> bytes \<times> int" where
  "js_read fm st heap i ptr n ofs =
     js_use st heap i (int SQLITE_IOERR_READ) (\<lambda>f heap.
       case fm_read fm f (subarray heap ptr (ptr + n)) ofs of
         (f', target, Inl e) \<Rightarrow> (f', overwrite heap target ptr, Inl e)
       | (f', target, Inr k) \<Rightarrow>
           if n \<le> k then (f', overwrite heap target ptr, Inr 0)
           else (f', overwrite heap (u8_fill0 target k (length target)) ptr, Inr (int SQLITE_IOERR_SHORT_READ)))"

definition js_write ::
  "'f file_methods \<Rightarrow> 'f js_files \<Rightarrow> bytes \<Rightarrow> nat \<Rightarrow> nat \<Rightarrow> nat \<Rightarrow> nat \<Rightarrow> 'f js_files \<times> bytes \<times> int" where
  "js_write fm st heap i ptr n ofs =
     js_use st heap i (int SQLITE_IOERR_WRITE) (\<lambda>f heap.
       case fm_write fm f (subarray heap ptr (ptr + n)) ofs of
         (f', Inl e) \<Rightarrow> (f', heap, Inl e)
       | (f', Inr k) \<Rightarrow> (f', heap, Inr (if k = n then 0 else int SQLITE_IOERR_WRITE)))"

definition js_truncate :: "'f file_methods \<Rightarrow> 'f js_files \<Rightarrow> bytes \<Rightarrow> nat \<Rightarrow> nat \<Rightarrow> 'f js_files \<times> bytes \<times> int" where
  "js_truncate fm st heap i n =
     js_use st heap i (int SQLITE_IOERR_TRUNCATE) (\<lambda>f heap.
       case fm_truncate fm f n of
         (f', Inl e) \<Rightarrow> (f', heap, Inl e)
       | (f', Inr _) \<Rightarrow> (f', heap, Inr 0))"

definition js_sync :: "'f file_methods \<Rightarrow> 'f js_files \<Rightarrow> bytes \<Rightarrow> nat \<Rightarrow> 'f js_files \<times> bytes \<times> int" where
  "js_sync fm st heap i =
     js_use st heap i (int SQLITE_IOERR_FSYNC) (\<lambda>f heap.
       case fm_flush fm f of
         (f', Inl e) \<Rightarrow> (f', heap, Inl e)
       | (f', Inr _) \<Rightarrow> (f', heap, Inr 0))"

definition js_size :: "'f file_methods \<Rightarrow> 'f js_files \<Rightarrow> nat \<Rightarrow> int" where
  "js_size fm st i =
     (case js_use st [] i (-1) (\<lambda>f heap.
        case fm_getSize fm f of Inl e \<Rightarrow> (f, heap, Inl e) | Inr n \<Rightarrow> (f, heap, Inr (int n)))
      of (_, _, code) \<Rightarrow> code)"

definition js_exists :: "'f file_methods \<Rightarrow> 'f js_files \<Rightarrow> string \<Rightarrow> int" where
  "js_exists fm st name =
     (case map_get (jf_ids st) name of
        None \<Rightarrow> 0
      | Some i \<Rightarrow> if 0 < js_size fm st i then 1 else 0)"

section \<open>Files and handles over time\<close>

text \<open>
  What SQLite and the storages do with the names: a file is added under a name that is free, SQLite
  closes handles it has open, and a storage may remove a name at any time. The run keeps the files
  added with a release callback and the handles that SQLite has open.
\<close>

inductive js_run :: "nat set \<Rightarrow> nat list \<Rightarrow> 'f js_files \<Rightarrow> bool" where
  js_start: "js_run {} [] js_empty"
| js_run_add: "js_run tracked held st \<Longrightarrow> map_get (jf_ids st) name = None
    \<Longrightarrow> js_run (if release then insert (length (jf_files st)) tracked else tracked) held (js_add st name f release)"
| js_run_remove: "js_run tracked held st \<Longrightarrow> js_run tracked held (js_remove st name)"
| js_run_open: "js_run tracked held st \<Longrightarrow> js_open st name = (st', i) \<Longrightarrow> 0 \<le> i
    \<Longrightarrow> js_run tracked (nat i # held) st'"
| js_run_not_open: "js_run tracked held st \<Longrightarrow> js_open st name = (st', i) \<Longrightarrow> i < 0
    \<Longrightarrow> js_run tracked held st'"
| js_run_close: "js_run tracked held st \<Longrightarrow> i \<in> set held \<Longrightarrow> js_run tracked (remove1 i held) (js_close st i)"

text \<open>Names and ids belong together, and what is tracked is either there or released.\<close>

definition names_ok :: "'f js_files \<Rightarrow> bool" where
  "names_ok st \<longleftrightarrow>
     (\<forall>name i. map_get (jf_ids st) name = Some i \<longrightarrow> file_of st i \<noteq> None) \<and>
     (\<forall>a b i. map_get (jf_ids st) a = Some i \<longrightarrow> map_get (jf_ids st) b = Some i \<longrightarrow> a = b)"

definition handles_ok :: "nat list \<Rightarrow> 'f js_files \<Rightarrow> bool" where
  "handles_ok held st \<longleftrightarrow>
     (\<forall>i h. map_get (jf_handles st) i = Some h \<longrightarrow>
        map_get (jf_ids st) (hd_name h) = Some i \<and> hd_count h = int (count_list held i)) \<and>
     (\<forall>i \<in> set held. i < length (jf_files st))"

definition released_ok :: "nat set \<Rightarrow> 'f js_files \<Rightarrow> bool" where
  "released_ok tracked st \<longleftrightarrow>
     (\<forall>i. i \<in> tracked \<longleftrightarrow> map_get (jf_handles st) i \<noteq> None \<or> i \<in> set (jf_released st)) \<and>
     (\<forall>i \<in> set (jf_released st). i < length (jf_files st) \<and> file_of st i = None) \<and>
     distinct (jf_released st)"

definition js_inv :: "nat set \<Rightarrow> nat list \<Rightarrow> 'f js_files \<Rightarrow> bool" where
  "js_inv tracked held st \<longleftrightarrow> names_ok st \<and> handles_ok held st \<and> released_ok tracked st"

lemma file_of_length: "file_of st i \<noteq> None \<Longrightarrow> i < length (jf_files st)"
  by (simp add: file_of_def split: if_splits)

lemma names_okD:
  assumes "names_ok st" and "map_get (jf_ids st) name = Some i"
  shows "i < length (jf_files st)" and "file_of st i \<noteq> None"
proof -
  show "file_of st i \<noteq> None" using assms unfolding names_ok_def by blast
  then show "i < length (jf_files st)" by (rule file_of_length)
qed

lemma handles_update [simp]:
  "file_of (st\<lparr>jf_handles := x\<rparr>) = file_of st" "names_ok (st\<lparr>jf_handles := x\<rparr>) = names_ok st"
  by (simp_all add: file_of_def names_ok_def fun_eq_iff)

lemma js_inv_empty: "js_inv {} [] js_empty"
  by (simp add: js_inv_def names_ok_def handles_ok_def released_ok_def js_empty_def)

lemma js_add_fields:
  "map_get (jf_ids (js_add st name f r)) = (map_get (jf_ids st))(name \<mapsto> length (jf_files st))"
  "jf_files (js_add st name f r) = jf_files st @ [Some f]"
  "map_get (jf_handles (js_add st name f r)) =
     (if r then (map_get (jf_handles st))(length (jf_files st) \<mapsto> \<lparr>hd_name = name, hd_count = 0\<rparr>) else map_get (jf_handles st))"
  "jf_released (js_add st name f r) = jf_released st"
  by (simp_all add: js_add_def Let_def map_get_set)

lemma file_of_add: "file_of (js_add st name f r) i = (if i = length (jf_files st) then Some f else file_of st i)"
  by (simp add: file_of_def js_add_fields nth_append)

lemma inv_add:
  assumes "js_inv tracked held st" and "map_get (jf_ids st) name = None"
  shows "js_inv (if r then insert (length (jf_files st)) tracked else tracked) held (js_add st name f r)"
proof -
  let ?n = "length (jf_files st)"
  have names: "names_ok st" and handles: "handles_ok held st" and rel: "released_ok tracked st"
    using assms(1) by (simp_all add: js_inv_def)
  have id: "map_get (jf_ids st) a = Some i \<Longrightarrow> i < ?n" for a i
    using names_okD(1) [OF names] .
  have hd: "map_get (jf_handles st) i = Some h \<Longrightarrow> i < ?n \<and> hd_name h \<noteq> name" for i h
    using handles id assms(2) by (auto simp: handles_ok_def)
  have held: "count_list held ?n = 0"
    using handles by (auto simp: handles_ok_def count_list_0_iff)
  have "names_ok (js_add st name f r)"
    using names id unfolding names_ok_def js_add_fields file_of_add by (auto split: if_splits)
  moreover have "handles_ok held (js_add st name f r)"
    using handles hd held unfolding handles_ok_def js_add_fields by (auto split: if_splits)
  moreover have "released_ok (if r then insert ?n tracked else tracked) (js_add st name f r)"
    using rel unfolding released_ok_def js_add_fields file_of_add by (auto split: if_splits)
  ultimately show ?thesis by (simp add: js_inv_def)
qed

lemma js_remove_fields:
  assumes "map_get (jf_ids st) name = Some i"
  shows "map_get (jf_ids (js_remove st name)) = (map_get (jf_ids st))(name := None)"
    and "jf_files (js_remove st name) = (jf_files st)[i := None]"
    and "map_get (jf_handles (js_remove st name)) = (map_get (jf_handles st))(i := None)"
    and "jf_released (js_remove st name) =
      jf_released st @ (if map_get (jf_handles st) i = None then [] else [i])"
  using assms by (auto simp: js_remove_def Let_def map_get_delete fun_eq_iff split: option.splits)

lemma js_remove_none: "map_get (jf_ids st) name = None \<Longrightarrow> js_remove st name = st"
  by (simp add: js_remove_def)

lemma file_of_remove:
  "map_get (jf_ids st) name = Some i \<Longrightarrow> file_of (js_remove st name) j = (if j = i then None else file_of st j)"
  by (simp add: file_of_def js_remove_fields nth_list_update)

text \<open>For \<open>js_close\<close>, the counts may be off by one for the file that is removed.\<close>

lemma inv_remove:
  assumes "names_ok st" and "released_ok tracked st" and "map_get (jf_ids st) name = Some i"
    and "\<forall>j h. j \<noteq> i \<longrightarrow> map_get (jf_handles st) j = Some h \<longrightarrow>
      map_get (jf_ids st) (hd_name h) = Some j \<and> hd_count h = int (count_list held j)"
    and "\<forall>j \<in> set held. j < length (jf_files st)"
  shows "js_inv tracked held (js_remove st name)"
proof -
  have i: "i < length (jf_files st)" "file_of st i \<noteq> None"
    using names_okD [OF assms(1,3)] .
  have only: "map_get (jf_ids st) a = Some i \<Longrightarrow> a = name" for a
    using assms(1,3) by (auto simp: names_ok_def)
  have fresh: "i \<notin> set (jf_released st)" using assms(2) i(2) by (auto simp: released_ok_def)
  have "names_ok (js_remove st name)"
    using assms(1) only unfolding names_ok_def js_remove_fields(1) [OF assms(3)] file_of_remove [OF assms(3)]
    by (auto split: if_splits)
  moreover have "handles_ok held (js_remove st name)"
    using assms(3,4,5) unfolding handles_ok_def js_remove_fields(1-3) [OF assms(3)]
    by (auto split: if_splits)
  moreover have "released_ok tracked (js_remove st name)"
    using assms(2) fresh i unfolding released_ok_def js_remove_fields(2-4) [OF assms(3)] file_of_remove [OF assms(3)]
    by (auto split: if_splits)
  ultimately show ?thesis by (simp add: js_inv_def)
qed

lemma inv_remove_name: "js_inv tracked held st \<Longrightarrow> js_inv tracked held (js_remove st name)"
  using js_remove_none [of st name] inv_remove [of st tracked name _ held]
  by (cases "map_get (jf_ids st) name") (auto simp: js_inv_def handles_ok_def)

lemma inv_open:
  assumes "js_inv tracked held st" and "js_open st name = (st', i)"
  shows "if 0 \<le> i then js_inv tracked (nat i # held) st' else js_inv tracked held st'"
proof (cases "map_get (jf_ids st) name")
  case None
  then show ?thesis using assms by (simp add: js_open_def)
next
  case (Some k)
  have names: "names_ok st" and handles: "handles_ok held st" and rel: "released_ok tracked st"
    using assms(1) by (simp_all add: js_inv_def)
  have k: "k < length (jf_files st)" using names_okD(1) [OF names Some] .
  show ?thesis
  proof (cases "map_get (jf_handles st) k")
    case none: None
    then have "st' = st" "i = int k" using assms(2) Some by (simp_all add: js_open_def)
    then show ?thesis
      using names handles rel k none by (auto simp: js_inv_def handles_ok_def)
  next
    case h: (Some h)
    then have st': "st' = st\<lparr>jf_handles := map_set k (h\<lparr>hd_count := hd_count h + 1\<rparr>) (jf_handles st)\<rparr>" and i: "i = int k"
      using assms(2) Some by (simp_all add: js_open_def)
    have "names_ok st'" using names by (simp add: st')
    moreover have "handles_ok (k # held) st'"
      using handles h k by (auto simp: st' handles_ok_def map_get_set split: if_splits)
    moreover have "released_ok tracked st'"
      using rel h by (auto simp: st' released_ok_def map_get_set)
    ultimately show ?thesis by (simp add: js_inv_def i)
  qed
qed

lemma inv_close_handle:
  assumes "js_inv tracked held st" and "i \<in> set held"
  shows "js_inv tracked (remove1 i held) (js_close st i)"
proof (cases "map_get (jf_handles st) i")
  case None
  have sub: "\<forall>j \<in> set (remove1 i held). j < length (jf_files st)"
    using assms(1) set_remove1_subset [of i held] by (auto simp: js_inv_def handles_ok_def)
  have "count_list (remove1 i held) j = count_list held j" if "j \<noteq> i" for j
    using that by (induction held) auto
  then show ?thesis using assms None sub by (auto simp: js_close_def js_inv_def handles_ok_def)
next
  case (Some h)
  have names: "names_ok st" and handles: "handles_ok held st" and rel: "released_ok tracked st"
    using assms(1) by (simp_all add: js_inv_def)
  have name: "map_get (jf_ids st) (hd_name h) = Some i" and count: "hd_count h = int (count_list held i)"
    using handles Some by (simp_all add: handles_ok_def)
  let ?held = "remove1 i held"
  have sub: "\<forall>j \<in> set ?held. j < length (jf_files st)"
    using handles set_remove1_subset [of i held] by (auto simp: handles_ok_def)
  have other: "count_list ?held j = count_list held j" if "j \<noteq> i" for j
    using that by (induction held) auto
  have this_one: "Suc (count_list ?held i) = count_list held i"
    using assms(2) by (induction held) auto
  define st1 where "st1 = st\<lparr>jf_handles := map_set i (h\<lparr>hd_count := hd_count h - 1\<rparr>) (jf_handles st)\<rparr>"
  have names1: "names_ok st1" and rel1: "released_ok tracked st1"
    using names rel Some by (auto simp: st1_def released_ok_def map_get_set)
  have others: "\<forall>j h. j \<noteq> i \<longrightarrow> map_get (jf_handles st1) j = Some h \<longrightarrow>
      map_get (jf_ids st1) (hd_name h) = Some j \<and> hd_count h = int (count_list ?held j)"
    using handles other by (auto simp: st1_def handles_ok_def map_get_set)
  show ?thesis
  proof (cases "hd_count h - 1 = 0")
    case True
    then have "js_close st i = js_remove st1 (hd_name h)" using Some by (simp add: js_close_def st1_def Let_def)
    then show ?thesis
      using inv_remove [OF names1 rel1 _ others] name sub by (simp add: st1_def)
  next
    case False
    then have "js_close st i = st1" using Some by (simp add: js_close_def st1_def Let_def)
    moreover have "handles_ok ?held st1"
      using others sub name count this_one unfolding handles_ok_def by (auto simp: st1_def map_get_set)
    ultimately show ?thesis using names1 rel1 by (simp add: js_inv_def)
  qed
qed

lemma js_run_inv: "js_run tracked held st \<Longrightarrow> js_inv tracked held st"
proof (induction rule: js_run.induct)
  case js_start
  then show ?case by (rule js_inv_empty)
next
  case (js_run_add tracked held st name release f)
  then show ?case by (intro inv_add)
next
  case (js_run_open tracked held st name st' i)
  then show ?case using inv_open [OF js_run_open.IH js_run_open.hyps(2)] by simp
next
  case (js_run_not_open tracked held st name st' i)
  then show ?case using inv_open [OF js_run_not_open.IH js_run_not_open.hyps(2)] by simp
qed (auto intro: inv_remove_name inv_close_handle)

lemma close_last:
  assumes "js_inv tracked held st" and "i \<in> tracked" and "file_of st i \<noteq> None"
  shows "count_list held i = 1 \<Longrightarrow> i \<in> set (jf_released (js_close st i)) \<and> file_of (js_close st i) i = None"
    and "1 < count_list held i \<Longrightarrow> js_close st i =
      st\<lparr>jf_handles := jf_handles (js_close st i)\<rparr> \<and> jf_released (js_close st i) = jf_released st"
proof -
  have names: "names_ok st" and handles: "handles_ok held st" and rel: "released_ok tracked st"
    using assms(1) by (simp_all add: js_inv_def)
  have "i \<notin> set (jf_released st)" using rel assms(3) by (auto simp: released_ok_def)
  then obtain h where h: "map_get (jf_handles st) i = Some h" using rel assms(2) by (auto simp: released_ok_def)
  have name: "map_get (jf_ids st) (hd_name h) = Some i" and count: "hd_count h = int (count_list held i)"
    using handles h by (simp_all add: handles_ok_def)
  define st1 where "st1 = st\<lparr>jf_handles := map_set i (h\<lparr>hd_count := hd_count h - 1\<rparr>) (jf_handles st)\<rparr>"
  have id1: "map_get (jf_ids st1) (hd_name h) = Some i" and hd1: "map_get (jf_handles st1) i \<noteq> None"
    using name by (simp_all add: st1_def map_get_set)
  show "i \<in> set (jf_released (js_close st i)) \<and> file_of (js_close st i) i = None" if "count_list held i = 1"
  proof -
    have "js_close st i = js_remove st1 (hd_name h)"
      using h count that by (simp add: js_close_def st1_def Let_def)
    then show ?thesis using js_remove_fields(4) [OF id1] file_of_remove [OF id1] hd1 by simp
  qed
  show "js_close st i = st\<lparr>jf_handles := jf_handles (js_close st i)\<rparr> \<and> jf_released (js_close st i) = jf_released st"
    if "1 < count_list held i"
    using h count that by (simp add: js_close_def Let_def)
qed

lemma js_read_spec:
  assumes "sync_file (fm_read fm) ok content" and "\<And>f. file_of st i = Some f \<Longrightarrow> ok f"
    and "ptr + n \<le> length heap" and "js_read fm st heap i ptr n ofs = (st', heap', code)"
  defines "got \<equiv> map (\<lambda>q. if q < length content then content ! q else 0) [ofs..<ofs + n]"
  shows "length heap' = length heap \<and> (\<forall>q < length heap. q < ptr \<or> ptr + n \<le> q \<longrightarrow> heap' ! q = heap ! q)
    \<and> (code = 0 \<longrightarrow> heap' = overwrite heap got ptr \<and> (n = 0 \<or> ofs + n \<le> length content))
    \<and> (code = int SQLITE_IOERR_SHORT_READ \<longrightarrow> heap' = overwrite heap got ptr \<and> length content < ofs + n)
    \<and> code \<in> {0, int SQLITE_IOERR_SHORT_READ, int SQLITE_IOERR_READ}
    \<and> (code = int SQLITE_IOERR_READ \<longrightarrow> file_of st i = None \<or>
        (\<exists>f e. file_of st i = Some f \<and> snd (snd (fm_read fm f (subarray heap ptr (ptr + n)) ofs)) = Inl e))"
proof (cases "file_of st i")
  case None
  then show ?thesis using assms(4) by (auto simp: js_read_def js_use_def)
next
  case (Some f)
  let ?part = "subarray heap ptr (ptr + n)"
  obtain f' target r where read: "fm_read fm f ?part ofs = (f', target, r)" by (cases "fm_read fm f ?part ofs") auto
  have len: "length ?part = n" "length target = n"
    using sync_file.read_length [OF assms(1) assms(2) [OF Some] read] assms(3) by simp_all
  have outside: "length (overwrite heap d ptr) = length heap \<and>
      (\<forall>q < length heap. q < ptr \<or> ptr + n \<le> q \<longrightarrow> overwrite heap d ptr ! q = heap ! q)" if "length d = n" for d
    using that assms(3) by (auto simp: nth_overwrite)
  show ?thesis
  proof (cases r)
    case (Inl e)
    then have "heap' = overwrite heap target ptr" "code = int SQLITE_IOERR_READ"
      using assms(4) Some read by (simp_all add: js_read_def js_use_def)
    then show ?thesis using outside [OF len(2)] Some read Inl by auto
  next
    case (Inr k)
    have k: "k = min n (length content - ofs)" and target: "target = read_buffer content ?part ofs"
      using sync_file.read_Inr [OF assms(1) assms(2) [OF Some] read [unfolded Inr]] len(1)
      by (simp_all add: read_count_def)
    have got: "length got = n" by (simp add: got_def)
    show ?thesis
    proof (cases "n \<le> k")
      case True
      then have h: "heap' = overwrite heap target ptr" "code = 0"
        using assms(4) Some read Inr by (simp_all add: js_read_def js_use_def)
      have "target = got"
        using True k len by (intro nth_equalityI) (auto simp: target nth_read_buffer read_count_def got_def)
      then show ?thesis using outside [OF got] h True k by auto
    next
      case False
      then have h: "heap' = overwrite heap (u8_fill0 target k (length target)) ptr" "code = int SQLITE_IOERR_SHORT_READ"
        using assms(4) Some read Inr by (simp_all add: js_read_def js_use_def)
      have "u8_fill0 target k (length target) = got"
        using False k len by (intro nth_equalityI)
          (auto simp: target nth_u8_fill0 nth_read_buffer read_count_def got_def)
      then show ?thesis using outside [OF got] h False k by auto
    qed
  qed
qed

section \<open>Properties\<close>

text \<open>
  C28. Of the files that were added with a release callback, each is released at most once, and exactly
  when it is gone; a file that is there and that SQLite has open is gone and released when SQLite closes
  its last handle on it, and not when it closes an earlier one.
\<close>

theorem files_released_once:
  assumes "js_run tracked held st"
  shows "distinct (jf_released st)
    \<and> (\<forall>i. i \<in> set (jf_released st) \<longleftrightarrow> i \<in> tracked \<and> file_of st i = None)
    \<and> (\<forall>i \<in> tracked. file_of st i \<noteq> None \<longrightarrow>
         (count_list held i = 1 \<longrightarrow> i \<in> set (jf_released (js_close st i)) \<and> file_of (js_close st i) i = None) \<and>
         (1 < count_list held i \<longrightarrow> jf_released (js_close st i) = jf_released st \<and> file_of (js_close st i) = file_of st))"
proof -
  note inv = js_run_inv [OF assms]
  have rel: "released_ok tracked st" and names: "names_ok st" and handles: "handles_ok held st"
    using inv by (simp_all add: js_inv_def)
  have "file_of st i \<noteq> None" if "map_get (jf_handles st) i = Some h" for i h
    using names_okD(2) [OF names] handles that unfolding handles_ok_def by blast
  then have "i \<in> set (jf_released st) \<longleftrightarrow> i \<in> tracked \<and> file_of st i = None" for i
    using rel unfolding released_ok_def by (metis option.exhaust)
  moreover have "file_of (js_close st i) = file_of st \<and> jf_released (js_close st i) = jf_released st"
    if "i \<in> tracked" "file_of st i \<noteq> None" "1 < count_list held i" for i
    using close_last(2) [OF inv that] by (metis handles_update(1))
  ultimately show ?thesis
    using rel close_last(1) [OF inv] unfolding released_ok_def by simp
qed

definition ex_js :: "unit js_files" where
  "ex_js = fst (js_open (fst (js_open (js_add js_empty ''f'' () True) ''f'')) ''f'')"

lemma ex_js_run: "js_run {0} [0, 0] ex_js"
proof -
  have "js_run (if True then insert (length (jf_files (js_empty :: unit js_files))) {} else {}) [] (js_add js_empty ''f'' () True)"
    by (rule js_run_add [OF js_start]) (simp add: js_empty_def)
  then have r: "js_run {0} [] (js_add js_empty ''f'' () True)" by (simp add: js_empty_def)
  have "js_run {0} [nat 0] (fst (js_open (js_add js_empty ''f'' () True) ''f''))"
    by (rule js_run_open [OF r]) (simp_all add: js_open_def js_add_def js_empty_def Let_def)
  then have "js_run {0} (nat 0 # [nat 0]) ex_js"
    unfolding ex_js_def
    by (rule js_run_open) (simp_all add: js_open_def js_add_def js_empty_def Let_def)
  then show ?thesis by simp
qed

theorem files_released_once_witness:
  "jf_released (js_close ex_js 0) = [] \<and> file_of (js_close ex_js 0) 0 = Some ()"
proof -
  have f: "file_of ex_js 0 = Some ()" "jf_released ex_js = []"
    by (simp_all add: ex_js_def js_open_def js_add_def js_empty_def file_of_def Let_def)
  then show ?thesis using files_released_once [OF ex_js_run] by simp
qed

text \<open>
  C29. A read from Wasm of a file in order returns 0 if the file has all the bytes, which are then in the
  target; \<open>SQLITE_IOERR_SHORT_READ\<close> with zeros past the end if it has fewer; and \<open>SQLITE_IOERR_READ\<close>
  only if the file is gone or threw. The heap outside of the target stays as it was.
\<close>

theorem js_read_correct:
  assumes "sync_file (fm_read fm) ok content" and "\<And>f. file_of st i = Some f \<Longrightarrow> ok f"
    and "ptr + n \<le> length heap" and "js_read fm st heap i ptr n ofs = (st', heap', code)"
  defines "got \<equiv> map (\<lambda>q. if q < length content then content ! q else 0) [ofs..<ofs + n]"
  shows "length heap' = length heap \<and> (\<forall>q < length heap. q < ptr \<or> ptr + n \<le> q \<longrightarrow> heap' ! q = heap ! q)
    \<and> (code = 0 \<longrightarrow> heap' = overwrite heap got ptr \<and> (n = 0 \<or> ofs + n \<le> length content))
    \<and> (code = int SQLITE_IOERR_SHORT_READ \<longrightarrow> heap' = overwrite heap got ptr \<and> length content < ofs + n)
    \<and> code \<in> {0, int SQLITE_IOERR_SHORT_READ, int SQLITE_IOERR_READ}
    \<and> (code = int SQLITE_IOERR_READ \<longrightarrow> file_of st i = None \<or>
        (\<exists>f e. file_of st i = Some f \<and> snd (snd (fm_read fm f (subarray heap ptr (ptr + n)) ofs)) = Inl e))"
  using assms(1-4) unfolding got_def by (rule js_read_spec)

text \<open>A file of five bytes, read at 3 into the second to fifth byte of a heap.\<close>

definition ex_methods :: "ro_state file_methods" where
  "ex_methods = \<lparr>fm_read = ro_read (whole_reader [1, 2, 3, 4, 5]) 2 2 (Blob [1, 2, 3, 4, 5]),
     fm_write = (\<lambda>f buf ofs. (f, ro_write buf ofs)), fm_truncate = (\<lambda>f n. (f, ro_truncate n)), fm_getSize = (\<lambda>f. Inr 5),
     fm_flush = (\<lambda>f. (f, Inr ()))\<rparr>"

theorem js_read_correct_witness:
  "\<exists>st' heap' code. js_read ex_methods (js_add js_empty ''f'' (ro_init []) False) [9, 9, 9, 9, 9, 9] 0 1 4 3 = (st', heap', code)
     \<and> (code = int SQLITE_IOERR_SHORT_READ \<longrightarrow> heap' = [9, 4, 5, 0, 0, 9])"
proof -
  let ?b = "[1, 2, 3, 4, 5] :: bytes"
  obtain st' heap' code where r: "js_read ex_methods (js_add js_empty ''f'' (ro_init []) False) [9, 9, 9, 9, 9, 9] 0 1 4 3 = (st', heap', code)"
    by (cases "js_read ex_methods (js_add js_empty ''f'' (ro_init []) False) [9, 9, 9, 9, 9, 9] 0 1 4 3") auto
  have "sync_file (fm_read ex_methods) (ro_ok (whole_reader ?b) 2 2 (Blob ?b)) (source_bytes (Blob ?b))"
    using ro.sync_file_axioms [of "whole_reader ?b" 2 2 "Blob ?b"] by (simp add: ex_methods_def)
  moreover have "ro_ok (whole_reader ?b) 2 2 (Blob ?b) f" if "file_of (js_add js_empty ''f'' (ro_init []) False) 0 = Some f" for f
    using that by (auto simp: file_of_def js_add_def js_empty_def ro_ok_def reader_ok_whole ro_init_def cache_ok_def
        jm.all_values_def)
  ultimately show ?thesis
    using js_read_correct [OF _ _ _ r] r by (auto simp: overwrite_def upt_conv_Cons)
qed

end
