(* ===== verification/Node_File.thy ===== *)
theory Node_File
  imports Js_Files
begin

text \<open>
  \<open>readOnlyFileAt\<close> of file.ts: a file of the file system as a \<open>SyncFile\<close>. What \<open>fstatSync\<close> says at a
  read, and \<open>readSync\<close>, are parameters.
\<close>

record node_file =
  nf_size :: nat
  nf_mtimeMs :: rat
  nf_closed :: bool

definition readOnlyFileAt :: "nat \<times> rat \<Rightarrow> node_file" where
  "readOnlyFileAt stat = \<lparr>nf_size = fst stat, nf_mtimeMs = snd stat, nf_closed = False\<rparr>"

text \<open>
  The loop of \<open>read\<close>. \<open>readSync want pos\<close> is what that call reads at \<open>pos\<close>, at most \<open>want\<close> bytes.
\<close>

function node_loop ::
  "(nat \<Rightarrow> nat \<Rightarrow> bytes result) \<Rightarrow> nat \<Rightarrow> bytes \<Rightarrow> nat \<Rightarrow> nat \<Rightarrow> bytes \<times> nat result" where
  "node_loop readSync n buf ofs got =
     (if got < length buf \<and> ofs + got < n then
        (case readSync (length buf - got) (ofs + got) of
           Inl e \<Rightarrow> (buf, Inl e)
         | Inr d \<Rightarrow>
             let d = take (length buf - got) d
             in if length d = 0 then (buf, Inr got)
                else node_loop readSync n (overwrite buf d got) ofs (got + length d))
      else (buf, Inr got))"
  by pat_completeness auto

termination
  by (relation "measure (\<lambda>(readSync, n, buf, ofs, got). length buf - got)") (auto simp: overwrite_def min_def intro!: diff_less_mono2)

declare node_loop.simps [simp del]

definition node_read ::
  "nat \<times> rat \<Rightarrow> (nat \<Rightarrow> nat \<Rightarrow> bytes result) \<Rightarrow> node_file reader" where
  "node_read now readSync f buf ofs =
     (if nf_closed f then (f, buf, Inl (SqliteError SQLITE_IOERR_READ))
      else if fst now \<noteq> nf_size f \<or> snd now \<noteq> nf_mtimeMs f then (f, buf, Inl (SqliteError SQLITE_IOERR_READ))
      else (case node_loop readSync (nf_size f) buf ofs 0 of (buf', r) \<Rightarrow> (f, buf', r)))"

definition node_getSize :: "node_file \<Rightarrow> nat result" where
  "node_getSize f = Inr (nf_size f)"

definition node_write :: "node_file \<Rightarrow> bytes \<Rightarrow> nat \<Rightarrow> node_file \<times> nat result" where
  "node_write f buf ofs = (f, Inl (SqliteError SQLITE_READONLY))"

definition node_truncate :: "node_file \<Rightarrow> nat \<Rightarrow> node_file \<times> unit result" where
  "node_truncate f n = (f, Inl (SqliteError SQLITE_READONLY))"

definition node_flush :: "node_file \<Rightarrow> node_file \<times> unit result" where
  "node_flush f = (f, Inr ())"

text \<open>\<open>close\<close>, with whether it closes the descriptor.\<close>

definition node_close :: "node_file \<Rightarrow> node_file \<times> bool" where
  "node_close f = (if nf_closed f then (f, False) else (f\<lparr>nf_closed := True\<rparr>, True))"

definition node_methods :: "nat \<times> rat \<Rightarrow> (nat \<Rightarrow> nat \<Rightarrow> bytes result) \<Rightarrow> node_file file_methods" where
  "node_methods now readSync =
     \<lparr>fm_read = node_read now readSync, fm_write = node_write, fm_truncate = node_truncate,
      fm_getSize = node_getSize, fm_flush = node_flush\<rparr>"

section \<open>It is a file of its content\<close>

text \<open>
  What \<open>readSync\<close> does, of a file that holds \<open>content\<close>: it reads some bytes, none only at the end of the
  file, or throws.
\<close>

definition reads_content :: "(nat \<Rightarrow> nat \<Rightarrow> bytes result) \<Rightarrow> bytes \<Rightarrow> bool" where
  "reads_content readSync content \<longleftrightarrow>
     (\<forall>want pos d. readSync want pos = Inr d \<longrightarrow>
        (\<exists>k \<le> want. d = subarray content pos (pos + k) \<and> (0 < want \<and> pos < length content \<longrightarrow> 0 < k)))"

definition node_ok :: "(nat \<Rightarrow> nat \<Rightarrow> bytes result) \<Rightarrow> bytes \<Rightarrow> node_file \<Rightarrow> bool" where
  "node_ok readSync content f \<longleftrightarrow> reads_content readSync content \<and> nf_size f = length content"

lemma node_loop_length: "length (fst (node_loop readSync n buf ofs got)) = length buf"
proof (induction readSync n buf ofs got rule: node_loop.induct)
  case (1 readSync n buf ofs got)
  show ?case
  proof (cases "got < length buf \<and> ofs + got < n")
    case False
    then show ?thesis by (subst node_loop.simps) auto
  next
    case True
    show ?thesis
    proof (cases "readSync (length buf - got) (ofs + got)")
      case (Inl e)
      then show ?thesis using True by (subst node_loop.simps) simp
    next
      case (Inr d)
      then show ?thesis using True 1 [OF True Inr refl] by (subst node_loop.simps) (auto simp: Let_def overwrite_def)
    qed
  qed
qed

lemma node_loop_reads:
  assumes "reads_content readSync content" and "got = 0 \<or> ofs + got \<le> length content" and "got \<le> length buf"
    and "\<forall>i < got. buf ! i = content ! (ofs + i)"
    and "node_loop readSync (length content) buf ofs got = (buf', Inr r)"
  shows "r = read_count content buf ofs \<and> (\<forall>i < length buf. buf' ! i = (if i < r then content ! (ofs + i) else buf ! i))"
  using assms
proof (induction readSync "length content" buf ofs got rule: node_loop.induct)
  case (1 readSync buf ofs got)
  note loop = node_loop.simps [of readSync "length content" buf ofs got]
  show ?case
  proof (cases "got < length buf \<and> ofs + got < length content")
    case False
    then have "node_loop readSync (length content) buf ofs got = (buf, Inr got)" by (auto simp: loop)
    then have "buf' = buf" "r = got" using "1.prems"(5) by simp_all
    then show ?thesis using False "1.prems"(2,3,4) by (auto simp: read_count_def)
  next
    case True
    then obtain d where d: "readSync (length buf - got) (ofs + got) = Inr d"
      using "1.prems"(5) by (cases "readSync (length buf - got) (ofs + got)") (simp_all add: loop)
    obtain k where k: "k \<le> length buf - got" "d = subarray content (ofs + got) (ofs + got + k)" "0 < k"
    proof -
      obtain k where "k \<le> length buf - got" "d = subarray content (ofs + got) (ofs + got + k)"
        "0 < length buf - got \<and> ofs + got < length content \<longrightarrow> 0 < k"
        using "1.prems"(1) d unfolding reads_content_def by blast
      then show thesis using True by (intro that) simp_all
    qed
    have small: "take (length buf - got) d = d" "length d \<noteq> 0" "got + length d \<le> length buf"
      "ofs + got + length d \<le> length content"
      using k True by auto
    let ?buf = "overwrite buf d got"
    have step: "node_loop readSync (length content) ?buf ofs (got + length d) = (buf', Inr r)"
      using "1.prems"(5) True d small by (simp add: loop Let_def)
    have front: "\<forall>i < got + length d. ?buf ! i = content ! (ofs + i)"
    proof (intro allI impI)
      fix i assume i: "i < got + length d"
      show "?buf ! i = content ! (ofs + i)"
      proof (cases "i < got")
        case True
        then show ?thesis using "1.prems"(4) small(3) by (simp add: nth_overwrite)
      next
        case False
        then have "i - got < length d" using i by simp
        then have "d ! (i - got) = content ! (ofs + got + (i - got))"
          using nth_subarray [of "i - got" "ofs + got + k" content "ofs + got"] k(2) by simp
        then show ?thesis using False i small(3) by (simp add: nth_overwrite)
      qed
    qed
    have len: "length ?buf = length buf" using small by simp
    have "r = read_count content ?buf ofs \<and> (\<forall>i < length ?buf. buf' ! i = (if i < r then content ! (ofs + i) else ?buf ! i))"
    proof (rule "1.hyps" [OF True d refl, unfolded small(1), OF small(2) "1.prems"(1) _ _ front step])
      show "got + length d = 0 \<or> ofs + (got + length d) \<le> length content" using small(4) by simp
      show "got + length d \<le> length ?buf" using small(3) len by simp
    qed
    moreover have "?buf ! i = buf ! i" if "got + length d \<le> i" "i < length buf" for i
      using that small by (simp add: nth_overwrite)
    moreover have "got + length d \<le> read_count content buf ofs"
      using small by (simp add: read_count_def)
    ultimately show ?thesis by (auto simp: read_count_def len)
  qed
qed

interpretation nf: sync_file "node_read now readSync" "node_ok readSync content" content
proof
  fix f f' :: node_file and buf buf' ofs r
  assume ok: "node_ok readSync content f" and r: "node_read now readSync f buf ofs = (f', buf', r)"
  show "node_ok readSync content f'"
    using ok r by (auto simp: node_read_def split: if_splits prod.splits)
  show "length buf' = length buf"
    using r node_loop_length [of readSync "nf_size f" buf ofs 0]
    by (auto simp: node_read_def split: if_splits prod.splits)
next
  fix f f' :: node_file and buf buf' ofs n
  assume ok: "node_ok readSync content f" and r: "node_read now readSync f buf ofs = (f', buf', Inr n)"
  then have loop: "node_loop readSync (length content) buf ofs 0 = (buf', Inr n)" and c: "reads_content readSync content"
    by (auto simp: node_read_def node_ok_def split: if_splits prod.splits)
  have "length buf' = length buf" using node_loop_length [of readSync "length content" buf ofs 0] loop by simp
  then show "n = read_count content buf ofs \<and> buf' = read_buffer content buf ofs"
    using node_loop_reads [OF c _ _ _ loop] by (auto intro!: nth_equalityI simp: nth_read_buffer)
qed

section \<open>Properties\<close>

text \<open>
  C30. SQLite's reads of a file of the file system, in pieces of any size: code 0 with the bytes of the
  file as it was opened, a short read with zeros past its end, and \<open>SQLITE_IOERR_READ\<close> if it was closed,
  changed since, or could not be read.
\<close>

theorem node_file_reads:
  assumes "reads_content readSync content" and "file_of st i = Some f" and "nf_size f = length content"
    and "ptr + n \<le> length heap" and "js_read (node_methods now readSync) st heap i ptr n ofs = (st', heap', code)"
  defines "got \<equiv> map (\<lambda>q. if q < length content then content ! q else 0) [ofs..<ofs + n]"
  shows "(nf_closed f \<or> now \<noteq> (nf_size f, nf_mtimeMs f) \<longrightarrow> code = int SQLITE_IOERR_READ)
    \<and> (code \<noteq> int SQLITE_IOERR_READ \<longrightarrow> heap' = overwrite heap got ptr \<and>
        code = (if n = 0 \<or> ofs + n \<le> length content then 0 else int SQLITE_IOERR_SHORT_READ))"
proof -
  have "node_ok readSync content g" if "file_of st i = Some g" for g
    using that assms(1,2,3) by (simp add: node_ok_def)
  moreover have "sync_file (fm_read (node_methods now readSync)) (node_ok readSync content) content"
    using nf.sync_file_axioms [of now readSync content] by (simp add: node_methods_def)
  ultimately have spec: "(code = 0 \<longrightarrow> heap' = overwrite heap got ptr \<and> (n = 0 \<or> ofs + n \<le> length content))
    \<and> (code = int SQLITE_IOERR_SHORT_READ \<longrightarrow> heap' = overwrite heap got ptr \<and> length content < ofs + n)
    \<and> code \<in> {0, int SQLITE_IOERR_SHORT_READ, int SQLITE_IOERR_READ}"
    using js_read_spec [of "node_methods now readSync" "node_ok readSync content" content st i] assms(4,5)
    unfolding got_def by blast
  have "code \<noteq> int SQLITE_IOERR_SHORT_READ" if "n = 0"
    using assms(5) that by (auto simp: js_read_def js_use_def split: option.splits prod.splits sum.splits)
  moreover have "code = int SQLITE_IOERR_READ" if "nf_closed f \<or> now \<noteq> (nf_size f, nf_mtimeMs f)"
    using assms(2,5) that
    by (cases now) (auto simp: js_read_def js_use_def node_methods_def node_read_def split: if_splits)
  ultimately show ?thesis using spec by auto
qed

definition ex_readSync :: "nat \<Rightarrow> nat \<Rightarrow> bytes result" where
  "ex_readSync want pos = Inr (subarray [1, 2, 3, 4, 5] pos (pos + min want 2))"

theorem node_file_reads_witness:
  "\<exists>st' heap'. js_read (node_methods (5, 8) ex_readSync) (js_add js_empty ''f'' (readOnlyFileAt (5, 8)) False)
      [9, 9, 9, 9, 9, 9] 0 1 4 0 = (st', heap', 0) \<and> heap' = [9, 1, 2, 3, 4, 9]"
proof -
  let ?st = "js_add js_empty ''f'' (readOnlyFileAt (5, 8)) False"
  obtain st' heap' code where r: "js_read (node_methods (5, 8) ex_readSync) ?st [9, 9, 9, 9, 9, 9] 0 1 4 0 = (st', heap', code)"
    by (cases "js_read (node_methods (5, 8) ex_readSync) ?st [9, 9, 9, 9, 9, 9] 0 1 4 0") auto
  have "reads_content ex_readSync [1, 2, 3, 4, 5]"
    unfolding reads_content_def ex_readSync_def
    by (auto intro!: exI [of _ "min _ 2"])
  moreover have "file_of ?st 0 = Some (readOnlyFileAt (5, 8))"
    by (simp add: file_of_def js_add_def js_empty_def)
  moreover have "code \<noteq> int SQLITE_IOERR_READ"
    using r by (simp add: js_read_def js_use_def file_of_def js_add_def js_empty_def node_methods_def node_read_def
        readOnlyFileAt_def node_loop.simps ex_readSync_def subarray_def overwrite_def eval_nat_numeral Let_def)
  ultimately show ?thesis
    using node_file_reads [of ex_readSync "[1, 2, 3, 4, 5]" ?st 0 "readOnlyFileAt (5, 8)" 1 4 "[9, 9, 9, 9, 9, 9]" "(5, 8)" 0] r
    by (auto simp: readOnlyFileAt_def overwrite_def upt_conv_Cons)
qed

end
