(* ===== verification/File_Storage.thy ===== *)
theory File_Storage
  imports Node_File
begin

text \<open>
  \<open>FileStorage\<close> and \<open>FilePersistence\<close> of opfs.ts: taking a name, opening its two files and making them
  available to SQLite, and giving all of that back, once, when that fails or the database closes or
  detaches. Opening files, and the database's own operations, are parameters.
\<close>

section \<open>The names of files in the js VFS\<close>

text \<open>The digits of a number, as a template literal has them.\<close>

function digits :: "nat \<Rightarrow> string" where
  "digits n = (if n < 10 then [char_of (48 + n)] else digits (n div 10) @ [char_of (48 + n mod 10)])"
  by pat_completeness auto
termination by (relation "measure id") auto

declare digits.simps [simp del]

text \<open>The ids of file systems, by their identity, and the next one.\<close>

record key_state =
  ks_ids :: "(nat \<times> nat) list"
  ks_nextId :: nat

definition fileKey :: "key_state \<Rightarrow> nat \<Rightarrow> string \<Rightarrow> key_state \<times> string" where
  "fileKey st fileSystem name =
     (case map_get (ks_ids st) fileSystem of
        Some i \<Rightarrow> (st, digits i @ ''/'' @ name)
      | None \<Rightarrow>
          (st\<lparr>ks_ids := map_set fileSystem (ks_nextId st) (ks_ids st), ks_nextId := Suc (ks_nextId st)\<rparr>,
           digits (ks_nextId st) @ ''/'' @ name))"

lemma digit_char: "n < 10 \<Longrightarrow> (of_char (char_of (48 + n) :: char) :: nat) = 48 + n"
  by simp

lemma char_digit_inj: "m < 10 \<Longrightarrow> n < 10 \<Longrightarrow> (char_of (48 + m :: nat) :: char) = char_of (48 + n) \<Longrightarrow> m = n"
  using digit_char [of m] digit_char [of n] by (metis add_left_cancel)

lemma digits_slash: "c \<in> set (digits n) \<Longrightarrow> c \<noteq> CHR ''/''"
proof (induction n rule: digits.induct)
  case (1 n)
  have slash: "char_of (48 + m) \<noteq> CHR ''/''" if "m < 10" for m :: nat
  proof
    assume "char_of (48 + m) = CHR ''/''"
    then have "(of_char (char_of (48 + m) :: char) :: nat) = of_char (CHR ''/'')" by simp
    then show False using digit_char [OF that] by simp
  qed
  show ?case
  proof (cases "n < 10")
    case True
    then show ?thesis using "1.prems" slash by (subst (asm) digits.simps) auto
  next
    case False
    then have "c \<in> set (digits (n div 10)) \<or> c = char_of (48 + n mod 10)"
      using "1.prems" by (subst (asm) digits.simps) auto
    then show ?thesis using "1.IH" [OF False] slash [of "n mod 10"] by auto
  qed
qed

lemma digits_not_Nil: "digits n \<noteq> []"
  by (subst digits.simps) simp

lemma digits_inj: "digits m = digits n \<Longrightarrow> m = n"
proof (induction m arbitrary: n rule: digits.induct)
  case (1 m)
  show ?case
  proof (cases "m < 10")
    case True
    show ?thesis
    proof (cases "n < 10")
      case n: True
      then show ?thesis using "1.prems" True char_digit_inj by (simp add: digits.simps [of m] digits.simps [of n])
    next
      case False
      then show ?thesis
        using "1.prems" True digits_not_Nil [of "n div 10"] by (simp add: digits.simps [of m] digits.simps [of n])
    qed
  next
    case False
    show ?thesis
    proof (cases "n < 10")
      case True
      then show ?thesis
        using "1.prems" False digits_not_Nil [of "m div 10"] by (simp add: digits.simps [of m] digits.simps [of n])
    next
      case n: False
      then have "digits (m div 10) = digits (n div 10)" "(char_of (48 + m mod 10) :: char) = char_of (48 + n mod 10)"
        using "1.prems" False by (simp_all add: digits.simps [of m] digits.simps [of n])
      then have "m div 10 = n div 10" "m mod 10 = n mod 10"
        using "1.IH" [OF False] char_digit_inj [of "m mod 10" "n mod 10"] by auto
      then show ?thesis by (metis div_mult_mod_eq)
    qed
  qed
qed

lemma key_inj: "digits i @ ''/'' @ a = digits j @ ''/'' @ b \<Longrightarrow> i = j \<and> a = b"
proof -
  assume eq: "digits i @ ''/'' @ a = digits j @ ''/'' @ b"
  have id: "takeWhile (\<lambda>c. c \<noteq> CHR ''/'') (digits k @ ''/'' @ c) = digits k" for k c
    using digits_slash [of _ k] by (simp add: takeWhile_append2)
  have "digits i = digits j" using id [of i a] id [of j b] eq by simp
  then show ?thesis using eq digits_inj by auto
qed

section \<open>Storing a database in a file\<close>

text \<open>The names in use in a file system, the files SQLite can open, and the files that were closed.\<close>

record file_storage =
  fs_names :: "string set"
  fs_js :: "nat js_files"
  fs_closed :: "nat list"

definition fs_call :: "file_storage \<Rightarrow> string \<Rightarrow> file_storage result" where
  "fs_call st name =
     (if name \<in> fs_names st then Inl (SqliteError SQLITE_BUSY)
      else Inr (st\<lparr>fs_names := insert name (fs_names st)\<rparr>))"

text \<open>The loop that opens the files, of what opening each comes to: those opened, and the error.\<close>

primrec open_files :: "nat result list \<Rightarrow> nat list \<Rightarrow> nat list \<times> unit result" where
  "open_files [] opened = (opened, Inr ())"
| "open_files (r # rs) opened =
     (case r of Inl e \<Rightarrow> (opened, Inl e) | Inr f \<Rightarrow> open_files rs (opened @ [f]))"

text \<open>\<open>release\<close>: \<open>added\<close> if the files were made available to SQLite.\<close>

definition fs_release :: "string \<Rightarrow> (string \<times> nat) list \<Rightarrow> bool \<Rightarrow> file_storage \<Rightarrow> file_storage" where
  "fs_release name opened added st =
     (let st = fold (\<lambda>(key, f) st. st\<lparr>fs_js := (if added then js_remove (fs_js st) key else fs_js st),
                                        fs_closed := fs_closed st @ [f]\<rparr>) opened st
      in st\<lparr>fs_names := fs_names st - {name}\<rparr>)"

text \<open>
  \<open>store\<close> after it took the name: \<open>opens\<close> is what opening the file and its journal comes to, \<open>create\<close> if
  creating the database throws, and \<open>use\<close> if opening it on the files or attaching it does.
\<close>

definition fs_store ::
  "file_storage \<Rightarrow> string \<Rightarrow> string \<Rightarrow> nat result list \<Rightarrow> unit result \<Rightarrow> unit result \<Rightarrow> file_storage \<times> (string \<times> nat) list result" where
  "fs_store st name key opens create use =
     (let keys = [key, key @ ''-journal'']
      in case open_files opens [] of
           (opened, Inl e) \<Rightarrow> (fs_release name (zip keys opened) False st, Inl e)
         | (opened, Inr _) \<Rightarrow>
             (case create of
                Inl e \<Rightarrow> (fs_release name (zip keys opened) False st, Inl e)
              | Inr _ \<Rightarrow>
                  let files = zip keys opened;
                      st = st\<lparr>fs_js := fold (\<lambda>(key, f) js. js_add js key f False) files (fs_js st)\<rparr>
                  in (case use of
                        Inl e \<Rightarrow> (fs_release name files True st, Inl e)
                      | Inr _ \<Rightarrow> (st, Inr files))))"

definition fs_delete_call :: "file_storage \<Rightarrow> string \<Rightarrow> unit result" where
  "fs_delete_call st name = (if name \<in> fs_names st then Inl (SqliteError SQLITE_BUSY) else Inr ())"

section \<open>FilePersistence\<close>

text \<open>\<open>fp_releases\<close> counts the calls of \<open>release\<close>.\<close>

record file_persistence =
  fp_closed :: bool
  fp_error :: "js_error option"
  fp_releases :: nat

definition fp_new :: file_persistence where
  "fp_new = \<lparr>fp_closed = False, fp_error = None, fp_releases = 0\<rparr>"

definition fp_close :: "file_persistence \<Rightarrow> file_persistence" where
  "fp_close p = (if fp_closed p then p else p\<lparr>fp_closed := True, fp_releases := Suc (fp_releases p)\<rparr>)"

text \<open>\<open>storeFile\<close> and \<open>detachFile\<close> are what those of the database come to.\<close>

definition fp_flush :: "file_persistence \<Rightarrow> unit result \<Rightarrow> unit result" where
  "fp_flush p storeFile =
     (if \<not> fp_closed p then storeFile
      else (case fp_error p of Some e \<Rightarrow> Inl e | None \<Rightarrow> Inr ()))"

definition fp_detach :: "file_persistence \<Rightarrow> js_error option result \<Rightarrow> file_persistence \<times> unit result" where
  "fp_detach p detachFile =
     (if fp_closed p then (p, Inr ())
      else (case detachFile of
              Inl e \<Rightarrow> (p, Inl e)
            | Inr err \<Rightarrow> (fp_close (p\<lparr>fp_error := err\<rparr>), Inr ())))"

definition fp_closing :: "file_persistence \<Rightarrow> unit result \<Rightarrow> file_persistence" where
  "fp_closing p storeFile =
     (if fp_closed p then p
      else (case storeFile of Inl e \<Rightarrow> p\<lparr>fp_error := Some e\<rparr> | Inr _ \<Rightarrow> p))"

text \<open>\<open>Database.close\<close> calls \<open>closing\<close> before SQLite closes and \<open>close\<close> after it, whatever that does.\<close>

datatype fp_call = Fp_flush "unit result" | Fp_detach "js_error option result" | Fp_db_close "unit result"

definition fp_call :: "fp_call \<Rightarrow> file_persistence \<Rightarrow> file_persistence" where
  "fp_call c p =
     (case c of
        Fp_flush r \<Rightarrow> p
      | Fp_detach r \<Rightarrow> fst (fp_detach p r)
      | Fp_db_close r \<Rightarrow> fp_close (fp_closing p r))"

text \<open>What ends storing: closing, or a detach that does not throw.\<close>

definition fp_ends :: "fp_call \<Rightarrow> bool" where
  "fp_ends c = (case c of Fp_flush _ \<Rightarrow> False | Fp_detach r \<Rightarrow> (case r of Inl _ \<Rightarrow> False | Inr _ \<Rightarrow> True) | Fp_db_close _ \<Rightarrow> True)"

definition fp_last_error :: "fp_call \<Rightarrow> js_error option" where
  "fp_last_error c = (case c of Fp_flush _ \<Rightarrow> None
     | Fp_detach r \<Rightarrow> (case r of Inl _ \<Rightarrow> None | Inr e \<Rightarrow> e)
     | Fp_db_close r \<Rightarrow> (case r of Inl e \<Rightarrow> Some e | Inr _ \<Rightarrow> None))"

lemma fp_run:
  "fold fp_call calls fp_new =
     (case find fp_ends calls of
        None \<Rightarrow> fp_new
      | Some c \<Rightarrow> \<lparr>fp_closed = True, fp_error = fp_last_error c, fp_releases = 1\<rparr>)"
proof -
  have closed: "fold fp_call cs p = p" if "fp_closed p" for cs p
    using that by (induction cs) (auto simp: fp_call_def fp_detach_def fp_closing_def fp_close_def split: fp_call.split)
  have no_end: "fp_call c fp_new = fp_new" if "\<not> fp_ends c" for c
    using that by (auto simp: fp_call_def fp_ends_def fp_detach_def split: fp_call.splits sum.splits if_splits)
  have ends: "fp_call c fp_new = \<lparr>fp_closed = True, fp_error = fp_last_error c, fp_releases = 1\<rparr>" if "fp_ends c" for c
    using that by (auto simp: fp_call_def fp_ends_def fp_detach_def fp_closing_def fp_close_def fp_new_def fp_last_error_def
        split: fp_call.splits sum.splits)
  show ?thesis
    by (induction calls) (auto simp: no_end ends closed split: option.split)
qed

section \<open>Properties\<close>

lemma open_files_prefix: "open_files rs opened = (opened', r) \<Longrightarrow> length opened' \<le> length opened + length rs"
  by (induction rs arbitrary: opened) (fastforce split: sum.splits)+

lemma fs_release_closed:
  "fs_closed (fs_release name files added st) = fs_closed st @ map snd files"
  "fs_names (fs_release name files added st) = fs_names st - {name}"
proof -
  let ?step = "\<lambda>(key, f) st. st\<lparr>fs_js := (if added then js_remove (fs_js st) key else fs_js st), fs_closed := fs_closed st @ [f]\<rparr>"
  have "fs_closed (fold ?step files st) = fs_closed st @ map snd files \<and> fs_names (fold ?step files st) = fs_names st"
    by (induction files arbitrary: st) auto
  then show "fs_closed (fs_release name files added st) = fs_closed st @ map snd files"
    "fs_names (fs_release name files added st) = fs_names st - {name}"
    by (simp_all add: fs_release_def Let_def)
qed

lemma fs_release_js:
  "fs_js (fs_release name files True st) = fold (\<lambda>(key, f) js. js_remove js key) files (fs_js st)"
  "fs_js (fs_release name files False st) = fs_js st"
proof -
  have "fs_js (fold (\<lambda>(key, f) st. st\<lparr>fs_js := (if added then js_remove (fs_js st) key else fs_js st), fs_closed := fs_closed st @ [f]\<rparr>) files st)
    = (if added then fold (\<lambda>(key, f) js. js_remove js key) files (fs_js st) else fs_js st)" for added
    by (induction files arbitrary: st) auto
  from this [of True] this [of False] show "fs_js (fs_release name files True st) = fold (\<lambda>(key, f) js. js_remove js key) files (fs_js st)"
    "fs_js (fs_release name files False st) = fs_js st"
    by (simp_all add: fs_release_def Let_def)
qed

lemma ids_fold_remove:
  "map_get (jf_ids (fold (\<lambda>(key, f) js. js_remove js key) files js)) =
     (\<lambda>k. if k \<in> fst ` set files then None else map_get (jf_ids js) k)"
proof (induction files arbitrary: js)
  case Nil
  then show ?case by simp
next
  case (Cons kf files)
  obtain k f where kf: "kf = (k, f)" by (cases kf)
  have "map_get (jf_ids (js_remove js k)) = (map_get (jf_ids js))(k := None)"
    using js_remove_fields(1) [of js k] js_remove_none [of js k] by (cases "map_get (jf_ids js) k") auto
  then show ?case using Cons.IH by (auto simp: kf fun_eq_iff)
qed

lemma ids_fold_add:
  "k \<notin> fst ` set files \<Longrightarrow>
   map_get (jf_ids (fold (\<lambda>(key, f) js. js_add js key f False) files js)) k = map_get (jf_ids js) k"
  by (induction files arbitrary: js) (auto simp: js_add_fields)

lemma fst_zip_keys: "length ys \<le> length xs \<Longrightarrow> map fst (zip xs ys) = take (length ys) xs"
  by (simp add: map_fst_zip_take)

text \<open>
  C36. If storing a database in a file fails, whatever failed: each file that was opened is closed once,
  the name is free again, and SQLite finds the same files as before. If it succeeds, that is what the
  release does, which the persistence calls once, when the database closes or detaches, whichever is
  first; and from then on \<open>flush\<close> reports the error of the last write, if there was one.
\<close>

theorem file_storage_gives_back:
  assumes "fs_call st0 name = Inr st" and "length opens = 2"
    and "fs_store st name key opens create use = (st', r)"
    and "map_get (jf_ids (fs_js st)) key = None" and "map_get (jf_ids (fs_js st)) (key @ ''-journal'') = None"
  defines "opened \<equiv> fst (open_files opens [])"
  shows "(\<forall>e. r = Inl e \<longrightarrow> fs_names st' = fs_names st0 \<and> fs_closed st' = fs_closed st0 @ opened \<and>
        map_get (jf_ids (fs_js st')) = map_get (jf_ids (fs_js st0)))
    \<and> (\<forall>files st2. r = Inr files \<and> st2 = fs_release name files True st' \<longrightarrow>
        fs_names st' = insert name (fs_names st0) \<and> fs_names st2 = fs_names st0 \<and>
        fs_closed st' = fs_closed st0 \<and> fs_closed st2 = fs_closed st0 @ opened \<and>
        map_get (jf_ids (fs_js st2)) = map_get (jf_ids (fs_js st0)))
    \<and> fp_releases (fold fp_call calls fp_new) = (if list_ex fp_ends calls then 1 else 0)
    \<and> (\<forall>c. find fp_ends calls = Some c \<longrightarrow>
        fp_flush (fold fp_call calls fp_new) storeFile = (case fp_last_error c of Some e \<Rightarrow> Inl e | None \<Rightarrow> Inr ()))"
proof -
  have st: "st = st0\<lparr>fs_names := insert name (fs_names st0)\<rparr>" and free: "name \<notin> fs_names st0"
    using assms(1) by (auto simp: fs_call_def split: if_splits)
  obtain o2 ro where op: "open_files opens [] = (o2, ro)" by fastforce
  then have o2: "opened = o2" "length o2 \<le> 2" using open_files_prefix [OF op] assms(2) by (simp_all add: opened_def)
  let ?keys = "[key, key @ ''-journal'']"
  let ?files = "zip ?keys o2"
  have files: "map snd ?files = o2" using o2(2) by (simp add: map_snd_zip_take)
  have keys: "fst ` set ?files \<subseteq> {key, key @ ''-journal''}" by (auto dest: set_zip_leftD)
  define st1 where "st1 = st\<lparr>fs_js := fold (\<lambda>(key, f) js. js_add js key f False) ?files (fs_js st)\<rparr>"
  have same_ids: "map_get (jf_ids (fs_js (fs_release name ?files True st1))) = map_get (jf_ids (fs_js st0))"
  proof
    fix k
    show "map_get (jf_ids (fs_js (fs_release name ?files True st1))) k = map_get (jf_ids (fs_js st0)) k"
      using keys assms(4,5) ids_fold_add [of k ?files "fs_js st"]
      by (auto simp: fs_release_js ids_fold_remove st1_def st)
  qed
  have names: "insert name (fs_names st0) - {name} = fs_names st0" using free by auto
  have "(\<exists>e. (st', r) = (fs_release name ?files False st, Inl e)) \<or> (\<exists>e. (st', r) = (fs_release name ?files True st1, Inl e))
      \<or> (st', r) = (st1, Inr ?files)"
    using assms(3) by (auto simp: fs_store_def op Let_def st1_def split: sum.splits)
  then have "(\<forall>e. r = Inl e \<longrightarrow> fs_names st' = fs_names st0 \<and> fs_closed st' = fs_closed st0 @ opened \<and>
        map_get (jf_ids (fs_js st')) = map_get (jf_ids (fs_js st0)))
    \<and> (\<forall>files st2. r = Inr files \<and> st2 = fs_release name files True st' \<longrightarrow>
        fs_names st' = insert name (fs_names st0) \<and> fs_names st2 = fs_names st0 \<and>
        fs_closed st' = fs_closed st0 \<and> fs_closed st2 = fs_closed st0 @ opened \<and>
        map_get (jf_ids (fs_js st2)) = map_get (jf_ids (fs_js st0)))"
  proof (elim disjE exE)
    fix e assume "(st', r) = (fs_release name ?files False st, Inl e)"
    then show ?thesis by (simp add: fs_release_closed fs_release_js files o2 st names)
  next
    fix e assume "(st', r) = (fs_release name ?files True st1, Inl e)"
    then show ?thesis using same_ids by (simp add: fs_release_closed files o2) (simp add: st1_def st names)
  next
    assume "(st', r) = (st1, Inr ?files)"
    then show ?thesis using same_ids by (simp add: fs_release_closed files o2) (simp add: st1_def st names)
  qed
  moreover have "fp_releases (fold fp_call calls fp_new) = (if list_ex fp_ends calls then 1 else 0)"
    unfolding fp_run by (auto simp: fp_new_def find_None_iff list_ex_iff find_Some_iff split: option.split)
  moreover have "fp_flush (fold fp_call calls fp_new) storeFile = (case fp_last_error c of Some e \<Rightarrow> Inl e | None \<Rightarrow> Inr ())"
    if "find fp_ends calls = Some c" for c
    unfolding fp_run using that by (simp add: fp_flush_def)
  ultimately show ?thesis by blast
qed

definition ex_fs :: file_storage where
  "ex_fs = \<lparr>fs_names = {''other''}, fs_js = js_empty, fs_closed = []\<rparr>"

theorem file_storage_gives_back_witness:
  "\<exists>st st'. fs_call ex_fs ''a'' = Inr st
     \<and> fs_store st ''a'' ''0/a'' [Inr 1, Inr 2] (Inr ()) (Inl (SqliteError 26)) = (st', Inl (SqliteError 26))
     \<and> fs_closed st' = [1, 2] \<and> fs_names st' = {''other''}"
proof -
  obtain st where call: "fs_call ex_fs ''a'' = Inr st" by (simp add: fs_call_def ex_fs_def)
  then have st: "st = ex_fs\<lparr>fs_names := {''a'', ''other''}\<rparr>" by (simp add: fs_call_def ex_fs_def)
  obtain st' r where r: "fs_store st ''a'' ''0/a'' [Inr 1, Inr 2] (Inr ()) (Inl (SqliteError 26)) = (st', r)" by fastforce
  then have "r = Inl (SqliteError 26)" by (simp add: fs_store_def Let_def)
  moreover have "map_get (jf_ids (fs_js st)) k = None" for k by (simp add: st ex_fs_def js_empty_def)
  ultimately show ?thesis
    using file_storage_gives_back [OF call _ r, of "[]" "Inr ()"] r call by (simp add: ex_fs_def)
qed

end
