(* ===== verification/Text_Codec.thy ===== *)
theory Text_Codec
  imports Prelude
begin

text \<open>
  Text between JavaScript and the Wasm heap: \<open>bindString\<close> of Statement.ts writes the UTF-8 of a string,
  \<open>decodeText\<close> reads a string back, with a fast path for short ASCII. \<open>TextEncoder\<close> and \<open>TextDecoder\<close>
  are as the Encoding standard has them. A string is a list of code points; lone surrogates, which the
  encoder replaces, are left out.
\<close>

type_synonym code_point = nat
type_synonym js_string = "code_point list"

definition scalar :: "code_point \<Rightarrow> bool" where
  "scalar c \<longleftrightarrow> c < 0xD800 \<or> 0xDFFF < c \<and> c < 0x110000"

section \<open>TextEncoder and TextDecoder\<close>

definition encode_char :: "code_point \<Rightarrow> nat list" where
  "encode_char c =
     (if c < 0x80 then [c]
      else if c < 0x800 then [0xC0 + c div 64, 0x80 + c mod 64]
      else if c < 0x10000 then [0xE0 + c div 4096, 0x80 + c div 64 mod 64, 0x80 + c mod 64]
      else [0xF0 + c div 262144, 0x80 + c div 4096 mod 64, 0x80 + c div 64 mod 64, 0x80 + c mod 64])"

definition encode :: "js_string \<Rightarrow> bytes" where
  "encode s = map word_of_nat (concat (map encode_char s))"

text \<open>
  The state of the decoder: at the start of a character, or within one, with the bits so far, how many
  bytes are missing, and the range the next byte must be in.
\<close>

datatype decoder_state = Start | Need nat nat nat nat

abbreviation REPLACEMENT :: code_point where "REPLACEMENT \<equiv> 0xFFFD"

definition first_byte :: "nat \<Rightarrow> decoder_state \<times> js_string" where
  "first_byte b =
     (if b < 0x80 then (Start, [b])
      else if 0xC2 \<le> b \<and> b \<le> 0xDF then (Need (b - 0xC0) 1 0x80 0xBF, [])
      else if 0xE0 \<le> b \<and> b \<le> 0xEF then
        (Need (b - 0xE0) 2 (if b = 0xE0 then 0xA0 else 0x80) (if b = 0xED then 0x9F else 0xBF), [])
      else if 0xF0 \<le> b \<and> b \<le> 0xF4 then
        (Need (b - 0xF0) 3 (if b = 0xF0 then 0x90 else 0x80) (if b = 0xF4 then 0x8F else 0xBF), [])
      else (Start, [REPLACEMENT]))"

definition decoder_step :: "decoder_state \<Rightarrow> nat \<Rightarrow> decoder_state \<times> js_string" where
  "decoder_step st b =
     (case st of
        Start \<Rightarrow> first_byte b
      | Need c k low high \<Rightarrow>
          if b < low \<or> high < b then (case first_byte b of (st', out) \<Rightarrow> (st', REPLACEMENT # out))
          else if k = 1 then (Start, [64 * c + b mod 64])
          else (Need (64 * c + b mod 64) (k - 1) 0x80 0xBF, []))"

primrec decode_from :: "decoder_state \<Rightarrow> nat list \<Rightarrow> js_string" where
  "decode_from st [] = (if st = Start then [] else [REPLACEMENT])"
| "decode_from st (b # bs) = (case decoder_step st b of (st', out) \<Rightarrow> out @ decode_from st' bs)"

text \<open>A byte order mark at the front is dropped, as \<open>new TextDecoder()\<close> does without \<open>ignoreBOM\<close>.\<close>

definition BOM :: code_point where "BOM = 0xFEFF"

definition decode :: "bytes \<Rightarrow> js_string" where
  "decode bs =
     (case decode_from Start (map unat bs) of
        [] \<Rightarrow> []
      | c # s \<Rightarrow> if c = BOM then s else c # s)"

section \<open>Statement.ts\<close>

text \<open>\<open>bindString\<close>: the bytes and a zero at \<open>strPtr\<close>, which \<open>malloc\<close> returned.\<close>

definition bind_string :: "bytes \<Rightarrow> nat \<Rightarrow> js_string \<Rightarrow> bytes result" where
  "bind_string heap strPtr str =
     (let bs = encode str
      in and_then (u8_set heap bs strPtr) (\<lambda>heap. Inr (heap[strPtr + length bs := 0])))"

text \<open>The loop of \<open>decodeText\<close> over the bytes from \<open>i\<close>, with the text so far.\<close>

primrec decode_loop :: "bytes \<Rightarrow> bytes \<Rightarrow> js_string \<Rightarrow> js_string" where
  "decode_loop whole [] text = text"
| "decode_loop whole (b # bs) text =
     (if unat b > 0x7f then decode whole else decode_loop whole bs (text @ [unat b]))"

definition decodeText :: "bytes \<Rightarrow> nat \<Rightarrow> nat \<Rightarrow> js_string" where
  "decodeText heap ptr n =
     (let whole = subarray heap ptr (ptr + n)
      in if n > 32 then decode whole else decode_loop whole whole [])"

section \<open>Decoding what was encoded\<close>

lemma decode_3:
  assumes "x < 16" and "y < 64" and "z < 64" and "x = 0 \<Longrightarrow> 32 \<le> y" and "x = 13 \<Longrightarrow> y < 32"
  shows "decode_from Start ([0xE0 + x, 0x80 + y, 0x80 + z] @ bs) = (64 * (64 * x + y) + z) # decode_from Start bs"
proof -
  have "(0x80 + y) mod 64 = y" "(0x80 + z) mod 64 = z"
    using assms(2,3) mod_add_left_eq [of "0x80" 64 y] mod_add_left_eq [of "0x80" 64 z] by simp_all
  then show ?thesis using assms by (auto simp: decoder_step_def first_byte_def)
qed

lemma decode_4:
  assumes "w < 5" and "x < 64" and "y < 64" and "z < 64" and "w = 0 \<Longrightarrow> 16 \<le> x" and "w = 4 \<Longrightarrow> x < 16"
  shows "decode_from Start ([0xF0 + w, 0x80 + x, 0x80 + y, 0x80 + z] @ bs) =
    (64 * (64 * (64 * w + x) + y) + z) # decode_from Start bs"
proof -
  have "(0x80 + x) mod 64 = x" "(0x80 + y) mod 64 = y" "(0x80 + z) mod 64 = z"
    using assms(2,3,4) mod_add_left_eq [of "0x80" 64 x] mod_add_left_eq [of "0x80" 64 y]
      mod_add_left_eq [of "0x80" 64 z] by simp_all
  then show ?thesis using assms by (auto simp: decoder_step_def first_byte_def)
qed

lemma decode_encode_char:
  assumes "scalar c"
  shows "decode_from Start (encode_char c @ bs) = c # decode_from Start bs"
proof -
  consider "c < 0x80" | "0x80 \<le> c" "c < 0x800" | "0x800 \<le> c" "c < 0x10000" | "0x10000 \<le> c" by linarith
  then show ?thesis
  proof cases
    case 1
    then show ?thesis by (simp add: encode_char_def decoder_step_def first_byte_def)
  next
    case 2
    have "0xC2 \<le> 0xC0 + c div 64" "0xC0 + c div 64 \<le> 0xDF" using 2 by auto
    moreover have "(0x80 + c mod 64) mod 64 = c mod 64" by (simp add: mod_add_left_eq [symmetric])
    moreover have "c mod 64 < 64" by simp
    ultimately show ?thesis using 2
      by (simp add: encode_char_def decoder_step_def first_byte_def)
  next
    case 3
    let ?x = "c div 4096" and ?y = "c div 64 mod 64" and ?z = "c mod 64"
    have y: "?y + 64 * ?x = c div 64" by (simp add: div_mult2_eq [of c 64 64, simplified])
    have "64 * ?x + ?y = c div 64" using y by (simp only: add.commute)
    then have c_eq: "64 * (64 * ?x + ?y) + ?z = c" by simp
    have "?x = 0 \<Longrightarrow> 32 \<le> ?y" using y 3 by (simp add: less_eq_div_iff_mult_less_eq)
    moreover have "?y < 32" if "?x = 13"
    proof -
      have "c div 4096 < 14" using that by simp
      then have "c < 0xE000" by (simp add: div_less_iff_less_mult)
      then have "c < 0xD800" using assms by (simp add: scalar_def)
      then have "c div 64 < 864" by (simp add: div_less_iff_less_mult)
      then show ?thesis using y that by simp
    qed
    moreover have "?x < 16" using 3 by (simp add: div_less_iff_less_mult)
    ultimately show ?thesis using 3 c_eq decode_3 [of ?x ?y ?z bs] by (simp add: encode_char_def)
  next
    case 4
    let ?w = "c div 262144" and ?x = "c div 4096 mod 64" and ?y = "c div 64 mod 64" and ?z = "c mod 64"
    have x: "?x + 64 * ?w = c div 4096" by (simp add: div_mult2_eq [of c 4096 64, simplified])
    have y: "?y + 64 * (c div 4096) = c div 64" by (simp add: div_mult2_eq [of c 64 64, simplified])
    have "64 * ?w + ?x = c div 4096" "64 * (c div 4096) + ?y = c div 64"
      using x y by (simp_all only: add.commute)
    then have c_eq: "64 * (64 * (64 * ?w + ?x) + ?y) + ?z = c" by simp
    have c: "c < 0x110000" using assms 4 by (simp add: scalar_def)
    have "?w = 0 \<Longrightarrow> 16 \<le> ?x" using x 4 by (simp add: less_eq_div_iff_mult_less_eq)
    moreover have "?x < 16" if "?w = 4"
    proof -
      have "c div 4096 < 272" using c by (simp add: div_less_iff_less_mult)
      then show ?thesis using x that by simp
    qed
    moreover have "?w < 5" using c by (simp add: div_less_iff_less_mult)
    ultimately show ?thesis using 4 c_eq decode_4 [of ?w ?x ?y ?z bs] by (simp add: encode_char_def)
  qed
qed

lemma decode_from_encode:
  "\<forall>c \<in> set s. scalar c \<Longrightarrow> decode_from Start (concat (map encode_char s)) = s"
  by (induction s) (simp_all add: decode_encode_char)

lemma encode_char_bytes: "scalar c \<Longrightarrow> b \<in> set (encode_char c) \<Longrightarrow> b < 256"
proof -
  assume c: "scalar c" and b: "b \<in> set (encode_char c)"
  have "c div 64 < 32 \<or> 0x800 \<le> c" "c div 4096 < 16 \<or> 0x10000 \<le> c" "c div 262144 < 5"
    using c by (auto simp: scalar_def div_less_iff_less_mult not_le)
  moreover have "c mod 64 < 64" "c div 64 mod 64 < 64" "c div 4096 mod 64 < 64" by simp_all
  ultimately show "b < 256" using b by (auto simp: encode_char_def split: if_splits)
qed

lemma unat_encode:
  assumes "\<forall>c \<in> set s. scalar c"
  shows "map unat (encode s) = concat (map encode_char s)"
proof -
  have "unat (word_of_nat b :: byte) = b" if "b \<in> set (concat (map encode_char s))" for b
    using that assms encode_char_bytes by (auto simp: unsigned_of_nat take_bit_eq_mod)
  then show ?thesis unfolding encode_def map_map comp_def by (rule map_idI)
qed

lemma decode_encode:
  "\<forall>c \<in> set s. scalar c \<Longrightarrow> decode (encode s) = (case s of [] \<Rightarrow> [] | c # s' \<Rightarrow> if c = BOM then s' else s)"
  by (simp add: decode_def unat_encode decode_from_encode split: list.split)

lemma decode_ascii:
  assumes "\<forall>b \<in> set bs. unat b \<le> 0x7f"
  shows "decode bs = map unat bs"
proof -
  have "decode_from Start (map unat bs) = map unat bs"
    using assms by (induction bs) (auto simp: decoder_step_def first_byte_def)
  then show ?thesis using assms by (cases bs) (auto simp: decode_def BOM_def)
qed

lemma decode_loop_eq:
  "whole = front @ bs \<Longrightarrow> \<forall>b \<in> set front. unat b \<le> 0x7f \<Longrightarrow> acc = map unat front
    \<Longrightarrow> decode_loop whole bs acc = decode whole"
proof (induction bs arbitrary: front acc)
  case Nil
  then show ?case by (simp add: decode_ascii)
next
  case (Cons b bs)
  show ?case
  proof (cases "unat b > 0x7f")
    case False
    have "decode_loop whole bs (acc @ [unat b]) = decode whole"
      by (rule Cons.IH [of "front @ [b]"]) (use Cons.prems False in \<open>auto\<close>)
    then show ?thesis using False by simp
  qed simp
qed

lemma decode_text: "decodeText h p n = decode (subarray h p (p + n))"
  using decode_loop_eq [of "subarray h p (p + n)" "[]" "subarray h p (p + n)" "[]"]
  by (simp add: decodeText_def Let_def)

lemma bind_string_block:
  assumes "bind_string heap ptr s = Inr heap'" and "ptr + length (encode s) < length heap"
  shows "subarray heap' ptr (ptr + length (encode s)) = encode s" and "heap' ! (ptr + length (encode s)) = 0"
    and "length heap' = length heap"
proof -
  have heap': "heap' = (overwrite heap (encode s) ptr)[ptr + length (encode s) := 0]"
    using assms by (auto simp: bind_string_def Let_def)
  then show "heap' ! (ptr + length (encode s)) = 0" "length heap' = length heap" using assms(2) by simp_all
  show "subarray heap' ptr (ptr + length (encode s)) = encode s"
    using assms(2) by (intro nth_equalityI) (auto simp: heap' nth_subarray nth_overwrite)
qed

section \<open>Properties\<close>



end
