(* ===== verification/Statements.thy ===== *)
theory Statements
  imports Text_Codec Js_Number
begin

text \<open>
  The class \<open>Statement\<close> of Statement.ts: binding values, whose text and bytes it keeps in memory of the
  Wasm heap for as long as SQLite may read them, stepping, column names and their cache, and freeing.

  SQLite and the heap are parameters with the behaviour the code relies on: \<open>malloc\<close> gives a block that is
  not in use, a bind call with the destructor 0 (\<open>SQLITE_STATIC\<close>) keeps the pointer, \<open>step\<close> after a row
  continues the execution and otherwise starts another one, which may have other columns.
\<close>

section \<open>Values and state\<close>

text \<open>
  \<open>Other_object\<close> is an object without a \<open>length\<close>, \<open>Other\<close> is \<open>undefined\<close> and what else \<open>typeof\<close> may say.
\<close>

datatype js_value =
    VString js_string
  | VNumber js_double
  | VBoolean bool
  | VNull
  | VArray bytes
  | Other_object
  | Other

datatype binding = BText nat nat | BBlob nat nat | BInt int | BDouble js_double

text \<open>
  A statement, what SQLite has of it (if it is at a row, in which execution, what is bound), the blocks of
  the heap that are in use, and if one was freed that was not.
\<close>

record statement =
  sm_stmt :: nat
  sm_pos :: nat
  sm_allocatedmem :: "nat list"
  sm_columnNames :: "string list option"
  sm_row :: bool
  sm_exec :: nat
  sm_bound :: "(nat \<times> binding) list"
  sm_alive :: "nat set"
  sm_bad_free :: bool

definition new_statement :: "nat \<Rightarrow> nat set \<Rightarrow> statement" where
  "new_statement stmt alive =
     \<lparr>sm_stmt = stmt, sm_pos = 1, sm_allocatedmem = [], sm_columnNames = None, sm_row = False, sm_exec = 0,
      sm_bound = [], sm_alive = alive, sm_bad_free = False\<rparr>"

section \<open>The heap\<close>

definition heap_free :: "nat \<Rightarrow> statement \<Rightarrow> statement" where
  "heap_free p s = s\<lparr>sm_alive := sm_alive s - {p}, sm_bad_free := (sm_bad_free s \<or> p \<notin> sm_alive s)\<rparr>"

text \<open>
  \<open>freemem\<close>: the loop pops from the end until \<open>pop\<close> gives \<open>undefined\<close> or 0; here over the reversed
  array.
\<close>

primrec freemem_loop :: "nat list \<Rightarrow> statement \<Rightarrow> statement" where
  "freemem_loop [] s = s\<lparr>sm_allocatedmem := []\<rparr>"
| "freemem_loop (m # ms) s =
     (if m = 0 then s\<lparr>sm_allocatedmem := rev ms\<rparr> else freemem_loop ms (heap_free m s))"

definition freemem :: "statement \<Rightarrow> statement" where
  "freemem s = freemem_loop (rev (sm_allocatedmem s)) s"

section \<open>Binding\<close>

text \<open>
  A bind call: \<open>code pos\<close> is what SQLite answers for the position, which it only binds if that is 0.
\<close>

definition sqlite_bind :: "(nat \<Rightarrow> nat) \<Rightarrow> nat \<Rightarrow> binding \<Rightarrow> statement \<Rightarrow> statement \<times> unit result" where
  "sqlite_bind code pos b s =
     (if code pos = 0 then (s\<lparr>sm_bound := map_set pos b (sm_bound s)\<rparr>, Inr ())
      else (s, Inl (SqliteError (code pos))))"

definition bindString :: "(nat set \<Rightarrow> nat \<Rightarrow> nat) \<Rightarrow> (nat \<Rightarrow> nat) \<Rightarrow> js_string \<Rightarrow> nat \<Rightarrow> statement \<Rightarrow> statement \<times> unit result" where
  "bindString malloc code str pos s =
     (let bs = encode str;
          strPtr = malloc (sm_alive s) (length bs + 1);
          s = s\<lparr>sm_alive := insert strPtr (sm_alive s), sm_allocatedmem := sm_allocatedmem s @ [strPtr]\<rparr>
      in sqlite_bind code pos (BText strPtr (length bs)) s)"

definition bindBlob :: "(nat set \<Rightarrow> nat \<Rightarrow> nat) \<Rightarrow> (nat \<Rightarrow> nat) \<Rightarrow> bytes \<Rightarrow> nat \<Rightarrow> statement \<Rightarrow> statement \<times> unit result" where
  "bindBlob malloc code arr pos s =
     (let blobPtr = malloc (sm_alive s) (length arr);
          s = s\<lparr>sm_alive := insert blobPtr (sm_alive s), sm_allocatedmem := sm_allocatedmem s @ [blobPtr]\<rparr>
      in sqlite_bind code pos (BBlob blobPtr (length arr)) s)"

definition bindNumber :: "(nat \<Rightarrow> nat) \<Rightarrow> js_double \<Rightarrow> nat \<Rightarrow> statement \<Rightarrow> statement \<times> unit result" where
  "bindNumber code num pos s =
     sqlite_bind code pos (if equals_int num (or_0 num) then BInt (or_0 num) else BDouble num) s"

definition bindNull :: "(nat \<Rightarrow> nat) \<Rightarrow> nat \<Rightarrow> statement \<Rightarrow> statement \<times> unit result" where
  "bindNull code pos s = sqlite_bind code pos (BBlob 0 0) s"

definition unknown_type :: js_error where
  "unknown_type = JsError ''Wrong API use : tried to bind a value of an unknown type''"

definition bindValue :: "(nat set \<Rightarrow> nat \<Rightarrow> nat) \<Rightarrow> (nat \<Rightarrow> nat) \<Rightarrow> js_value \<Rightarrow> nat \<Rightarrow> statement \<Rightarrow> statement \<times> unit result" where
  "bindValue malloc code val pos s =
     (case val of
        VString str \<Rightarrow> bindString malloc code str pos s
      | VNumber n \<Rightarrow> bindNumber code (plus_0 n) pos s
      | VBoolean b \<Rightarrow> bindNumber code (Finite (if b then 1 else 0)) pos s
      | VNull \<Rightarrow> bindNull code pos s
      | VArray a \<Rightarrow> bindBlob malloc code a pos s
      | Other_object \<Rightarrow> (s, Inl unknown_type)
      | Other \<Rightarrow> (s, Inl unknown_type))"

text \<open>\<open>bindFromArray\<close> and \<open>bindFromObject\<close>; \<open>index\<close> is \<open>sqlite3_bind_parameter_index\<close>.\<close>

primrec bindFromArray ::
  "(nat set \<Rightarrow> nat \<Rightarrow> nat) \<Rightarrow> (nat \<Rightarrow> nat) \<Rightarrow> nat \<Rightarrow> js_value list \<Rightarrow> statement \<Rightarrow> statement \<times> unit result" where
  "bindFromArray malloc code i [] s = (s, Inr ())"
| "bindFromArray malloc code i (v # vs) s =
     (case bindValue malloc code v (i + 1) s of
        (s', Inl e) \<Rightarrow> (s', Inl e)
      | (s', Inr _) \<Rightarrow> bindFromArray malloc code (i + 1) vs s')"

primrec bindFromObject ::
  "(nat set \<Rightarrow> nat \<Rightarrow> nat) \<Rightarrow> (nat \<Rightarrow> nat) \<Rightarrow> (string \<Rightarrow> nat) \<Rightarrow> (string \<times> js_value) list \<Rightarrow> statement
   \<Rightarrow> statement \<times> unit result" where
  "bindFromObject malloc code index [] s = (s, Inr ())"
| "bindFromObject malloc code index (nv # nvs) s =
     (if index (fst nv) \<noteq> 0
      then (case bindValue malloc code (snd nv) (index (fst nv)) s of
              (s', Inl e) \<Rightarrow> (s', Inl e)
            | (s', Inr _) \<Rightarrow> bindFromObject malloc code index nvs s')
      else bindFromObject malloc code index nvs s)"

section \<open>Executing\<close>

text \<open>\<open>reset\<close>: SQLite forgets what was bound and is at no row.\<close>

definition sm_reset :: "statement \<Rightarrow> statement" where
  "sm_reset s =
     (let s = freemem (s\<lparr>sm_columnNames := None\<rparr>)
      in s\<lparr>sm_bound := [], sm_row := False\<rparr>)"

datatype params = Params_array "js_value list" | Params_object "(string \<times> js_value) list" | No_params

definition sm_bind ::
  "(nat set \<Rightarrow> nat \<Rightarrow> nat) \<Rightarrow> (nat \<Rightarrow> nat) \<Rightarrow> (string \<Rightarrow> nat) \<Rightarrow> params \<Rightarrow> statement \<Rightarrow> statement \<times> unit result" where
  "sm_bind malloc code index values s =
     (if sm_stmt s = 0 then (s, Inl (JsError ''Statement closed''))
      else (let s = sm_reset s
            in case values of
                 Params_array vs \<Rightarrow> bindFromArray malloc code 0 vs s
               | Params_object nvs \<Rightarrow> bindFromObject malloc code index nvs s
               | No_params \<Rightarrow> (s, Inr ())))"

datatype step_code = ROW | DONE | Step_error nat

text \<open>\<open>sqlite3_step\<close> that comes to \<open>ret\<close>: not at a row, it starts another execution.\<close>

definition sqlite_step :: "step_code \<Rightarrow> statement \<Rightarrow> statement" where
  "sqlite_step ret s =
     s\<lparr>sm_exec := (if sm_row s then sm_exec s else Suc (sm_exec s)), sm_row := (ret = ROW)\<rparr>"

definition sm_step :: "step_code \<Rightarrow> statement \<Rightarrow> statement \<times> bool result" where
  "sm_step ret s =
     (if sm_stmt s = 0 then (s, Inl (JsError ''Statement closed''))
      else (let s = sqlite_step ret (s\<lparr>sm_pos := 1\<rparr>)
            in case ret of
                 ROW \<Rightarrow> (s, Inr True)
               | DONE \<Rightarrow> (s\<lparr>sm_columnNames := None\<rparr>, Inr False)
               | Step_error e \<Rightarrow> (s, Inl (SqliteError e))))"

text \<open>\<open>columns n\<close> are the names of the columns in the \<open>n\<close>-th execution; there are none without a row.\<close>

definition getColumnNames :: "(nat \<Rightarrow> string list) \<Rightarrow> statement \<Rightarrow> string list" where
  "getColumnNames columns s = (if sm_row s then columns (sm_exec s) else [])"

definition cachedColumnNames :: "(nat \<Rightarrow> string list) \<Rightarrow> statement \<Rightarrow> statement \<times> string list" where
  "cachedColumnNames columns s =
     (case sm_columnNames s of
        Some names \<Rightarrow> (s, names)
      | None \<Rightarrow>
          let names = getColumnNames columns s
          in (if names \<noteq> [] then s\<lparr>sm_columnNames := Some names\<rparr> else s, names))"

definition sm_run ::
  "(nat set \<Rightarrow> nat \<Rightarrow> nat) \<Rightarrow> (nat \<Rightarrow> nat) \<Rightarrow> (string \<Rightarrow> nat) \<Rightarrow> params option \<Rightarrow> step_code \<Rightarrow> statement
   \<Rightarrow> statement \<times> unit result" where
  "sm_run malloc code index values ret s =
     (case (case values of None \<Rightarrow> (s, Inr ()) | Some v \<Rightarrow> sm_bind malloc code index v s) of
        (s, Inl e) \<Rightarrow> (s, Inl e)
      | (s, Inr _) \<Rightarrow>
          (case sm_step ret s of
             (s, Inl e) \<Rightarrow> (s, Inl e)
           | (s, Inr _) \<Rightarrow> (sm_reset s, Inr ())))"

text \<open>\<open>free\<close>: \<open>sqlite3_finalize\<close> ends the statement, and its pointer becomes NULL.\<close>

definition sm_free :: "statement \<Rightarrow> statement" where
  "sm_free s = (freemem s)\<lparr>sm_bound := [], sm_row := False, sm_stmt := 0\<rparr>"

section \<open>What a column holds\<close>

datatype column_value = CNumber js_double | CText js_string | CBlob bytes | CNull

text \<open>\<open>column\<close>, of the type, the number, and the pointer and size that SQLite gives for it.\<close>

definition column :: "bytes \<Rightarrow> nat \<Rightarrow> js_double \<Rightarrow> nat \<Rightarrow> nat \<Rightarrow> column_value" where
  "column heap type num ptr n =
     (if type = 1 \<or> type = 2 then CNumber num
      else if type = 3 then CText (decodeText heap ptr n)
      else if type = 4 then CBlob (subarray heap ptr (ptr + n))
      else CNull)"

text \<open>
  \<open>getAsObject\<close> over the current row: the loop over the cached names, where a later column of the same
  name replaces an earlier one.
\<close>

definition getAsObject :: "(nat \<Rightarrow> string list) \<Rightarrow> (nat \<Rightarrow> column_value) \<Rightarrow> statement \<Rightarrow> statement \<times> (string \<times> column_value) list" where
  "getAsObject columns cell s =
     (case cachedColumnNames columns s of
        (s, names) \<Rightarrow> (s, fold (\<lambda>col row. map_set (names ! col) (cell col) row) [0..<length names] []))"

text \<open>
  \<open>stepWith\<close>, and \<open>get\<close>, whose row has the columns of the row the statement is at: \<open>count\<close> is
  \<open>sqlite3_data_count\<close>.
\<close>

definition stepWith ::
  "(nat set \<Rightarrow> nat \<Rightarrow> nat) \<Rightarrow> (nat \<Rightarrow> nat) \<Rightarrow> (string \<Rightarrow> nat) \<Rightarrow> params option \<Rightarrow> step_code \<Rightarrow> statement
   \<Rightarrow> statement \<times> unit result" where
  "stepWith malloc code index values ret s =
     (case values of
        None \<Rightarrow> (s, Inr ())
      | Some v \<Rightarrow>
          (case sm_bind malloc code index v s of
             (s, Inl e) \<Rightarrow> (s, Inl e)
           | (s, Inr _) \<Rightarrow>
               (case sm_step ret s of
                  (s, Inl e) \<Rightarrow> (s, Inl e)
                | (s, Inr _) \<Rightarrow> (s, Inr ()))))"

definition sm_get ::
  "(nat set \<Rightarrow> nat \<Rightarrow> nat) \<Rightarrow> (nat \<Rightarrow> nat) \<Rightarrow> (string \<Rightarrow> nat) \<Rightarrow> params option \<Rightarrow> step_code \<Rightarrow> (statement \<Rightarrow> nat)
   \<Rightarrow> (nat \<Rightarrow> column_value) \<Rightarrow> statement \<Rightarrow> statement \<times> column_value list result" where
  "sm_get malloc code index values ret count cell s =
     (case stepWith malloc code index values ret s of
        (s, Inl e) \<Rightarrow> (s, Inl e)
      | (s, Inr _) \<Rightarrow> (s, Inr (map cell [0..<count s])))"

section \<open>Calls of a statement\<close>

datatype sm_call =
    Call_bind "nat \<Rightarrow> nat" "string \<Rightarrow> nat" params
  | Call_step step_code
  | Call_names
  | Call_run "nat \<Rightarrow> nat" "string \<Rightarrow> nat" "params option" step_code
  | Call_get "nat \<Rightarrow> nat" "string \<Rightarrow> nat" "params option" step_code
  | Call_reset
  | Call_free

definition do_call :: "(nat set \<Rightarrow> nat \<Rightarrow> nat) \<Rightarrow> (nat \<Rightarrow> string list) \<Rightarrow> sm_call \<Rightarrow> statement \<Rightarrow> statement" where
  "do_call malloc columns c s =
     (case c of
        Call_bind code index values \<Rightarrow> fst (sm_bind malloc code index values s)
      | Call_step ret \<Rightarrow> fst (sm_step ret s)
      | Call_names \<Rightarrow> fst (cachedColumnNames columns s)
      | Call_run code index values ret \<Rightarrow> fst (sm_run malloc code index values ret s)
      | Call_get code index values ret \<Rightarrow> fst (stepWith malloc code index values ret s)
      | Call_reset \<Rightarrow> sm_reset s
      | Call_free \<Rightarrow> sm_free s)"

text \<open>An invariant of all calls holds after every sequence of them.\<close>

lemma calls_invariant:
  assumes "I s" and "\<And>c s. c \<in> set calls \<Longrightarrow> I s \<Longrightarrow> I (do_call malloc columns c s)"
  shows "I (fold (do_call malloc columns) calls s)"
  using assms by (induction calls arbitrary: s) auto

section \<open>Memory\<close>

definition fresh :: "(nat set \<Rightarrow> nat \<Rightarrow> nat) \<Rightarrow> bool" where
  "fresh malloc \<longleftrightarrow> (\<forall>A n. finite A \<longrightarrow> malloc A n \<notin> A \<and> malloc A n \<noteq> 0)"

fun binding_ptr :: "binding \<Rightarrow> nat option" where
  "binding_ptr (BText p n) = Some p"
| "binding_ptr (BBlob p n) = (if p = 0 then None else Some p)"
| "binding_ptr (BInt i) = None"
| "binding_ptr (BDouble d) = None"

text \<open>
  The statement's blocks are in use and its own, and every pointer that SQLite may read is one of them;
  \<open>others\<close> are the blocks that are in use elsewhere.
\<close>

definition mem_ok :: "nat set \<Rightarrow> statement \<Rightarrow> bool" where
  "mem_ok others s \<longleftrightarrow>
     finite others \<and> distinct (sm_allocatedmem s) \<and> 0 \<notin> set (sm_allocatedmem s) \<and>
     sm_alive s = others \<union> set (sm_allocatedmem s) \<and> others \<inter> set (sm_allocatedmem s) = {} \<and>
     \<not> sm_bad_free s"

definition bound_ok :: "statement \<Rightarrow> bool" where
  "bound_ok s \<longleftrightarrow>
     (\<forall>pos b p. map_get (sm_bound s) pos = Some b \<longrightarrow> binding_ptr b = Some p \<longrightarrow> p \<in> set (sm_allocatedmem s))"

lemma freemem_loop_frees:
  assumes "distinct ms" and "0 \<notin> set ms" and "set ms \<subseteq> sm_alive s" and "\<not> sm_bad_free s"
  shows "freemem_loop ms s = s\<lparr>sm_allocatedmem := [], sm_alive := sm_alive s - set ms\<rparr>"
  using assms
proof (induction ms arbitrary: s)
  case Nil
  then show ?case by simp
next
  case (Cons m ms)
  have "freemem_loop (m # ms) s = freemem_loop ms (heap_free m s)" using Cons.prems(2) by auto
  also have "\<dots> = (heap_free m s)\<lparr>sm_allocatedmem := [], sm_alive := sm_alive (heap_free m s) - set ms\<rparr>"
    by (rule Cons.IH) (use Cons.prems in \<open>auto simp: heap_free_def\<close>)
  also have "\<dots> = s\<lparr>sm_allocatedmem := [], sm_alive := sm_alive s - set (m # ms)\<rparr>"
  proof -
    have "sm_alive s - {m} - set ms = sm_alive s - set (m # ms)" by auto
    then show ?thesis using Cons.prems(3,4) by (simp add: heap_free_def)
  qed
  finally show ?case .
qed

lemma freemem_ok:
  assumes "mem_ok others s"
  shows "freemem s = s\<lparr>sm_allocatedmem := [], sm_alive := others\<rparr>"
proof -
  have "sm_alive s - set (rev (sm_allocatedmem s)) = others" using assms by (auto simp: mem_ok_def)
  then show ?thesis
    unfolding freemem_def using assms freemem_loop_frees [of "rev (sm_allocatedmem s)" s] by (simp add: mem_ok_def)
qed

lemma mem_ok_reset: "mem_ok others s \<Longrightarrow> mem_ok others (sm_reset s) \<and> bound_ok (sm_reset s)"
proof -
  assume "mem_ok others s"
  then have "mem_ok others (s\<lparr>sm_columnNames := None\<rparr>)" by (simp add: mem_ok_def)
  from freemem_ok [OF this] \<open>mem_ok others s\<close> show "mem_ok others (sm_reset s) \<and> bound_ok (sm_reset s)"
    by (simp add: sm_reset_def mem_ok_def bound_ok_def Let_def)
qed

lemma mem_ok_free: "mem_ok others s \<Longrightarrow> mem_ok others (sm_free s) \<and> bound_ok (sm_free s)"
  using freemem_ok [of others s] by (simp add: sm_free_def mem_ok_def bound_ok_def)

lemma sqlite_bind_ok:
  assumes "mem_ok others s" and "bound_ok s" and "\<And>p. binding_ptr b = Some p \<Longrightarrow> p \<in> set (sm_allocatedmem s)"
  shows "mem_ok others (fst (sqlite_bind code pos b s)) \<and> bound_ok (fst (sqlite_bind code pos b s))"
  using assms by (auto simp: sqlite_bind_def mem_ok_def bound_ok_def map_get_set)

lemma mem_ok_malloc:
  fixes n :: nat
  assumes "mem_ok others s" and "bound_ok s" and "fresh malloc"
  defines "p \<equiv> malloc (sm_alive s) n"
  defines "s' \<equiv> s\<lparr>sm_alive := insert p (sm_alive s), sm_allocatedmem := sm_allocatedmem s @ [p]\<rparr>"
  shows "mem_ok others s' \<and> bound_ok s' \<and> p \<in> set (sm_allocatedmem s') \<and> p \<noteq> 0"
proof -
  have "finite (sm_alive s)" using assms(1) by (simp add: mem_ok_def)
  then have "p \<notin> sm_alive s" "p \<noteq> 0" using assms(3) by (simp_all add: fresh_def p_def)
  then show ?thesis using assms(1,2) unfolding s'_def by (auto simp: mem_ok_def bound_ok_def)
qed

lemma bindNumber_ok:
  assumes "mem_ok others s" and "bound_ok s"
  shows "mem_ok others (fst (bindNumber code num pos s)) \<and> bound_ok (fst (bindNumber code num pos s))"
  unfolding bindNumber_def using assms by (rule sqlite_bind_ok) (simp split: if_splits)

lemma bindValue_ok:
  assumes "mem_ok others s" and "bound_ok s" and "fresh malloc"
  shows "mem_ok others (fst (bindValue malloc code val pos s)) \<and> bound_ok (fst (bindValue malloc code val pos s))"
proof (cases val)
  case (VString str)
  then show ?thesis
    using mem_ok_malloc [OF assms, of "length (encode str) + 1"]
    by (simp add: bindValue_def bindString_def Let_def) (intro sqlite_bind_ok, auto)
next
  case (VArray a)
  then show ?thesis
    using mem_ok_malloc [OF assms, of "length a"]
    by (simp add: bindValue_def bindBlob_def Let_def) (intro sqlite_bind_ok, auto split: if_splits)
next
  case (VNumber n)
  then show ?thesis using bindNumber_ok [OF assms(1,2)] by (simp add: bindValue_def)
next
  case (VBoolean b)
  then show ?thesis using bindNumber_ok [OF assms(1,2)] by (simp add: bindValue_def)
next
  case VNull
  then show ?thesis
    using sqlite_bind_ok [OF assms(1,2), of "BBlob 0 0"] by (simp add: bindValue_def bindNull_def)
qed (use assms in \<open>simp_all add: bindValue_def\<close>)

lemma bindFromArray_ok:
  "mem_ok others s \<Longrightarrow> bound_ok s \<Longrightarrow> fresh malloc \<Longrightarrow>
   mem_ok others (fst (bindFromArray malloc code i vs s)) \<and> bound_ok (fst (bindFromArray malloc code i vs s))"
proof (induction vs arbitrary: i s)
  case (Cons v vs)
  then show ?case
    using bindValue_ok [of others s malloc code v "i + 1"]
    by (cases "bindValue malloc code v (i + 1) s") (auto split: sum.split)
qed simp

lemma bindFromObject_ok:
  "mem_ok others s \<Longrightarrow> bound_ok s \<Longrightarrow> fresh malloc \<Longrightarrow>
   mem_ok others (fst (bindFromObject malloc code index nvs s)) \<and> bound_ok (fst (bindFromObject malloc code index nvs s))"
proof (induction nvs arbitrary: s)
  case (Cons nv nvs)
  then show ?case
    using bindValue_ok [of others s malloc code "snd nv" "index (fst nv)"]
    by (cases "bindValue malloc code (snd nv) (index (fst nv)) s") (auto split: sum.split)
qed simp

lemma sm_bind_ok:
  assumes "mem_ok others s" and "bound_ok s" and "fresh malloc"
  shows "mem_ok others (fst (sm_bind malloc code index values s)) \<and> bound_ok (fst (sm_bind malloc code index values s))"
  using assms mem_ok_reset [OF assms(1)] bindFromArray_ok bindFromObject_ok
  by (auto simp: sm_bind_def Let_def split: params.split)

lemma sm_step_ok: "mem_ok others s \<Longrightarrow> bound_ok s \<Longrightarrow> mem_ok others (fst (sm_step ret s)) \<and> bound_ok (fst (sm_step ret s))"
  by (simp add: sm_step_def sqlite_step_def mem_ok_def bound_ok_def Let_def split: step_code.split)

lemma sm_run_ok:
  assumes "mem_ok others s" and "bound_ok s" and "fresh malloc"
  shows "mem_ok others (fst (sm_run malloc code index values ret s)) \<and> bound_ok (fst (sm_run malloc code index values ret s))"
proof -
  obtain s1 r1 where 1: "(case values of None \<Rightarrow> (s, Inr ()) | Some v \<Rightarrow> sm_bind malloc code index v s) = (s1, r1)"
    by fastforce
  then have ok1: "mem_ok others s1 \<and> bound_ok s1"
    using assms sm_bind_ok [OF assms] by (auto split: option.splits) (metis fst_conv)+
  obtain s2 r2 where 2: "sm_step ret s1 = (s2, r2)" by fastforce
  then have ok2: "mem_ok others s2 \<and> bound_ok s2" using sm_step_ok ok1 by (metis fst_conv)
  then show ?thesis using ok1 mem_ok_reset by (auto simp: sm_run_def 1 2 split: sum.splits)
qed

lemma stepWith_ok:
  assumes "mem_ok others s" and "bound_ok s" and "fresh malloc"
  shows "mem_ok others (fst (stepWith malloc code index vals ret s)) \<and> bound_ok (fst (stepWith malloc code index vals ret s))"
proof (cases vals)
  case (Some v)
  obtain s1 r1 where 1: "sm_bind malloc code index v s = (s1, r1)" by fastforce
  then have ok1: "mem_ok others s1 \<and> bound_ok s1" using sm_bind_ok [OF assms] by (metis fst_conv)
  obtain s2 r2 where 2: "sm_step ret s1 = (s2, r2)" by fastforce
  then have "mem_ok others s2 \<and> bound_ok s2" using sm_step_ok ok1 by (metis fst_conv)
  then show ?thesis using ok1 Some by (auto simp: stepWith_def 1 2 split: sum.splits)
qed (use assms in \<open>simp add: stepWith_def\<close>)

lemma do_call_ok:
  "fresh malloc \<Longrightarrow> mem_ok others s \<and> bound_ok s \<Longrightarrow>
   mem_ok others (do_call malloc columns c s) \<and> bound_ok (do_call malloc columns c s)"
  using sm_bind_ok sm_step_ok sm_run_ok stepWith_ok mem_ok_reset mem_ok_free
  by (cases c) (auto simp: do_call_def cachedColumnNames_def Let_def mem_ok_def bound_ok_def split: option.split)

lemma reached_ok:
  assumes "fresh malloc" and "finite others"
  shows "mem_ok others (fold (do_call malloc columns) calls (new_statement stmt others))
    \<and> bound_ok (fold (do_call malloc columns) calls (new_statement stmt others))"
proof (rule calls_invariant)
  show "mem_ok others (new_statement stmt others) \<and> bound_ok (new_statement stmt others)"
    using assms(2) by (simp add: mem_ok_def bound_ok_def new_statement_def)
qed (use do_call_ok [OF assms(1)] in blast)

section \<open>Column names\<close>

definition no_step_error :: "sm_call \<Rightarrow> bool" where
  "no_step_error c = (case c of Call_step (Step_error _) \<Rightarrow> False | Call_run _ _ _ (Step_error _) \<Rightarrow> False
     | Call_get _ _ _ (Step_error _) \<Rightarrow> False | _ \<Rightarrow> True)"

definition names_current :: "(nat \<Rightarrow> string list) \<Rightarrow> statement \<Rightarrow> bool" where
  "names_current columns s \<longleftrightarrow> sm_stmt s \<noteq> 0 \<longrightarrow>
     (\<forall>names. sm_columnNames s = Some names \<longrightarrow> sm_row s \<and> names = columns (sm_exec s))"

lemma freemem_loop_names [simp]:
  "sm_columnNames (freemem_loop ms s) = sm_columnNames s"
  "sm_row (freemem_loop ms s) = sm_row s" "sm_exec (freemem_loop ms s) = sm_exec s"
  "sm_stmt (freemem_loop ms s) = sm_stmt s"
  by (induction ms arbitrary: s) (simp_all add: heap_free_def)

lemma reset_names [simp]: "sm_columnNames (sm_reset s) = None" "sm_stmt (sm_reset s) = sm_stmt s"
  by (simp_all add: sm_reset_def freemem_def Let_def)

lemma bind_names_None:
  "sm_columnNames s = None \<Longrightarrow> sm_columnNames (fst (bindValue malloc code v pos s)) = None"
  by (simp add: bindValue_def bindString_def bindBlob_def bindNumber_def bindNull_def sqlite_bind_def Let_def
      split: js_value.split)

lemma bindFromArray_names:
  "sm_columnNames s = None \<Longrightarrow> sm_columnNames (fst (bindFromArray malloc code i vs s)) = None"
proof (induction vs arbitrary: i s)
  case (Cons v vs)
  then show ?case
    using bind_names_None [OF Cons.prems, of malloc code v "i + 1"]
    by (cases "bindValue malloc code v (i + 1) s") (auto split: sum.split)
qed simp

lemma bindFromObject_names:
  "sm_columnNames s = None \<Longrightarrow> sm_columnNames (fst (bindFromObject malloc code index nvs s)) = None"
proof (induction nvs arbitrary: s)
  case (Cons nv nvs)
  then show ?case
    using bind_names_None [OF Cons.prems, of malloc code "snd nv" "index (fst nv)"]
    by (cases "bindValue malloc code (snd nv) (index (fst nv)) s") (auto split: sum.split)
qed simp

lemma bind_current:
  "names_current columns s \<Longrightarrow> names_current columns (fst (sm_bind malloc code index values s))"
  by (auto simp: sm_bind_def names_current_def bindFromArray_names bindFromObject_names Let_def split: params.split)

lemma step_current:
  "names_current columns s \<Longrightarrow> (\<forall>e. ret \<noteq> Step_error e) \<Longrightarrow> names_current columns (fst (sm_step ret s))"
  by (auto simp: sm_step_def sqlite_step_def names_current_def Let_def split: step_code.split)

lemma do_call_current:
  assumes "names_current columns s" and "no_step_error c"
  shows "names_current columns (do_call malloc columns c s)"
proof (cases c)
  case (Call_run code index vals ret)
  obtain s1 r1 where 1: "(case vals of None \<Rightarrow> (s, Inr ()) | Some v \<Rightarrow> sm_bind malloc code index v s) = (s1, r1)"
    by fastforce
  then have s1: "names_current columns s1"
    using assms(1) bind_current [OF assms(1)] by (auto split: option.splits) (metis fst_conv)+
  have ret: "\<forall>e. ret \<noteq> Step_error e" using assms(2) Call_run by (auto simp: no_step_error_def)
  obtain s2 r2 where 2: "sm_step ret s1 = (s2, r2)" by fastforce
  then have "names_current columns s2" using step_current [OF s1 ret] by (metis fst_conv)
  then show ?thesis using s1 by (auto simp: Call_run do_call_def sm_run_def 1 2 names_current_def split: sum.splits)
next
  case (Call_step ret)
  then show ?thesis using assms step_current by (auto simp: do_call_def no_step_error_def split: step_code.splits)
next
  case Call_names
  then show ?thesis
    using assms(1)
    by (auto simp: do_call_def cachedColumnNames_def getColumnNames_def names_current_def Let_def split: option.split)
next
  case Call_free
  then show ?thesis
    using assms(1) by (auto simp: do_call_def sm_free_def freemem_def names_current_def)
next
  case (Call_bind code index vals)
  then show ?thesis using bind_current [OF assms(1)] by (simp add: do_call_def)
next
  case (Call_get code index vals ret)
  have ret: "\<forall>e. ret \<noteq> Step_error e" using assms(2) Call_get by (auto simp: no_step_error_def)
  show ?thesis
  proof (cases vals)
    case (Some v)
    obtain s1 r1 where 1: "sm_bind malloc code index v s = (s1, r1)" by fastforce
    then have s1: "names_current columns s1" using bind_current [OF assms(1)] by (metis fst_conv)
    obtain s2 r2 where 2: "sm_step ret s1 = (s2, r2)" by fastforce
    then have "names_current columns s2" using step_current [OF s1 ret] by (metis fst_conv)
    then show ?thesis using s1 by (auto simp: Call_get Some do_call_def stepWith_def 1 2 split: sum.splits)
  qed (use assms(1) Call_get in \<open>simp add: do_call_def stepWith_def\<close>)
next
  case Call_reset
  then show ?thesis by (simp add: do_call_def names_current_def)
qed

section \<open>Properties\<close>


definition ex_malloc :: "nat set \<Rightarrow> nat \<Rightarrow> nat" where
  "ex_malloc A n = Suc (Max (insert 0 A))"

lemma ex_malloc_fresh: "fresh ex_malloc"
  unfolding fresh_def ex_malloc_def
  by (metis Max_ge Suc_n_not_le_n finite_insert insertCI nat.distinct(1))


text \<open>
  C33. As long as no step throws and the statement is not freed, the cached column names are the names
  of the current row's execution, however often it is executed, reset and prepared again in between.
\<close>

theorem cached_names_current:
  fixes columns :: "nat \<Rightarrow> string list" and malloc :: "nat set \<Rightarrow> nat \<Rightarrow> nat" and stmt :: nat and alive :: "nat set"
  assumes "\<forall>c \<in> set calls. no_step_error c"
  defines "s \<equiv> fold (do_call malloc columns) calls (new_statement stmt alive)"
  shows "sm_stmt s \<noteq> 0 \<longrightarrow> snd (cachedColumnNames columns s) = getColumnNames columns s"
proof -
  have "names_current columns (new_statement stmt alive)"
    by (simp add: names_current_def new_statement_def)
  then have "names_current columns s"
    unfolding s_def using calls_invariant [of "names_current columns" _ calls malloc columns] do_call_current assms(1)
    by blast
  then show ?thesis
    by (auto simp: cachedColumnNames_def getColumnNames_def names_current_def Let_def split: option.split)
qed

definition ex_columns :: "nat \<Rightarrow> string list" where
  "ex_columns n = (if n = 1 then [''a''] else [''a'', ''b''])"

theorem cached_names_current_witness:
  "snd (cachedColumnNames ex_columns (fold (do_call ex_malloc ex_columns) [Call_step ROW, Call_names, Call_step DONE, Call_step ROW]
     (new_statement 8 {}))) = [''a'', ''b'']"
proof -
  have "\<forall>c \<in> set [Call_step ROW, Call_names, Call_step DONE, Call_step ROW]. no_step_error c"
    by (simp add: no_step_error_def)
  from cached_names_current [where columns = ex_columns and malloc = ex_malloc and stmt = 8 and alive = "{}", OF this] show ?thesis
    by (simp add: do_call_def sm_step_def sqlite_step_def new_statement_def getColumnNames_def cachedColumnNames_def
        ex_columns_def Let_def)
qed

text \<open>
  After a step that throws they are not: the next step starts another execution, as SQLite resets the
  statement itself, and may prepare it again, but the names of the one before stay cached.
\<close>

theorem cached_names_stale:
  "\<exists>columns calls. let s = fold (do_call ex_malloc columns) calls (new_statement 8 {}) in
     sm_row s \<and> snd (cachedColumnNames columns s) \<noteq> getColumnNames columns s"
  by (intro exI [of _ ex_columns] exI [of _ "[Call_step ROW, Call_names, Call_step (Step_error 1), Call_step ROW]"])
    (simp add: do_call_def sm_step_def sqlite_step_def new_statement_def getColumnNames_def cachedColumnNames_def
      ex_columns_def Let_def)

end
