(* ===== verification/Db_Functions.thy ===== *)
theory Db_Functions
  imports Statements
begin

text \<open>
  \<open>create_function\<close> of Database.ts: the functions an application registers with SQLite. Each is put in
  the function table of the Wasm module, whose \<open>addFunction\<close> gives a slot that is not in use; SQLite keeps
  the slot by the function's name and number of arguments.
\<close>

section \<open>The function table and what is registered\<close>

record 'f fn_state =
  fn_functions :: "(string \<times> nat) list"
  fn_table :: "nat \<Rightarrow> 'f option"
  fn_registered :: "string \<times> nat \<Rightarrow> nat option"

definition no_functions :: "(nat \<Rightarrow> 'f option) \<Rightarrow> 'f fn_state" where
  "no_functions table = \<lparr>fn_functions = [], fn_table = table, fn_registered = Map.empty\<rparr>"

text \<open>\<open>fn_functions\<close> is a plain object; the names it inherits are not in the model.\<close>

definition create_function ::
  "((nat \<Rightarrow> 'f option) \<Rightarrow> nat) \<Rightarrow> string \<Rightarrow> nat \<Rightarrow> 'f \<Rightarrow> nat \<Rightarrow> 'f fn_state \<Rightarrow> 'f fn_state \<times> unit result" where
  "create_function free name arity func code st =
     (let st = (case map_get (fn_functions st) name of
            None \<Rightarrow> st
          | Some p \<Rightarrow> st\<lparr>fn_table := (fn_table st)(p := None), fn_functions := map_delete name (fn_functions st)\<rparr>);
          funcPtr = free (fn_table st);
          st = st\<lparr>fn_table := (fn_table st)(funcPtr \<mapsto> func), fn_functions := map_set name funcPtr (fn_functions st)\<rparr>
      in if code = 0 then (st\<lparr>fn_registered := (fn_registered st)((name, arity) \<mapsto> funcPtr)\<rparr>, Inr ())
         else (st, Inl (SqliteError code)))"

text \<open>A call from SQL: SQLite calls the slot it has, which may be empty by now.\<close>

definition call_function :: "'f fn_state \<Rightarrow> string \<Rightarrow> nat \<Rightarrow> 'f option" where
  "call_function st name arity =
     (case fn_registered st (name, arity) of None \<Rightarrow> None | Some p \<Rightarrow> fn_table st p)"

text \<open>The functions when the database closes (\<open>_close\<close>).\<close>

definition close_functions :: "'f fn_state \<Rightarrow> 'f fn_state" where
  "close_functions st =
     st\<lparr>fn_table := fold (\<lambda>(name, p) t. t(p := None)) (fn_functions st) (fn_table st), fn_functions := []\<rparr>"

section \<open>Arguments and results\<close>

text \<open>
  What the wrapped function passes for an argument: the type SQLite says it has picks how it is read.
\<close>

datatype sqlite_value = SInteger int | SFloat rat | SText js_string | SBlob bytes | SNull

definition value_type :: "sqlite_value \<Rightarrow> nat" where
  "value_type v = (case v of SInteger _ \<Rightarrow> 1 | SFloat _ \<Rightarrow> 2 | SText _ \<Rightarrow> 3 | SBlob _ \<Rightarrow> 4 | SNull \<Rightarrow> 5)"

datatype js_arg = ANumber rat | AString js_string | ABytes bytes | ANull

text \<open>
  \<open>sqlite3_value_double\<close> of a number (integers up to \<open>2 ^ 53\<close> are exact), \<open>sqlite3_value_text\<close> of text,
  and the loop that copies the bytes of a blob.
\<close>

definition wrapped_arg :: "sqlite_value \<Rightarrow> js_arg" where
  "wrapped_arg v =
     (if value_type v = 1 then ANumber (case v of SInteger i \<Rightarrow> of_int i | _ \<Rightarrow> 0)
      else if value_type v = 2 then ANumber (case v of SFloat r \<Rightarrow> r | _ \<Rightarrow> 0)
      else if value_type v = 3 then AString (case v of SText s \<Rightarrow> s | _ \<Rightarrow> [])
      else if value_type v = 4 then ABytes (case v of SBlob b \<Rightarrow> map (\<lambda>j. b ! j) [0..<length b] | _ \<Rightarrow> [])
      else ANull)"

datatype js_result =
    RBoolean bool | RNumber rat | RString js_string | RNull | RArray bytes | RObject | RUndefined | RThrown

datatype sqlite_result = Result_int int | Result_double rat | Result_text js_string | Result_blob bytes
  | Result_null | Result_error

definition wrapped_result :: "js_result \<Rightarrow> sqlite_result" where
  "wrapped_result r =
     (case r of
        RThrown \<Rightarrow> Result_error
      | RBoolean b \<Rightarrow> Result_int (if b then 1 else 0)
      | RNumber n \<Rightarrow> Result_double n
      | RString s \<Rightarrow> Result_text s
      | RNull \<Rightarrow> Result_null
      | RArray a \<Rightarrow> Result_blob a
      | RObject \<Rightarrow> Result_error
      | RUndefined \<Rightarrow> Result_null)"

text \<open>What a function that returns its argument does to a value.\<close>

definition identity_result :: "sqlite_value \<Rightarrow> sqlite_result" where
  "identity_result v =
     wrapped_result (case wrapped_arg v of ANumber r \<Rightarrow> RNumber r | AString s \<Rightarrow> RString s | ABytes b \<Rightarrow> RArray b | ANull \<Rightarrow> RNull)"

lemma identity_result_eq:
  "identity_result v = (case v of SInteger i \<Rightarrow> Result_double (of_int i) | SFloat r \<Rightarrow> Result_double r
     | SText s \<Rightarrow> Result_text s | SBlob b \<Rightarrow> Result_blob b | SNull \<Rightarrow> Result_null)"
  by (simp add: identity_result_def wrapped_arg_def wrapped_result_def value_type_def map_nth split: sqlite_value.split)

section \<open>Registrations over time\<close>

text \<open>A registration: name, number of arguments, function, and what SQLite answers.\<close>

type_synonym 'f registration = "string \<times> nat \<times> 'f \<times> nat"

definition register_all ::
  "((nat \<Rightarrow> 'f option) \<Rightarrow> nat) \<Rightarrow> 'f registration list \<Rightarrow> 'f fn_state \<Rightarrow> 'f fn_state" where
  "register_all free regs st =
     fold (\<lambda>(name, arity, func, code) st. fst (create_function free name arity func code st)) regs st"

definition free_slot :: "((nat \<Rightarrow> 'f option) \<Rightarrow> nat) \<Rightarrow> bool" where
  "free_slot free \<longleftrightarrow> (\<forall>t. finite (dom t) \<longrightarrow> t (free t) = None)"

text \<open>Every name is registered with one number of arguments, and SQLite accepts it.\<close>

fun same_arity :: "'f registration \<Rightarrow> 'f registration \<Rightarrow> bool" where
  "same_arity (n, a, f, c) (n', a', f', c') \<longleftrightarrow> c = 0 \<and> (n = n' \<longrightarrow> a = a')"

definition one_arity :: "'f registration list \<Rightarrow> bool" where
  "one_arity regs \<longleftrightarrow> (\<forall>r \<in> set regs. \<forall>r' \<in> set regs. same_arity r r')"

definition last_registered :: "'f registration list \<Rightarrow> string \<Rightarrow> nat \<Rightarrow> 'f option" where
  "last_registered regs name arity =
     fold (\<lambda>(n, a, f, c) acc. if n = name \<and> a = arity then Some f else acc) regs None"

definition fn_ok :: "'f registration list \<Rightarrow> 'f fn_state \<Rightarrow> bool" where
  "fn_ok regs st \<longleftrightarrow>
     finite (dom (fn_table st)) \<and> map_ok (fn_functions st) \<and>
     (\<forall>name p. map_get (fn_functions st) name = Some p \<longrightarrow> fn_table st p \<noteq> None) \<and>
     (\<forall>n n' p. map_get (fn_functions st) n = Some p \<longrightarrow> map_get (fn_functions st) n' = Some p \<longrightarrow> n = n') \<and>
     (\<forall>name arity. fn_registered st (name, arity) =
        (if \<exists>f c. (name, arity, f, c) \<in> set regs then map_get (fn_functions st) name else None)) \<and>
     (\<forall>name arity. call_function st name arity = last_registered regs name arity)"

lemma last_registered_snoc:
  "last_registered (regs @ [(n, a, f, c)]) name arity = (if n = name \<and> a = arity then Some f else last_registered regs name arity)"
  by (simp add: last_registered_def)

lemma last_registered_in:
  "last_registered regs name arity = Some f \<Longrightarrow> \<exists>c. (name, arity, f, c) \<in> set regs"
proof (induction regs rule: rev_induct)
  case Nil
  then show ?case by (simp add: last_registered_def)
next
  case (snoc r regs)
  then show ?case by (cases r) (auto simp: last_registered_snoc split: if_splits)
qed

lemma last_registered_None:
  "last_registered regs name arity = None \<longleftrightarrow> \<not> (\<exists>f c. (name, arity, f, c) \<in> set regs)"
proof (induction regs rule: rev_induct)
  case Nil
  then show ?case by (simp add: last_registered_def)
next
  case (snoc r regs)
  then show ?case by (cases r) (auto simp: last_registered_snoc)
qed

lemma register_ok:
  assumes "fn_ok regs st" and "free_slot free" and "one_arity (regs @ [(n, a, f, 0)])"
  shows "fn_ok (regs @ [(n, a, f, 0)]) (fst (create_function free n a f 0 st))"
proof -
  define st1 where "st1 = (case map_get (fn_functions st) n of None \<Rightarrow> st
      | Some p \<Rightarrow> st\<lparr>fn_table := (fn_table st)(p := None), fn_functions := map_delete n (fn_functions st)\<rparr>)"
  define q where "q = free (fn_table st1)"
  define st2 where "st2 = fst (create_function free n a f 0 st)"
  have st2: "fn_functions st2 = map_set n q (fn_functions st1)" "fn_table st2 = (fn_table st1)(q \<mapsto> f)"
    "fn_registered st2 = (fn_registered st1)((n, a) \<mapsto> q)"
    unfolding st2_def create_function_def st1_def q_def Let_def by simp_all
  have ok: "finite (dom (fn_table st))" "map_ok (fn_functions st)"
    "\<And>m p. map_get (fn_functions st) m = Some p \<Longrightarrow> fn_table st p \<noteq> None"
    "\<And>m m' p. map_get (fn_functions st) m = Some p \<Longrightarrow> map_get (fn_functions st) m' = Some p \<Longrightarrow> m = m'"
    "\<And>m b. fn_registered st (m, b) = (if \<exists>f c. (m, b, f, c) \<in> set regs then map_get (fn_functions st) m else None)"
    "\<And>m b. call_function st m b = last_registered regs m b"
    using assms(1) unfolding fn_ok_def by blast+
  have fin1: "finite (dom (fn_table st1))"
    using ok(1) by (auto simp: st1_def dom_def intro: rev_finite_subset split: option.split)
  then have q: "fn_table st1 q = None" using assms(2) by (simp add: free_slot_def q_def)
  have names1: "map_get (fn_functions st1) m = (if m = n then None else map_get (fn_functions st) m)" for m
    by (auto simp: st1_def map_get_delete split: option.split)
  have table1: "fn_table st1 p = fn_table st p" if "map_get (fn_functions st) n \<noteq> Some p" for p
    using that by (auto simp: st1_def split: option.split)
  have reg1: "fn_registered st1 = fn_registered st" by (simp add: st1_def split: option.split)
  have same: "b = a" if "(n, b, g, c) \<in> set regs" for b g c
    using assms(3) that unfolding one_arity_def by fastforce
  have live: "fn_table st1 p = fn_table st p \<and> fn_table st p \<noteq> None \<and> p \<noteq> q"
    if "m \<noteq> n" "map_get (fn_functions st) m = Some p" for m p
  proof -
    have "map_get (fn_functions st) n \<noteq> Some p" using ok(4) that by blast
    then show ?thesis using table1 ok(3) [OF that(2)] q by metis
  qed
  show ?thesis
    unfolding fn_ok_def st2_def [symmetric]
  proof (intro conjI allI impI)
    show "finite (dom (fn_table st2))" using fin1 by (simp add: st2)
    show "map_ok (fn_functions st2)" using ok(2) by (auto simp: st2 st1_def split: option.split)
    show "fn_table st2 p \<noteq> None" if "map_get (fn_functions st2) m = Some p" for m p
      using that live [of m p] by (auto simp: st2 map_get_set names1 split: if_splits)
    show "m = m'" if "map_get (fn_functions st2) m = Some p" "map_get (fn_functions st2) m' = Some p" for m m' p
      using that live [of m p] live [of m' p] ok(4) [of m p m'] by (auto simp: st2 map_get_set names1 split: if_splits)
    show "fn_registered st2 (m, b) =
        (if \<exists>g c. (m, b, g, c) \<in> set (regs @ [(n, a, f, 0)]) then map_get (fn_functions st2) m else None)" for m b
      using ok(5) [of m b] same by (auto simp: st2 reg1 map_get_set names1 split: if_splits)
    show "call_function st2 m b = last_registered (regs @ [(n, a, f, 0)]) m b" for m b
    proof (cases "m = n")
      case True
      have "fn_registered st (n, b) = None \<and> last_registered regs n b = None" if "b \<noteq> a"
        using that same ok(5) [of n b] last_registered_None [of regs n b] by auto
      then show ?thesis using True by (auto simp: call_function_def st2 reg1 last_registered_snoc)
    next
      case False
      have "call_function st2 m b = call_function st m b"
      proof (cases "fn_registered st (m, b)")
        case None
        then show ?thesis using False by (simp add: call_function_def st2 reg1)
      next
        case (Some p)
        then have "map_get (fn_functions st) m = Some p" using ok(5) [of m b] by (auto split: if_splits)
        from live [OF False this] show ?thesis using False Some by (simp add: call_function_def st2 reg1)
      qed
      then show ?thesis using ok(6) False by (simp add: last_registered_snoc)
    qed
  qed
qed

lemma one_arity_prefix: "one_arity (regs @ rs) \<Longrightarrow> one_arity regs"
  by (simp add: one_arity_def)

lemma register_all_ok:
  assumes "free_slot free" and "one_arity regs" and "finite (dom table)"
  shows "fn_ok regs (register_all free regs (no_functions table))"
  using assms(2)
proof (induction regs rule: rev_induct)
  case Nil
  show ?case using assms(3)
    by (simp add: fn_ok_def register_all_def no_functions_def call_function_def last_registered_def)
next
  case (snoc r regs)
  obtain n a f c where r: "r = (n, a, f, c)" by (cases r) auto
  then have c: "c = 0" using snoc.prems by (auto simp: one_arity_def)
  have "fn_ok regs (register_all free regs (no_functions table))"
    using snoc.IH one_arity_prefix [OF snoc.prems] by blast
  from register_ok [OF this assms(1), of n a f] snoc.prems show ?case
    by (simp add: r c register_all_def)
qed

section \<open>Properties\<close>


definition ex_free :: "(nat \<Rightarrow> nat option) \<Rightarrow> nat" where
  "ex_free t = (if t 1 = None then 1 else if t 2 = None then 2 else Suc (Max (dom t)))"

lemma ex_free_slot: "free_slot ex_free"
proof -
  have "t (Suc (Max (dom t))) = None" if "finite (dom t)" for t :: "nat \<Rightarrow> nat option"
  proof (rule ccontr)
    assume "t (Suc (Max (dom t))) \<noteq> None"
    then have "Suc (Max (dom t)) \<le> Max (dom t)" using that by (intro Max_ge) auto
    then show False by simp
  qed
  then show ?thesis by (simp add: free_slot_def ex_free_def)
qed


text \<open>
  With another number of arguments, the function that is still registered with the first number loses
  its slot to the new one, so that SQLite calls the wrong function.
\<close>

theorem overload_calls_wrong_function:
  "call_function (register_all ex_free [(''f'', 1, 10, 0), (''f'', 2, 20, 0)] (no_functions Map.empty)) ''f'' 1 = Some 20"
  by (simp add: register_all_def create_function_def no_functions_def call_function_def ex_free_def Let_def)

end
