(* ===== verification/Db_Statements.thy ===== *)
theory Db_Statements
  imports Db_Functions
begin

text \<open>
  The statements of a database (Database.ts): \<open>prepare\<close>, \<open>run\<close>, \<open>exec\<close>, \<open>each\<close> and what \<open>close\<close> does with
  them. What SQLite answers to the calls is a parameter; the state is which statements it has prepared
  and not finalized, which of them the database knows, and how far the Wasm stack is.
\<close>

section \<open>State and outcomes\<close>

record db_state =
  ds_open :: bool
  ds_statements :: "nat list"
  ds_live :: "nat set"
  ds_stack :: nat

text \<open>
  What SQLite does with one statement: its pointer, what binding parameters throws if it does, the rows
  it steps to, and the error after them if there is one.
\<close>

record 'v script =
  sc_ptr :: nat
  sc_bind :: "js_error option"
  sc_columns :: "string list"
  sc_rows :: "'v list"
  sc_end :: "js_error option"

datatype 'v prepared = Prep_error js_error | Prep_none | Prep "'v script"

definition db_closed :: js_error where
  "db_closed = JsError ''Database closed''"

text \<open>A prepared statement is there until \<open>free\<close>, which also takes it out of \<open>statements\<close>.\<close>

definition stmt_prepared :: "nat \<Rightarrow> db_state \<Rightarrow> db_state" where
  "stmt_prepared p db = db\<lparr>ds_live := insert p (ds_live db)\<rparr>"

definition stmt_free :: "nat \<Rightarrow> db_state \<Rightarrow> db_state" where
  "stmt_free p db = db\<lparr>ds_live := ds_live db - {p}, ds_statements := filter (\<lambda>q. q \<noteq> p) (ds_statements db)\<rparr>"

section \<open>The operations\<close>

definition db_prepare :: "'v prepared \<Rightarrow> bool \<Rightarrow> db_state \<Rightarrow> db_state \<times> 'v script result" where
  "db_prepare pr params db =
     (case pr of
        Prep_error e \<Rightarrow> (db, Inl e)
      | Prep_none \<Rightarrow> (db, Inl (JsError ''Nothing to prepare. Check your SQL statement.''))
      | Prep sc \<Rightarrow>
          let db = stmt_prepared (sc_ptr sc) db
          in (case (if params then sc_bind sc else None) of
                Some e \<Rightarrow> (db, Inl e)
              | None \<Rightarrow> (db\<lparr>ds_statements := List.insert (sc_ptr sc) (ds_statements db)\<rparr>, Inr sc)))"

text \<open>\<open>run\<close>; without parameters it is \<open>sqlite3_exec\<close>, with its result.\<close>

definition db_run :: "'v prepared \<Rightarrow> bool \<Rightarrow> unit result \<Rightarrow> db_state \<Rightarrow> db_state \<times> unit result" where
  "db_run pr params execResult db =
     (if \<not> ds_open db then (db, Inl db_closed)
      else if params then
        (case db_prepare pr True db of
           (db, Inl e) \<Rightarrow> (db, Inl e)
         | (db, Inr sc) \<Rightarrow>
             (stmt_free (sc_ptr sc) db,
              case sc_rows sc of
                [] \<Rightarrow> (case sc_end sc of Some e \<Rightarrow> Inl e | None \<Rightarrow> Inr ())
              | _ # _ \<Rightarrow> Inr ()))
      else (db, execResult))"

text \<open>
  The loop of \<open>exec\<close> over the statements of the SQL. \<open>sqlite3_prepare_v2\<close> that makes no statement (of a
  comment, say) ends it. The results have the statements that gave rows.
\<close>

primrec exec_loop ::
  "bool \<Rightarrow> 'v prepared list \<Rightarrow> db_state \<Rightarrow> (string list \<times> 'v list) list \<Rightarrow> db_state \<times> (string list \<times> 'v list) list result" where
  "exec_loop params [] db results = (db, Inr results)"
| "exec_loop params (pr # prs) db results =
     (case pr of
        Prep_error e \<Rightarrow> (db, Inl e)
      | Prep_none \<Rightarrow> (db, Inr results)
      | Prep sc \<Rightarrow>
          let db = stmt_prepared (sc_ptr sc) db
          in (case (if params then sc_bind sc else None) of
                Some e \<Rightarrow> (db, Inl e)
              | None \<Rightarrow>
                  (case sc_end sc of
                     Some e \<Rightarrow> (stmt_free (sc_ptr sc) db, Inl e)
                   | None \<Rightarrow>
                       exec_loop params prs (stmt_free (sc_ptr sc) db)
                         (if sc_rows sc = [] then results else results @ [(sc_columns sc, sc_rows sc)]))))"

definition db_exec ::
  "nat \<Rightarrow> bool \<Rightarrow> 'v prepared list \<Rightarrow> db_state \<Rightarrow> db_state \<times> (string list \<times> 'v list) list result" where
  "db_exec sqlLength params prs db =
     (if \<not> ds_open db then (db, Inl db_closed)
      else (let stack = ds_stack db
            in case exec_loop params prs (db\<lparr>ds_stack := stack + sqlLength + 1 + 4\<rparr>) [] of
                 (db, r) \<Rightarrow> (db\<lparr>ds_stack := stack\<rparr>, r)))"

text \<open>
  The loop of \<open>each\<close>: \<open>callback i row\<close> is what the \<open>i\<close>-th call of the row callback throws, if it does.
\<close>

primrec each_loop :: "(nat \<Rightarrow> 'v \<Rightarrow> js_error option) \<Rightarrow> nat \<Rightarrow> 'v list \<Rightarrow> js_error option \<Rightarrow> unit result" where
  "each_loop callback i [] e = (case e of Some e \<Rightarrow> Inl e | None \<Rightarrow> Inr ())"
| "each_loop callback i (row # rows) e =
     (case callback i row of Some err \<Rightarrow> Inl err | None \<Rightarrow> each_loop callback (Suc i) rows e)"

definition db_each ::
  "'v prepared \<Rightarrow> bool \<Rightarrow> (nat \<Rightarrow> 'v \<Rightarrow> js_error option) option \<Rightarrow> db_state \<Rightarrow> db_state \<times> unit result" where
  "db_each pr params callback db =
     (case db_prepare pr params db of
        (db, Inl e) \<Rightarrow> (db, Inl e)
      | (db, Inr sc) \<Rightarrow>
          (case callback of
             None \<Rightarrow> (db, Inl (JsError ''No callback passed''))
           | Some f \<Rightarrow> (stmt_free (sc_ptr sc) db, each_loop f 0 (sc_rows sc) (sc_end sc))))"

text \<open>\<open>close\<close>, as far as the statements: it frees those the database knows.\<close>

definition db_close_statements :: "db_state \<Rightarrow> db_state" where
  "db_close_statements db = (fold stmt_free (ds_statements db) db)\<lparr>ds_statements := [], ds_open := False\<rparr>"

section \<open>No statement is left behind\<close>

datatype 'v db_call =
    Db_prepare "'v prepared" bool
  | Db_free nat
  | Db_run "'v prepared" bool "unit result"
  | Db_exec nat bool "'v prepared list"
  | Db_each "'v prepared" bool "(nat \<Rightarrow> 'v \<Rightarrow> js_error option) option"

definition db_call :: "'v db_call \<Rightarrow> db_state \<Rightarrow> db_state" where
  "db_call c db =
     (case c of
        Db_prepare pr params \<Rightarrow> fst (db_prepare pr params db)
      | Db_free p \<Rightarrow> stmt_free p db
      | Db_run pr params r \<Rightarrow> fst (db_run pr params r db)
      | Db_exec n params prs \<Rightarrow> fst (db_exec n params prs db)
      | Db_each pr params callback \<Rightarrow> fst (db_each pr params callback db))"

text \<open>Binding does not throw, and a statement that SQLite prepares is a new one.\<close>

definition binds :: "'v prepared \<Rightarrow> bool" where
  "binds pr = (case pr of Prep sc \<Rightarrow> sc_bind sc = None | _ \<Rightarrow> True)"

definition new_ptr :: "db_state \<Rightarrow> 'v prepared \<Rightarrow> bool" where
  "new_ptr db pr = (case pr of Prep sc \<Rightarrow> sc_ptr sc \<notin> ds_live db | _ \<Rightarrow> True)"

definition call_ok :: "db_state \<Rightarrow> 'v db_call \<Rightarrow> bool" where
  "call_ok db c =
     (case c of
        Db_prepare pr params \<Rightarrow> (params \<longrightarrow> binds pr) \<and> new_ptr db pr
      | Db_free p \<Rightarrow> True
      | Db_run pr params r \<Rightarrow> (params \<longrightarrow> binds pr) \<and> new_ptr db pr
      | Db_exec n params prs \<Rightarrow> list_all (\<lambda>pr. (params \<longrightarrow> binds pr) \<and> new_ptr db pr) prs
      | Db_each pr params callback \<Rightarrow> (params \<longrightarrow> binds pr) \<and> new_ptr db pr)"

inductive db_runs :: "db_state \<Rightarrow> 'v db_call list \<Rightarrow> db_state \<Rightarrow> bool" for db0 where
  db_start: "db_runs db0 [] db0"
| db_step: "db_runs db0 calls db \<Longrightarrow> call_ok db c \<Longrightarrow> db_runs db0 (calls @ [c]) (db_call c db)"

definition known :: "db_state \<Rightarrow> bool" where
  "known db \<longleftrightarrow> ds_live db = set (ds_statements db)"

lemma free_prepared:
  assumes "known db" and "p \<notin> ds_live db"
  shows "stmt_free p (stmt_prepared p db) = db"
    and "stmt_free p ((stmt_prepared p db)\<lparr>ds_statements := List.insert p (ds_statements db)\<rparr>) = db"
proof -
  have "filter (\<lambda>q. q \<noteq> p) (ds_statements db) = ds_statements db"
    using assms by (auto simp: known_def filter_id_conv)
  then show "stmt_free p (stmt_prepared p db) = db"
    and "stmt_free p ((stmt_prepared p db)\<lparr>ds_statements := List.insert p (ds_statements db)\<rparr>) = db"
    using assms by (auto simp: stmt_free_def stmt_prepared_def known_def List.insert_def intro!: db_state.equality)
qed

lemma known_stack [simp]: "known (db\<lparr>ds_stack := n\<rparr>) = known db"
  by (simp add: known_def)

lemma exec_loop_state:
  assumes "known db" and "list_all (\<lambda>pr. (params \<longrightarrow> binds pr) \<and> new_ptr db pr) prs"
  shows "fst (exec_loop params prs db results) = db"
  using assms(2)
proof (induction prs arbitrary: results)
  case (Cons pr prs)
  show ?case
  proof (cases pr)
    case (Prep sc)
    then have p: "sc_ptr sc \<notin> ds_live db" and b: "(if params then sc_bind sc else None) = None"
      using Cons.prems by (auto simp: binds_def new_ptr_def)
    then show ?thesis
      using Cons free_prepared(1) [OF assms(1) p] by (simp add: Prep Let_def split: option.split)
  qed simp_all
qed simp

lemma db_exec_state:
  assumes "known db" and "list_all (\<lambda>pr. (params \<longrightarrow> binds pr) \<and> new_ptr db pr) prs"
  shows "fst (db_exec n params prs db) = db"
proof -
  let ?db = "db\<lparr>ds_stack := ds_stack db + n + 1 + 4\<rparr>"
  have "new_ptr ?db pr \<longleftrightarrow> new_ptr db pr" for pr :: "'a prepared" by (simp add: new_ptr_def split: prepared.split)
  then have "fst (exec_loop params prs ?db []) = ?db" using assms by (intro exec_loop_state) simp_all
  then show ?thesis by (cases "exec_loop params prs ?db []") (simp add: db_exec_def Let_def)
qed

lemma db_run_state:
  assumes "known db" and "params \<longrightarrow> binds pr" and "new_ptr db pr"
  shows "fst (db_run pr params r db) = db"
proof (cases pr)
  case (Prep sc)
  then have "sc_ptr sc \<notin> ds_live db" "params \<longrightarrow> sc_bind sc = None"
    using assms(2,3) by (simp_all add: new_ptr_def binds_def)
  then show ?thesis
    using free_prepared(2) [OF assms(1)] by (simp add: Prep db_run_def db_prepare_def stmt_prepared_def Let_def)
qed (simp_all add: db_run_def db_prepare_def)

lemma db_each_state:
  assumes "known db" and "params \<longrightarrow> binds pr" and "new_ptr db pr"
  shows "callback \<noteq> None \<Longrightarrow> fst (db_each pr params callback db) = db"
    and "known (fst (db_each pr params callback db))"
proof -
  have *: "(callback \<noteq> None \<longrightarrow> fst (db_each pr params callback db) = db) \<and> known (fst (db_each pr params callback db))"
  proof (cases pr)
    case (Prep sc)
    then have "sc_ptr sc \<notin> ds_live db" "(if params then sc_bind sc else None) = None"
      using assms(2,3) by (simp_all add: new_ptr_def binds_def)
    then show ?thesis
      using free_prepared(2) [OF assms(1), of "sc_ptr sc"] assms(1)
      by (cases callback) (auto simp: Prep db_each_def db_prepare_def stmt_prepared_def known_def Let_def)
  qed (use assms(1) in \<open>simp_all add: db_each_def db_prepare_def\<close>)
  then show "callback \<noteq> None \<Longrightarrow> fst (db_each pr params callback db) = db"
    and "known (fst (db_each pr params callback db))" by blast+
qed

lemma db_prepare_known:
  assumes "known db" and "params \<longrightarrow> binds pr"
  shows "known (fst (db_prepare pr params db))"
  using assms by (auto simp: db_prepare_def known_def stmt_prepared_def binds_def Let_def split: prepared.split)

lemma stmt_free_known: "known db \<Longrightarrow> known (stmt_free p db)"
  by (auto simp: known_def stmt_free_def)

lemma db_call_known:
  assumes "known db" and "call_ok db c"
  shows "known (db_call c db)"
proof (cases c)
  case (Db_prepare pr params)
  then show ?thesis using db_prepare_known [OF assms(1), of params pr] assms(2) by (simp add: db_call_def call_ok_def)
next
  case (Db_free p)
  then show ?thesis using stmt_free_known [OF assms(1)] by (simp add: db_call_def)
next
  case (Db_run pr params r)
  then show ?thesis using db_run_state [OF assms(1), of params pr r] assms by (simp add: db_call_def call_ok_def)
next
  case (Db_exec n params prs)
  then show ?thesis using db_exec_state [OF assms(1), of params prs n] assms by (simp add: db_call_def call_ok_def)
next
  case (Db_each pr params callback)
  then show ?thesis using db_each_state(2) [OF assms(1), of params pr callback] assms(2)
    by (simp add: db_call_def call_ok_def)
qed

lemma db_runs_known: "db_runs db0 calls db \<Longrightarrow> known db0 \<Longrightarrow> known db"
  by (induction rule: db_runs.induct) (simp_all add: db_call_known)

lemma fold_stmt_free: "ds_live (fold stmt_free ps db) = ds_live db - set ps"
  by (induction ps arbitrary: db) (auto simp: stmt_free_def)

lemma close_live: "known db \<Longrightarrow> ds_live (db_close_statements db) = {}"
  by (simp add: db_close_statements_def fold_stmt_free known_def)

section \<open>Properties\<close>


definition ex_script :: "nat script" where
  "ex_script = \<lparr>sc_ptr = 7, sc_bind = None, sc_columns = [''a''], sc_rows = [1, 2], sc_end = Some (SqliteError 1)\<rparr>"

definition ex_db :: db_state where
  "ex_db = \<lparr>ds_open = True, ds_statements = [], ds_live = {}, ds_stack = 64\<rparr>"


text \<open>
  Where binding throws, \<open>prepare\<close>, and so \<open>run\<close> and \<open>each\<close>, and \<open>exec\<close>, leave a statement that the database
  does not know, and that \<open>close\<close> does not free.
\<close>

theorem bind_error_leaves_statement:
  "let sc = ex_script\<lparr>sc_bind := Some (SqliteError 25)\<rparr> in
   ds_live (db_close_statements (fst (db_run (Prep sc) True (Inr ()) ex_db))) = {7}
   \<and> ds_live (db_close_statements (fst (db_exec 9 True [Prep sc] ex_db))) = {7}"
  by (simp add: db_run_def db_exec_def db_prepare_def stmt_prepared_def db_close_statements_def ex_db_def
      ex_script_def Let_def)

end
