(* ===== verification/Base_Files.thy ===== *)
theory Base_Files
  imports Snapshot_Compare File_Storage Db_Header "HOL-Library.Multiset"
begin

text \<open>
  The databases on base files and the locks that keep these from being deleted: \<open>openOn\<close> of
  snapshots.ts, \<open>openBase\<close>, \<open>rebase\<close>, \<open>fork\<close> and \<open>close\<close> of Database.ts, over the registry \<open>Files\<close>
  of opfs.ts, whose release callbacks give the locks of a file back. SQLite's own outcomes are
  parameters.
\<close>

section \<open>State\<close>

text \<open>
  A database as the storage sees it: if it is closed (\<open>dbPtr\<close> is \<open>NULL\<close>), \<open>db.base\<close>, and the handle
  SQLite has open on its base file, by the id of the file.
\<close>

record base_db =
  bd_closed :: bool
  bd_base :: "base option"
  bd_handle :: "nat option"

text \<open>
  The registry of one Wasm module, \<open>nextFile\<close>, the keys whose locks the release callback of a file
  gives back, the shared locks on reading snapshots that are held, and the databases.
\<close>

record 'f realm =
  rm_files :: "'f js_files"
  rm_nextFile :: nat
  rm_locks :: "nat \<Rightarrow> string multiset"
  rm_held :: "string multiset"
  rm_dbs :: "(nat \<times> base_db) list"

definition realm_empty :: "'f realm" where
  "realm_empty = \<lparr>rm_files = js_empty, rm_nextFile = 0, rm_locks = (\<lambda>_. {#}), rm_held = {#}, rm_dbs = []\<rparr>"

section \<open>Locks and files\<close>

text \<open>\<open>hold\<close>: a shared lock on reading a snapshot; the request may fail.\<close>

definition hold :: "string \<Rightarrow> js_error option \<Rightarrow> 'f realm \<Rightarrow> 'f realm \<times> unit result" where
  "hold key failed st =
     (case failed of
        None \<Rightarrow> (st\<lparr>rm_held := add_mset key (rm_held st)\<rparr>, Inr ())
      | Some e \<Rightarrow> (st, Inl e))"

definition unhold :: "string multiset \<Rightarrow> 'f realm \<Rightarrow> 'f realm" where
  "unhold locks st = st\<lparr>rm_held := rm_held st - locks\<rparr>"

text \<open>An operation of \<open>Files\<close>, with the release callbacks it calls.\<close>

definition with_files :: "('f js_files \<Rightarrow> 'f js_files) \<Rightarrow> 'f realm \<Rightarrow> 'f realm" where
  "with_files g st =
     (let files = g (rm_files st);
          gone = drop (length (jf_released (rm_files st))) (jf_released files)
      in st\<lparr>rm_files := files, rm_held := rm_held st - sum_list (map (rm_locks st) gone)\<rparr>)"

definition add_file :: "string \<Rightarrow> 'f \<Rightarrow> string multiset \<Rightarrow> 'f realm \<Rightarrow> 'f realm" where
  "add_file name f locks st =
     st\<lparr>rm_files := js_add (rm_files st) name f True,
        rm_locks := (rm_locks st)(length (jf_files (rm_files st)) := locks)\<rparr>"

text \<open>What \<open>openOn\<close> and \<open>write\<close> do at last: nothing has opened the file, so it goes.\<close>

definition remove_unless_open :: "string \<Rightarrow> 'f realm \<Rightarrow> 'f realm" where
  "remove_unless_open name st =
     (if js_openHandles (rm_files st) name = 0 then with_files (\<lambda>files. js_remove files name) st else st)"

definition base_label :: "nat \<Rightarrow> string" where
  "base_label n = ''bases/'' @ digits n"

definition snapshot_file :: "nat \<Rightarrow> string \<Rightarrow> string" where
  "snapshot_file n key = ''snapshots/'' @ digits n @ ''/'' @ key"

section \<open>What SQLite does with the files\<close>

text \<open>
  SQLite opens a base file, or fails before it opened the file, or after (it then closes its handle).
\<close>

datatype open_outcome = Opens | Fails_before nat | Fails_after nat

definition vfs_open :: "string \<Rightarrow> open_outcome \<Rightarrow> 'f realm \<Rightarrow> 'f realm \<times> nat result" where
  "vfs_open name outcome st =
     (case outcome of
        Fails_before c \<Rightarrow> (st, Inl (SqliteError c))
      | _ \<Rightarrow>
          (case js_open (rm_files st) name of
             (files, i) \<Rightarrow>
               if i < 0 then (st, Inl (SqliteError SQLITE_CANTOPEN))
               else (let st' = st\<lparr>rm_files := files\<rparr>
                     in case outcome of
                          Fails_after c \<Rightarrow> (with_files (\<lambda>files. js_close files (nat i)) st', Inl (SqliteError c))
                        | _ \<Rightarrow> (st', Inr (nat i)))))"

definition close_handle :: "nat option \<Rightarrow> 'f realm \<Rightarrow> 'f realm" where
  "close_handle handle st =
     (case handle of None \<Rightarrow> st | Some i \<Rightarrow> with_files (\<lambda>files. js_close files i) st)"

section \<open>Databases\<close>

definition set_db :: "nat \<Rightarrow> base_db \<Rightarrow> 'f realm \<Rightarrow> 'f realm" where
  "set_db d x st = st\<lparr>rm_dbs := map_set d x (rm_dbs st)\<rparr>"

text \<open>\<open>new Database()\<close>: in memory.\<close>

definition new_db :: base_db where
  "new_db = \<lparr>bd_closed = False, bd_base = None, bd_handle = None\<rparr>"

definition is_open :: "'f realm \<Rightarrow> nat \<Rightarrow> bool" where
  "is_open st d = (case map_get (rm_dbs st) d of None \<Rightarrow> False | Some x \<Rightarrow> \<not> bd_closed x)"

definition base_of :: "'f realm \<Rightarrow> nat \<Rightarrow> base option" where
  "base_of st d = (case map_get (rm_dbs st) d of None \<Rightarrow> None | Some x \<Rightarrow> bd_base x)"

definition db_close :: "nat \<Rightarrow> 'f realm \<Rightarrow> 'f realm" where
  "db_close d st =
     (case map_get (rm_dbs st) d of
        None \<Rightarrow> st
      | Some x \<Rightarrow> close_handle (bd_handle x) (set_db d (x\<lparr>bd_closed := True, bd_handle := None\<rparr>) st))"

text \<open>
  \<open>openBase\<close> on a new database: one that fails is closed. Then \<open>rebase\<close>, with the assignment of
  \<open>db.base\<close> that follows it: the overlay opens the new file before it closes the old one.
\<close>

definition openBase :: "nat \<Rightarrow> string \<Rightarrow> open_outcome \<Rightarrow> 'f realm \<Rightarrow> 'f realm \<times> unit result" where
  "openBase d name outcome st =
     (case vfs_open name outcome st of
        (st', Inl e) \<Rightarrow> (set_db d (new_db\<lparr>bd_closed := True\<rparr>) st', Inl e)
      | (st', Inr i) \<Rightarrow> (set_db d (new_db\<lparr>bd_handle := Some i\<rparr>) st', Inr ()))"

definition rebase :: "nat \<Rightarrow> nat \<Rightarrow> string \<Rightarrow> base \<Rightarrow> open_outcome \<Rightarrow> 'f realm \<Rightarrow> 'f realm \<times> unit result" where
  "rebase d snap name target outcome st =
     (case map_get (rm_dbs st) d of
        None \<Rightarrow> (st, Inl (JsError ''Database closed''))
      | Some x \<Rightarrow>
          if bd_closed x \<or> \<not> is_open st snap then (st, Inl (JsError ''Database closed''))
          else (case vfs_open name outcome st of
                  (st', Inl e) \<Rightarrow> (st', Inl e)
                | (st', Inr i) \<Rightarrow>
                    (close_handle (bd_handle x)
                       (set_db d (x\<lparr>bd_handle := Some i, bd_base := Some target\<rparr>) st'), Inr ())))"

text \<open>
  \<open>fork\<close> opens the file by its name again, with a handle of its own; the pragmas that keep the size of
  the page cache may fail.
\<close>

definition name_of :: "'f js_files \<Rightarrow> nat \<Rightarrow> string" where
  "name_of files i = (case find (\<lambda>(_, j). j = i) (jf_ids files) of None \<Rightarrow> [] | Some (name, _) \<Rightarrow> name)"

definition fork_handle :: "nat option \<Rightarrow> open_outcome \<Rightarrow> 'f realm \<Rightarrow> 'f realm \<times> nat option result" where
  "fork_handle handle outcome st =
     (case handle of
        Some i \<Rightarrow> (case vfs_open (name_of (rm_files st) i) outcome st of
                    (st', r) \<Rightarrow> (st', and_then r (\<lambda>j. Inr (Some j))))
      | None \<Rightarrow> (case outcome of
                   Opens \<Rightarrow> (st, Inr None)
                 | Fails_before c \<Rightarrow> (st, Inl (SqliteError c))
                 | Fails_after c \<Rightarrow> (st, Inl (SqliteError c))))"

definition fork :: "nat \<Rightarrow> nat \<Rightarrow> bool \<Rightarrow> open_outcome \<Rightarrow> unit result \<Rightarrow> 'f realm \<Rightarrow> 'f realm \<times> unit result" where
  "fork d new writing outcome pragmas st =
     (case map_get (rm_dbs st) d of
        None \<Rightarrow> (st, Inl (JsError ''Database closed''))
      | Some x \<Rightarrow>
          if bd_closed x then (st, Inl (JsError ''Database closed''))
          else if writing then (st, Inl (JsError ''Cannot fork a database during a write transaction''))
          else (case fork_handle (bd_handle x) outcome st of
                  (st', Inl e) \<Rightarrow> (st', Inl e)
                | (st', Inr h) \<Rightarrow>
                    (let st'' = set_db new \<lparr>bd_closed = False, bd_base = bd_base x, bd_handle = h\<rparr> st'
                     in case pragmas of Inr _ \<Rightarrow> (st'', Inr ()) | Inl e \<Rightarrow> (db_close new st'', Inl e))))"

section \<open>openOn\<close>

text \<open>
  \<open>release\<close>, at most once: the registry called it if the file is gone.
\<close>

definition release_once :: "nat \<Rightarrow> 'f realm \<Rightarrow> 'f realm" where
  "release_once i st =
     (if i \<in> set (jf_released (rm_files st)) then st else unhold (rm_locks st i) st)"

text \<open>
  \<open>header\<close> is what reading the first bytes gives, \<open>created\<close> what \<open>new Database()\<close>, and \<open>schema\<close> what
  reading the schema and setting the size of the cache.
\<close>

definition open_on ::
  "nat \<Rightarrow> 'f \<Rightarrow> nat \<Rightarrow> string multiset \<Rightarrow> bytes result \<Rightarrow> unit result \<Rightarrow> open_outcome \<Rightarrow> unit result
   \<Rightarrow> 'f realm \<Rightarrow> 'f realm \<times> unit result" where
  "open_on d f n locks header created outcome schema st =
     (case and_then header (\<lambda>h. and_then (snapshot_checkHeader h n) (\<lambda>_. created)) of
        Inl e \<Rightarrow> (unhold locks st, Inl e)
      | Inr _ \<Rightarrow>
          (let label = base_label (rm_nextFile st);
               i = length (jf_files (rm_files st));
               st = set_db d new_db (st\<lparr>rm_nextFile := Suc (rm_nextFile st)\<rparr>);
               st = add_file label f locks st
           in case openBase d label outcome st of
                (st, opened) \<Rightarrow>
                  (let st = remove_unless_open label st
                   in case and_then opened (\<lambda>_. case schema of
                             Inl _ \<Rightarrow> Inl (SqliteError SQLITE_CORRUPT) | Inr _ \<Rightarrow> Inr ()) of
                        Inr _ \<Rightarrow> (st, Inr ())
                      | Inl e \<Rightarrow> (release_once i (db_close d st), Inl e))))"

text \<open>\<open>openSnapshot\<close>, once the snapshot is resolved: the locks are those of its keys.\<close>

definition open_base ::
  "nat \<Rightarrow> (base \<Rightarrow> 'f) \<Rightarrow> base \<Rightarrow> string list \<Rightarrow> bytes result \<Rightarrow> unit result \<Rightarrow> open_outcome \<Rightarrow> unit result
   \<Rightarrow> 'f realm \<Rightarrow> 'f realm \<times> unit result" where
  "open_base d file_of_base b held header created outcome schema st =
     (case open_on d (file_of_base b) (si_size (b_info b)) (mset held) header created outcome schema st of
        (st', Inl e) \<Rightarrow> (st', Inl e)
      | (st', Inr _) \<Rightarrow>
          (case map_get (rm_dbs st') d of
             None \<Rightarrow> (st', Inr ())
           | Some x \<Rightarrow> (set_db d (x\<lparr>bd_base := Some b\<rparr>) st', Inr ())))"

text \<open>
  \<open>openOverlay\<close> on a file whose size is \<open>getSize\<close>: its release closes the file. What that gives back, \<open>opened\<close>,
  counts among what is held, from when the file was opened.
\<close>

definition openOverlay ::
  "nat \<Rightarrow> 'f \<Rightarrow> nat result \<Rightarrow> string multiset \<Rightarrow> bytes result \<Rightarrow> unit result \<Rightarrow> open_outcome \<Rightarrow> unit result
   \<Rightarrow> 'f realm \<Rightarrow> 'f realm \<times> unit result" where
  "openOverlay d f getSize opened header created outcome schema st =
     (case getSize of
        Inl e \<Rightarrow> (unhold opened st, Inl e)
      | Inr n \<Rightarrow> open_on d f n opened header created outcome schema st)"

section \<open>The invariant\<close>

definition has_file :: "'f realm \<Rightarrow> nat \<Rightarrow> bool" where
  "has_file st i \<longleftrightarrow> map_has (jf_handles (rm_files st)) i"

text \<open>The locks that belong to a file that is there.\<close>

definition owned :: "'f realm \<Rightarrow> string multiset" where
  "owned st = (\<Sum>i \<in> dom (map_get (jf_handles (rm_files st))). rm_locks st i)"

definition names_fresh :: "'f realm \<Rightarrow> bool" where
  "names_fresh st \<longleftrightarrow> (\<forall>n \<ge> rm_nextFile st. map_get (jf_ids (rm_files st)) (base_label n) = None \<and>
     (\<forall>key. map_get (jf_ids (rm_files st)) (snapshot_file n key) = None))"

text \<open>
  SQLite has the handles \<open>held\<close> open, and the locks that are held are those of the files and \<open>extra\<close>,
  which operations that are under way hold.
\<close>

definition core :: "nat multiset \<Rightarrow> string multiset \<Rightarrow> 'f realm \<Rightarrow> bool" where
  "core held extra st \<longleftrightarrow>
     (\<exists>tracked hs. js_inv tracked hs (rm_files st) \<and> mset hs = held) \<and> names_fresh st
     \<and> rm_held st = extra + owned st \<and> map_ok (jf_ids (rm_files st))"

lemma coreE:
  assumes "core held extra st"
  obtains tracked hs where "js_inv tracked hs (rm_files st)" "mset hs = held" "names_fresh st"
    "rm_held st = extra + owned st" "map_ok (jf_ids (rm_files st))"
  using assms by (auto simp: core_def)

lemma coreI:
  "js_inv tracked hs (rm_files st) \<Longrightarrow> mset hs = held \<Longrightarrow> names_fresh st
   \<Longrightarrow> rm_held st = extra + owned st \<Longrightarrow> map_ok (jf_ids (rm_files st)) \<Longrightarrow> core held extra st"
  by (auto simp: core_def)

lemma core_count:
  assumes "core held extra st" and "map_get (jf_handles (rm_files st)) i = Some h"
  shows "hd_count h = int (count held i)" and "map_get (jf_ids (rm_files st)) (hd_name h) = Some i"
    and "i < length (jf_files (rm_files st))"
proof -
  obtain tracked hs where inv: "js_inv tracked hs (rm_files st)" and hs: "mset hs = held"
    using assms(1) by (rule coreE)
  show "hd_count h = int (count held i)" and id: "map_get (jf_ids (rm_files st)) (hd_name h) = Some i"
    using inv assms(2) hs by (auto simp: js_inv_def handles_ok_def count_mset)
  show "i < length (jf_files (rm_files st))"
    using inv names_okD(1) id by (auto simp: js_inv_def)
qed

lemma with_files_fields [simp]:
  "rm_files (with_files g st) = g (rm_files st)" "rm_locks (with_files g st) = rm_locks st"
  "rm_dbs (with_files g st) = rm_dbs st" "rm_nextFile (with_files g st) = rm_nextFile st"
  by (simp_all add: with_files_def Let_def)

lemma set_db_fields [simp]:
  "rm_files (set_db d x st) = rm_files st" "rm_locks (set_db d x st) = rm_locks st"
  "rm_nextFile (set_db d x st) = rm_nextFile st" "rm_held (set_db d x st) = rm_held st"
  "map_get (rm_dbs (set_db d x st)) = (map_get (rm_dbs st))(d \<mapsto> x)"
  by (simp_all add: set_db_def map_get_set)

lemma core_set_db [simp]: "core held extra (set_db d x st) = core held extra st"
  by (simp add: core_def names_fresh_def owned_def)

lemma has_file_set_db [simp]: "has_file (set_db d x st) = has_file st"
  by (simp add: has_file_def fun_eq_iff)

lemma label_inj [simp]:
  "base_label m = base_label n \<longleftrightarrow> m = n" "snapshot_file m k = snapshot_file n j \<longleftrightarrow> m = n \<and> k = j"
  "base_label m \<noteq> snapshot_file n k" "snapshot_file n k \<noteq> base_label m"
proof -
  show "base_label m = base_label n \<longleftrightarrow> m = n"
    using digits_inj [of m n] by (auto simp: base_label_def)
  show "snapshot_file m k = snapshot_file n j \<longleftrightarrow> m = n \<and> k = j"
    using key_inj [of m k n j] by (auto simp: snapshot_file_def)
qed (simp_all add: base_label_def snapshot_file_def)

section \<open>The operations of the registry keep it\<close>

lemma dom_finite [simp]: "finite (dom (map_get m))"
  by (rule finite_dom_map_of)

lemma core_add:
  assumes "core held (extra + locks) st" and "map_get (jf_ids (rm_files st)) name = None"
    and "\<exists>n. n < rm_nextFile st \<and> (name = base_label n \<or> (\<exists>key. name = snapshot_file n key))"
  shows "core held extra (add_file name f locks st)"
    and "has_file (add_file name f locks st) i \<longleftrightarrow> has_file st i \<or> i = length (jf_files (rm_files st))"
    and "\<not> has_file st (length (jf_files (rm_files st)))"
    and "count held (length (jf_files (rm_files st))) = 0"
proof -
  let ?n = "length (jf_files (rm_files st))"
  obtain tracked hs where inv: "js_inv tracked hs (rm_files st)" and hs: "mset hs = held"
    and fresh: "names_fresh st" and held: "rm_held st = extra + locks + owned st" and ok: "map_ok (jf_ids (rm_files st))"
    using assms(1) by (rule coreE)
  show new: "\<not> has_file st ?n"
    using core_count(3) [OF assms(1), of ?n] by (cases "map_get (jf_handles (rm_files st)) ?n") (simp_all add: has_file_def)
  show "count held ?n = 0"
    using inv hs by (auto simp: js_inv_def handles_ok_def count_eq_zero_iff)
  have dom: "dom (map_get (jf_handles (rm_files (add_file name f locks st))))
      = insert ?n (dom (map_get (jf_handles (rm_files st))))"
    by (simp add: add_file_def js_add_fields)
  then show "has_file (add_file name f locks st) i \<longleftrightarrow> has_file st i \<or> i = ?n"
    by (auto simp: has_file_def domIff)
  have other: "(\<Sum>i \<in> dom (map_get (jf_handles (rm_files st))). ((rm_locks st)(?n := locks)) i) = owned st"
    unfolding owned_def using new by (intro sum.cong) (auto simp: has_file_def)
  have "owned (add_file name f locks st) = locks + owned st"
    unfolding owned_def [of "add_file name f locks st"] dom using new other
    by (subst sum.insert) (auto simp: has_file_def add_file_def)
  then have "rm_held (add_file name f locks st) = extra + owned (add_file name f locks st)"
    using held by (simp add: add_file_def add.assoc)
  moreover have "names_fresh (add_file name f locks st)"
    using fresh assms(3) by (auto simp: names_fresh_def add_file_def js_add_fields)
  ultimately show "core held extra (add_file name f locks st)"
    using inv_add [OF inv assms(2), of True f] hs ok
    by (intro coreI) (auto simp: add_file_def js_add_def Let_def)
qed

lemma core_fresh: "core held extra st \<Longrightarrow> names_fresh st"
  by (simp add: core_def)

text \<open>Removing a file, with the callback of its release.\<close>

lemma remove_effect:
  assumes "map_get (jf_ids files) name = Some i"
    and "map_has (jf_handles (rm_files st)) i \<longleftrightarrow> map_has (jf_handles files) i"
    and "dom (map_get (jf_handles files)) = dom (map_get (jf_handles (rm_files st)))"
    and "jf_released files = jf_released (rm_files st)"
    and "rm_held st = extra + owned st" and "\<And>fs. fs = rm_files st \<Longrightarrow> g fs = js_remove files name"
  shows "rm_held (with_files g st) = extra + owned (with_files g st)"
    and "has_file (with_files g st) j \<longleftrightarrow> has_file st j \<and> j \<noteq> i"
proof -
  let ?H = "dom (map_get (jf_handles (rm_files st)))"
  note f = js_remove_fields [OF assms(1)]
  have dom: "dom (map_get (jf_handles (rm_files (with_files g st)))) = ?H - {i}"
    using f(3) assms(3,6) by simp
  then show "has_file (with_files g st) j \<longleftrightarrow> has_file st j \<and> j \<noteq> i"
    by (auto simp: has_file_def)
  have gone: "drop (length (jf_released (rm_files st))) (jf_released (g (rm_files st))) = (if i \<in> ?H then [i] else [])"
    using f(4) assms(2,4,6) by (auto simp: domIff)
  have "rm_held (with_files g st) = rm_held st - (if i \<in> ?H then rm_locks st i else {#})"
    by (simp add: with_files_def Let_def gone)
  moreover have "owned st = (if i \<in> ?H then rm_locks st i else {#}) + owned (with_files g st)"
    unfolding owned_def dom by (simp add: sum.remove)
  ultimately show "rm_held (with_files g st) = extra + owned (with_files g st)"
    using assms(5) by simp
qed

lemma map_ok_remove: "map_ok (jf_ids files) \<Longrightarrow> map_ok (jf_ids (js_remove files name))"
  by (simp add: js_remove_def Let_def split: option.split)

lemma map_ok_close: "map_ok (jf_ids files) \<Longrightarrow> map_ok (jf_ids (js_close files i))"
  by (simp add: js_close_def map_ok_remove Let_def split: option.split)

lemma core_remove:
  fixes st :: "'f realm" and name :: string
  assumes "core held extra st"
  defines "st' \<equiv> with_files (\<lambda>files. js_remove files name) st"
  shows "core held extra st'"
    and "has_file st' j \<longleftrightarrow> has_file st j \<and> map_get (jf_ids (rm_files st)) name \<noteq> Some j"
proof -
  obtain tracked hs where inv: "js_inv tracked hs (rm_files st)" and hs: "mset hs = held"
    and fresh: "names_fresh st" and held: "rm_held st = extra + owned st" and ok: "map_ok (jf_ids (rm_files st))"
    using assms(1) by (rule coreE)
  have "rm_held st' = extra + owned st' \<and>
    (has_file st' j \<longleftrightarrow> has_file st j \<and> map_get (jf_ids (rm_files st)) name \<noteq> Some j)"
  proof (cases "map_get (jf_ids (rm_files st)) name")
    case None
    then have "st' = st" by (simp add: st'_def with_files_def Let_def js_remove_none)
    then show ?thesis using held None by simp
  next
    case (Some i)
    show ?thesis
      using remove_effect [OF Some refl refl refl held, of "\<lambda>files. js_remove files name"] Some
      by (auto simp: st'_def)
  qed
  moreover have "names_fresh st'"
  proof (cases "map_get (jf_ids (rm_files st)) name")
    case None
    then show ?thesis using fresh by (simp add: st'_def names_fresh_def js_remove_none)
  next
    case (Some i)
    then show ?thesis using fresh by (simp add: st'_def names_fresh_def js_remove_fields)
  qed
  ultimately show "core held extra st'"
    and "has_file st' j \<longleftrightarrow> has_file st j \<and> map_get (jf_ids (rm_files st)) name \<noteq> Some j"
    using inv_remove_name [OF inv, of name] hs map_ok_remove [OF ok, of name]
    by (auto intro!: coreI simp: st'_def)
qed

text \<open>Closing a handle, and with the last one of a file, removing it.\<close>

lemma js_remove_ids:
  "map_get (jf_ids (js_remove files name)) m = (if m = name then None else map_get (jf_ids files) m)"
  by (cases "map_get (jf_ids files) name") (simp_all add: js_remove_none js_remove_fields)

lemma js_close_ids:
  "map_get (jf_ids (js_close files i)) name = map_get (jf_ids files) name
   \<or> map_get (jf_ids (js_close files i)) name = None"
  by (simp add: js_close_def js_remove_ids Let_def split: option.split)

text \<open>\<open>name\<close> is the file's while that is there.\<close>

definition named :: "'f realm \<Rightarrow> string \<Rightarrow> nat \<Rightarrow> bool" where
  "named st name i \<longleftrightarrow> map_get (jf_ids (rm_files st)) name = (if has_file st i then Some i else None)"

lemma core_close:
  fixes st :: "'f realm"
  assumes "core held extra st" and "i \<in># held"
  defines "st' \<equiv> with_files (\<lambda>files. js_close files i) st"
  shows "core (held - {#i#}) extra st'"
    and "has_file st' j \<longleftrightarrow> has_file st j \<and> (j = i \<longrightarrow> 1 < count held i)"
proof -
  obtain tracked hs where inv: "js_inv tracked hs (rm_files st)" and hs: "mset hs = held"
    and fresh: "names_fresh st" and held: "rm_held st = extra + owned st" and ok: "map_ok (jf_ids (rm_files st))"
    using assms(1) by (rule coreE)
  have "rm_held st' = extra + owned st' \<and>
    (has_file st' j \<longleftrightarrow> has_file st j \<and> (j = i \<longrightarrow> 1 < count held i))"
  proof (cases "map_get (jf_handles (rm_files st)) i")
    case None
    then have "st' = st" by (simp add: st'_def with_files_def Let_def js_close_def)
    then show ?thesis using held None by (auto simp: has_file_def)
  next
    case (Some h)
    note cnt = core_count [OF assms(1) Some]
    let ?files = "rm_files st\<lparr>jf_handles := map_set i (h\<lparr>hd_count := hd_count h - 1\<rparr>) (jf_handles (rm_files st))\<rparr>"
    have dom: "dom (map_get (jf_handles ?files)) = dom (map_get (jf_handles (rm_files st)))"
      using Some by (auto simp: map_get_set)
    show ?thesis
    proof (cases "count held i = 1")
      case True
      then have "js_close (rm_files st) i = js_remove ?files (hd_name h)"
        using Some cnt(1) by (simp add: js_close_def Let_def)
      then have eq: "fs = rm_files st \<Longrightarrow> js_close fs i = js_remove ?files (hd_name h)" for fs by simp
      have "map_get (jf_ids ?files) (hd_name h) = Some i" "jf_released ?files = jf_released (rm_files st)"
        "map_has (jf_handles (rm_files st)) i \<longleftrightarrow> map_has (jf_handles ?files) i"
        using cnt(2) Some by (simp_all add: map_get_set)
      note rem = remove_effect [where g = "\<lambda>files. js_close files i", OF this(1,3) dom this(2) held eq]
      show ?thesis using rem True by (simp add: st'_def)
    next
      case False
      then have "js_close (rm_files st) i = ?files"
        using Some cnt(1) by (simp add: js_close_def Let_def)
      moreover have "1 < count held i" using False assms(2) by (metis One_nat_def Suc_lessI count_greater_zero_iff)
      ultimately show ?thesis
        using held dom by (auto simp: st'_def with_files_def Let_def owned_def has_file_def map_get_set)
    qed
  qed
  moreover have "names_fresh st'"
    using fresh js_close_ids [of "rm_files st" i] unfolding names_fresh_def st'_def
    by (metis with_files_fields(1,4))
  moreover have "i \<in> set hs" using assms(2) hs by auto
  then have "js_inv tracked (remove1 i hs) (rm_files st')" "mset (remove1 i hs) = held - {#i#}"
    using inv_close_handle [OF inv] hs by (auto simp: st'_def)
  moreover have "map_ok (jf_ids (rm_files st'))" using map_ok_close [OF ok] by (simp add: st'_def)
  ultimately show "core (held - {#i#}) extra st'"
    and "has_file st' j \<longleftrightarrow> has_file st j \<and> (j = i \<longrightarrow> 1 < count held i)"
    by (blast intro: coreI)+
qed

lemma named_close:
  assumes "core held extra st" and "i \<in># held" and "named st name j"
  shows "named (with_files (\<lambda>files. js_close files i) st) name j"
proof (cases "map_get (jf_handles (rm_files st)) i")
  case None
  then have "with_files (\<lambda>files. js_close files i) st = st" by (simp add: with_files_def Let_def js_close_def)
  then show ?thesis using assms(3) by simp
next
  case (Some h)
  note cnt = core_count [OF assms(1) Some] and has = core_close(2) [OF assms(1,2)]
  obtain tracked hs where inv: "js_inv tracked hs (rm_files st)" using assms(1) by (rule coreE)
  have ids: "map_get (jf_ids (js_close (rm_files st) i)) m =
      (if count held i = 1 \<and> m = hd_name h then None else map_get (jf_ids (rm_files st)) m)" for m
    using Some cnt(1) by (simp add: js_close_def js_remove_ids Let_def)
  have i: "has_file st i" using Some by (simp add: has_file_def)
  have only: "map_get (jf_ids (rm_files st)) name = Some i \<longleftrightarrow> name = hd_name h"
    using inv cnt(2) by (auto simp: js_inv_def names_ok_def)
  have "count held i = 1 \<or> 1 < count held i"
    using assms(2) not_in_iff [of i held] by linarith
  then show ?thesis using assms(3) has [of j] ids [of name] i only by (auto simp: named_def)
qed

text \<open>Opening by a name.\<close>

lemma js_open_fields:
  assumes "js_open files name = (files', i)"
  shows "jf_ids files' = jf_ids files" "jf_released files' = jf_released files" "jf_files files' = jf_files files"
    "dom (map_get (jf_handles files')) = dom (map_get (jf_handles files))"
    "0 \<le> i \<Longrightarrow> map_get (jf_ids files) name = Some (nat i)" "i < 0 \<Longrightarrow> files' = files"
  using assms by (auto simp: js_open_def map_get_set split: option.splits if_splits)

lemma core_open:
  assumes "core held extra st" and "js_open (rm_files st) name = (files, i)" and "0 \<le> i"
  shows "core (add_mset (nat i) held) extra (st\<lparr>rm_files := files\<rparr>)"
    and "has_file (st\<lparr>rm_files := files\<rparr>) j \<longleftrightarrow> has_file st j"
proof -
  obtain tracked hs where inv: "js_inv tracked hs (rm_files st)" and hs: "mset hs = held"
    and fresh: "names_fresh st" and held: "rm_held st = extra + owned st" and ok: "map_ok (jf_ids (rm_files st))"
    using assms(1) by (rule coreE)
  note f = js_open_fields [OF assms(2)]
  have "js_inv tracked (nat i # hs) files" using inv_open [OF inv assms(2)] assms(3) by simp
  then show "core (add_mset (nat i) held) extra (st\<lparr>rm_files := files\<rparr>)"
    using hs fresh held f ok by (intro coreI) (auto simp: names_fresh_def owned_def)
  show "has_file (st\<lparr>rm_files := files\<rparr>) j \<longleftrightarrow> has_file st j"
    using f(4) by (auto simp: has_file_def domIff)
qed

text \<open>What a step may change of the files: those that still have a handle stay.\<close>

lemma vfs_open_effect:
  assumes "core held extra st" and "vfs_open name outcome st = (st', r)"
  shows "rm_dbs st' = rm_dbs st" and "rm_locks st' = rm_locks st" and "rm_nextFile st' = rm_nextFile st"
    and "r = Inr i \<Longrightarrow> core (add_mset i held) extra st' \<and> map_get (jf_ids (rm_files st)) name = Some i
      \<and> (\<forall>j. has_file st' j \<longleftrightarrow> has_file st j) \<and> jf_ids (rm_files st') = jf_ids (rm_files st)"
    and "r = Inl e \<Longrightarrow> core held extra st' \<and> (\<forall>j. has_file st' j \<longrightarrow> has_file st j)
      \<and> (\<forall>m j. named st m j \<longrightarrow> named st' m j)
      \<and> (\<forall>j. has_file st j \<longrightarrow> 0 < count held j \<or> map_get (jf_ids (rm_files st)) name \<noteq> Some j \<longrightarrow> has_file st' j)"
proof -
  obtain files k where open': "js_open (rm_files st) name = (files, k)" by fastforce
  note o = core_open [OF assms(1) open'] and f = js_open_fields [OF open']
  let ?st = "st\<lparr>rm_files := files\<rparr>"
  have cl: "core held extra (with_files (\<lambda>files. js_close files (nat k)) ?st) \<and>
    (\<forall>j. has_file (with_files (\<lambda>files. js_close files (nat k)) ?st) j \<longleftrightarrow>
      has_file st j \<and> (j = nat k \<longrightarrow> 0 < count held (nat k)))" if "0 \<le> k"
    using core_close [OF o(1) [OF that], of "nat k"] o(2) [OF that] by simp
  show "rm_dbs st' = rm_dbs st" "rm_locks st' = rm_locks st" "rm_nextFile st' = rm_nextFile st"
    using assms(2) open' by (auto simp: vfs_open_def Let_def split: open_outcome.splits if_splits)
  show "core (add_mset i held) extra st' \<and> map_get (jf_ids (rm_files st)) name = Some i
      \<and> (\<forall>j. has_file st' j \<longleftrightarrow> has_file st j) \<and> jf_ids (rm_files st') = jf_ids (rm_files st)" if "r = Inr i"
  proof -
    have "0 \<le> k" "st' = ?st" "i = nat k"
      using assms(2) open' that by (auto simp: vfs_open_def Let_def split: open_outcome.splits if_splits)
    then show ?thesis using o f by simp
  qed
  show "core held extra st' \<and> (\<forall>j. has_file st' j \<longrightarrow> has_file st j)
      \<and> (\<forall>m j. named st m j \<longrightarrow> named st' m j)
      \<and> (\<forall>j. has_file st j \<longrightarrow> 0 < count held j \<or> map_get (jf_ids (rm_files st)) name \<noteq> Some j \<longrightarrow> has_file st' j)"
    if "r = Inl e"
  proof (cases "st' = st")
    case False
    then have "0 \<le> k" "st' = with_files (\<lambda>files. js_close files (nat k)) ?st"
      using assms(2) open' that by (auto simp: vfs_open_def Let_def split: open_outcome.splits if_splits)
    moreover have "named st m j \<Longrightarrow> named ?st m j" for m j
      using f o(2) \<open>0 \<le> k\<close> by (simp add: named_def)
    ultimately show ?thesis using cl f(5) named_close [OF o(1)] by auto
  qed (use assms(1) in simp)
qed

section \<open>The databases\<close>

definition handle_mset :: "nat option \<Rightarrow> nat multiset" where
  "handle_mset h = (case h of None \<Rightarrow> {#} | Some i \<Rightarrow> {#i#})"

lemma handle_mset_simps [simp]: "handle_mset None = {#}" "handle_mset (Some i) = {#i#}"
  by (simp_all add: handle_mset_def)

definition handles_of :: "(nat \<times> base_db) list \<Rightarrow> nat multiset" where
  "handles_of m = (\<Sum>d \<in> dom (map_get m). handle_mset (bd_handle (the (map_get m d))))"

text \<open>
  An open database on a snapshot reads a file that is there, whose release gives the locks on all the
  keys of the snapshot back.
\<close>

definition db_ok :: "'f realm \<Rightarrow> base_db \<Rightarrow> bool" where
  "db_ok st x \<longleftrightarrow>
     (if bd_closed x then bd_handle x = None
      else \<forall>b. bd_base x = Some b \<longrightarrow>
        (\<exists>i. bd_handle x = Some i \<and> has_file st i \<and> mset (b_keys b) \<subseteq># rm_locks st i))"

text \<open>Every file but those of \<open>X\<close>, which are being opened, is read by a database.\<close>

definition realm_inv :: "nat set \<Rightarrow> string multiset \<Rightarrow> 'f realm \<Rightarrow> bool" where
  "realm_inv X extra st \<longleftrightarrow> core (handles_of (rm_dbs st)) extra st
     \<and> (\<forall>i. has_file st i \<longrightarrow> i \<in> X \<or> i \<in># handles_of (rm_dbs st))
     \<and> (\<forall>d x. map_get (rm_dbs st) d = Some x \<longrightarrow> db_ok st x)"

lemma realm_invD:
  assumes "realm_inv X extra st"
  shows "core (handles_of (rm_dbs st)) extra st"
    and "has_file st i \<Longrightarrow> i \<in> X \<or> i \<in># handles_of (rm_dbs st)"
    and "map_get (rm_dbs st) d = Some x \<Longrightarrow> db_ok st x"
  using assms by (auto simp: realm_inv_def)

lemma handles_of_set:
  "handles_of (map_set d x m) + (case map_get m d of None \<Rightarrow> {#} | Some y \<Rightarrow> handle_mset (bd_handle y))
   = handles_of m + handle_mset (bd_handle x)"
proof -
  let ?h = "\<lambda>m d. handle_mset (bd_handle (the (map_get m d)))"
  let ?D = "dom (map_get m) - {d}"
  have "handles_of (map_set d x m) = handle_mset (bd_handle x) + (\<Sum>e \<in> ?D. ?h (map_set d x m) e)"
    unfolding handles_of_def by (subst sum.remove [of _ d]) (simp_all add: map_get_set)
  also have "(\<Sum>e \<in> ?D. ?h (map_set d x m) e) = (\<Sum>e \<in> ?D. ?h m e)"
    by (rule sum.cong) (auto simp: map_get_set)
  finally have new: "handles_of (map_set d x m) = handle_mset (bd_handle x) + (\<Sum>e \<in> ?D. ?h m e)" .
  show ?thesis
  proof (cases "map_get m d")
    case None
    then show ?thesis using new by (simp add: handles_of_def domIff)
  next
    case (Some y)
    then have "handles_of m = handle_mset (bd_handle y) + (\<Sum>e \<in> ?D. ?h m e)"
      unfolding handles_of_def by (subst sum.remove [of _ d]) auto
    then show ?thesis using new Some by simp
  qed
qed

lemma handles_of_get: "map_get m d = Some x \<Longrightarrow> bd_handle x = Some i \<Longrightarrow> i \<in># handles_of m"
  unfolding handles_of_def by (subst sum.remove [of _ d]) auto

lemma handles_of_none: "(\<And>d x. map_get m d = Some x \<Longrightarrow> bd_handle x = None) \<Longrightarrow> handles_of m = {#}"
  unfolding handles_of_def by (intro sum.neutral) auto

lemma set_db_dbs [simp]: "rm_dbs (set_db d x st) = map_set d x (rm_dbs st)"
  by (simp add: set_db_def)

lemma close_handle_fields [simp]:
  "rm_dbs (close_handle h st) = rm_dbs st" "rm_locks (close_handle h st) = rm_locks st"
  "rm_nextFile (close_handle h st) = rm_nextFile st"
  by (simp_all add: close_handle_def split: option.splits)

lemma named_set_db [simp]: "named (set_db d x st) name i = named st name i"
  by (simp add: named_def)

text \<open>
  A database gets another record, with the handle SQLite opened for it if there is one, and then its
  old handle is closed.
\<close>

lemma replace_db:
  assumes "map_get (rm_dbs st) d = Some x"
    and "core (handles_of (rm_dbs st) + handle_mset (bd_handle x')) extra st"
    and "\<And>i. has_file st i \<Longrightarrow> i \<in> X \<or> i \<in># handles_of (rm_dbs st) + handle_mset (bd_handle x')"
    and "\<And>e y. e \<noteq> d \<Longrightarrow> map_get (rm_dbs st) e = Some y \<Longrightarrow> db_ok st y" and "db_ok st x'"
  defines "st' \<equiv> close_handle (bd_handle x) (set_db d x' st)"
  shows "realm_inv X extra st'" and "named st name j \<Longrightarrow> named st' name j"
proof -
  let ?st = "set_db d x' st"
  have sum: "handles_of (rm_dbs ?st) + handle_mset (bd_handle x)
      = handles_of (rm_dbs st) + handle_mset (bd_handle x')"
    using handles_of_set [of d x' "rm_dbs st"] assms(1) by simp
  have c: "core (handles_of (rm_dbs ?st) + handle_mset (bd_handle x)) extra ?st"
    unfolding sum using assms(2) by simp
  have dbs: "db_ok ?st y" if "map_get (rm_dbs ?st) e = Some y" for e y
    using that assms(4,5) by (auto simp: db_ok_def map_get_set split: if_splits)
  have read: "i \<in># handles_of (rm_dbs ?st)"
    if "map_get (rm_dbs ?st) e = Some y" "bd_handle y = Some i" for e y i
    using that by (rule handles_of_get)
  have files: "i \<in> X \<or> i \<in># handles_of (rm_dbs ?st) + handle_mset (bd_handle x)" if "has_file ?st i" for i
    using assms(3) [of i] that unfolding sum by simp
  have "realm_inv X extra st' \<and> (named st name j \<longrightarrow> named st' name j)"
  proof (cases "bd_handle x")
    case None
    then have "st' = ?st" by (simp add: st'_def close_handle_def)
    then show ?thesis using c dbs files None unfolding realm_inv_def by simp
  next
    case (Some i)
    then have st': "st' = with_files (\<lambda>files. js_close files i) ?st" by (simp add: st'_def close_handle_def)
    have c: "core (add_mset i (handles_of (rm_dbs ?st))) extra ?st" using c Some by simp
    note cl = core_close [OF c, of i] named_close [OF c, of i name j]
    have has: "has_file st' k \<longleftrightarrow> has_file ?st k \<and> (k = i \<longrightarrow> i \<in># handles_of (rm_dbs ?st))" for k
      using cl(2) by (simp add: st')
    have "db_ok st' y" if "map_get (rm_dbs st') e = Some y" for e y
    proof -
      have y: "map_get (rm_dbs ?st) e = Some y" using that by (simp add: st')
      then show ?thesis using dbs [OF y] has read [OF y] by (auto simp: db_ok_def st' split: if_splits)
    qed
    moreover have "k \<in> X \<or> k \<in># handles_of (rm_dbs st')" if "has_file st' k" for k
      using that has files [of k] Some by (auto simp: st')
    moreover have "core (handles_of (rm_dbs st')) extra st'" using cl(1) by (simp add: st')
    ultimately show ?thesis
      using cl(3) unfolding realm_inv_def by (auto simp: st')
  qed
  then show "realm_inv X extra st'" and "named st name j \<Longrightarrow> named st' name j" by simp_all
qed

lemma db_close_inv:
  assumes "realm_inv X extra st"
  shows "realm_inv X extra (db_close d st)" and "named st name j \<Longrightarrow> named (db_close d st) name j"
proof -
  have "realm_inv X extra (db_close d st) \<and> (named st name j \<longrightarrow> named (db_close d st) name j)"
  proof (cases "map_get (rm_dbs st) d")
    case None
    then show ?thesis using assms by (simp add: db_close_def)
  next
    case (Some x)
    note r = replace_db [OF Some, of "x\<lparr>bd_closed := True, bd_handle := None\<rparr>" extra X]
    show ?thesis
      using r realm_invD [OF assms] Some by (simp add: db_close_def) (simp add: db_ok_def)
  qed
  then show "realm_inv X extra (db_close d st)" and "named st name j \<Longrightarrow> named (db_close d st) name j"
    by simp_all
qed

text \<open>A new database.\<close>

lemma add_db:
  assumes "map_get (rm_dbs st) d = None"
    and "core (handles_of (rm_dbs st) + handle_mset (bd_handle x)) extra st"
    and "\<And>i. has_file st i \<Longrightarrow> i \<in> X \<or> i \<in># handles_of (rm_dbs st) + handle_mset (bd_handle x)"
    and "\<And>e y. map_get (rm_dbs st) e = Some y \<Longrightarrow> db_ok st y" and "db_ok st x"
  shows "realm_inv X extra (set_db d x st)"
proof -
  have "handles_of (rm_dbs (set_db d x st)) = handles_of (rm_dbs st) + handle_mset (bd_handle x)"
    using handles_of_set [of d x "rm_dbs st"] assms(1) by simp
  moreover have "db_ok (set_db d x st) y" if "map_get (rm_dbs (set_db d x st)) e = Some y" for e y
    using that assms(4,5) by (auto simp: db_ok_def map_get_set split: if_splits)
  ultimately show ?thesis using assms(2,3) unfolding realm_inv_def by auto
qed

lemma remove_unless_open_inv:
  assumes "realm_inv {i} extra st" and "named st name i"
  shows "realm_inv {} extra (remove_unless_open name st)"
    and "rm_dbs (remove_unless_open name st) = rm_dbs st" and "rm_locks (remove_unless_open name st) = rm_locks st"
    and "has_file (remove_unless_open name st) i \<longleftrightarrow> i \<in># handles_of (rm_dbs st) \<and> has_file st i"
proof -
  note inv = realm_invD [OF assms(1)]
  show f: "rm_dbs (remove_unless_open name st) = rm_dbs st" "rm_locks (remove_unless_open name st) = rm_locks st"
    by (simp_all add: remove_unless_open_def)
  have zero: "js_openHandles (rm_files st) name = (if has_file st i then int (count (handles_of (rm_dbs st)) i) else 0)"
    using assms(2) core_count(1) [OF inv(1), of i]
    by (auto simp: js_openHandles_def named_def has_file_def split: option.splits)
  have "realm_inv {} extra (remove_unless_open name st) \<and>
    (has_file (remove_unless_open name st) i \<longleftrightarrow> i \<in># handles_of (rm_dbs st) \<and> has_file st i)"
  proof (cases "has_file st i \<and> i \<in># handles_of (rm_dbs st)")
    case True
    then have "js_openHandles (rm_files st) name \<noteq> 0" by (metis not_in_iff of_nat_eq_0_iff zero)
    then have "remove_unless_open name st = st" by (simp add: remove_unless_open_def)
    then show ?thesis using assms(1) True by (auto simp: realm_inv_def)
  next
    case False
    then have st': "remove_unless_open name st = with_files (\<lambda>files. js_remove files name) st"
      using zero not_in_iff [of i "handles_of (rm_dbs st)"] by (auto simp: remove_unless_open_def)
    note rem = core_remove [OF inv(1), of name]
    have has: "has_file (remove_unless_open name st) k \<longleftrightarrow> has_file st k \<and> k \<noteq> i" for k
      using rem(2) assms(2) by (auto simp: st' named_def)
    have "db_ok (remove_unless_open name st) x" if x: "map_get (rm_dbs st) d = Some x" for d x
      using inv(3) [OF x] has handles_of_get [OF x] False by (auto simp: db_ok_def f split: if_splits)
    then show ?thesis
      using rem(1) has inv(2) False unfolding realm_inv_def f by (auto simp: st')
  qed
  then show "realm_inv {} extra (remove_unless_open name st)"
    and "has_file (remove_unless_open name st) i \<longleftrightarrow> i \<in># handles_of (rm_dbs st) \<and> has_file st i"
    by simp_all
qed

lemma set_base_inv:
  assumes "realm_inv X extra st" and "map_get (rm_dbs st) d = Some x"
    and "bd_handle x' = bd_handle x" and "db_ok st x'"
  shows "realm_inv X extra (set_db d x' st)"
proof -
  note inv = realm_invD [OF assms(1)]
  have h: "handles_of (rm_dbs (set_db d x' st)) = handles_of (rm_dbs st)"
    using handles_of_set [of d x' "rm_dbs st"] assms(2,3) by simp
  have "db_ok (set_db d x' st) y" if "map_get (rm_dbs (set_db d x' st)) e = Some y" for e y
    using that inv(3) [of e y] assms(4) by (auto simp: db_ok_def map_get_set split: if_splits)
  then show ?thesis using inv(1,2) unfolding realm_inv_def h by auto
qed

lemma vfs_open_failed:
  assumes "realm_inv X extra st" and "vfs_open name outcome st = (st', Inl e)"
  shows "realm_inv X extra st'"
proof -
  note inv = realm_invD [OF assms(1)]
  note ef = vfs_open_effect [OF inv(1) assms(2)]
  have eff: "core (handles_of (rm_dbs st)) extra st'" "\<And>j. has_file st' j \<Longrightarrow> has_file st j"
    "\<And>j. has_file st j \<Longrightarrow> j \<in># handles_of (rm_dbs st) \<Longrightarrow> has_file st' j"
    using ef(5) [OF refl] unfolding count_greater_zero_iff by blast+
  have "db_ok st' x" if x: "map_get (rm_dbs st) d = Some x" for d x
    using inv(3) [OF x] eff(3) handles_of_get [OF x] ef(2) by (auto simp: db_ok_def split: if_splits)
  then show ?thesis using eff inv(2) unfolding realm_inv_def ef(1) by auto
qed

lemma rebase_inv:
  assumes "realm_inv {i} extra st" and "named st file i" and "mset (b_keys target) \<subseteq># rm_locks st i"
    and "rebase d snap file target outcome st = (st', r)"
  shows "realm_inv {i} extra st'" and "named st' file i" and "rm_locks st' = rm_locks st"
    and "r = Inl e \<Longrightarrow> rm_dbs st' = rm_dbs st"
    and "r = Inr u \<Longrightarrow> \<exists>x. map_get (rm_dbs st) d = Some x \<and> \<not> bd_closed x \<and>
      rm_dbs st' = map_set d (x\<lparr>bd_handle := Some i, bd_base := Some target\<rparr>) (rm_dbs st)"
proof -
  note inv = realm_invD [OF assms(1)]
  have "realm_inv {i} extra st' \<and> named st' file i \<and> rm_locks st' = rm_locks st \<and>
    (case r of Inl _ \<Rightarrow> rm_dbs st' = rm_dbs st
     | Inr _ \<Rightarrow> \<exists>x. map_get (rm_dbs st) d = Some x \<and> \<not> bd_closed x \<and>
         rm_dbs st' = map_set d (x\<lparr>bd_handle := Some i, bd_base := Some target\<rparr>) (rm_dbs st))"
  proof (cases "map_get (rm_dbs st) d")
    case None
    then show ?thesis using assms by (auto simp: rebase_def)
  next
    case (Some x)
    show ?thesis
    proof (cases "bd_closed x \<or> \<not> is_open st snap")
      case True
      then show ?thesis using assms Some by (auto simp: rebase_def)
    next
      case open': False
      obtain st1 r1 where v: "vfs_open file outcome st = (st1, r1)" by fastforce
      note ef = vfs_open_effect [OF inv(1) v]
      show ?thesis
      proof (cases r1)
        case (Inl e)
        then have "st' = st1" "r = Inl e" using assms(4) Some open' v by (auto simp: rebase_def)
        then show ?thesis
          using vfs_open_failed [OF assms(1)] v Inl ef(1,2,5) assms(2) by auto
      next
        case (Inr k)
        let ?x = "x\<lparr>bd_handle := Some i, bd_base := Some target\<rparr>"
        have k: "k = i" "has_file st i"
          using ef(4) [OF Inr] assms(2) by (auto simp: named_def split: if_splits)
        have st': "st' = close_handle (bd_handle x) (set_db d ?x st1)" "r = Inr ()"
          using assms(4) Some open' v Inr k(1) by (auto simp: rebase_def)
        have eff: "core (handles_of (rm_dbs st) + handle_mset (bd_handle ?x)) extra st1"
          "\<And>j. has_file st1 j \<longleftrightarrow> has_file st j" "named st1 file i"
          using ef(4) [OF Inr] k assms(2) by (auto simp: named_def)
        have same: "db_ok st1 y \<longleftrightarrow> db_ok st y" for y
          by (simp add: db_ok_def eff(2) ef(2))
        have x': "db_ok st1 ?x" using assms(3) k(2) open' by (auto simp: db_ok_def eff(2) ef(2))
        have dbs: "map_get (rm_dbs st1) d = Some x" using Some ef(1) by simp
        have pos: "has_file st1 j \<Longrightarrow> j \<in> {i} \<or> j \<in># handles_of (rm_dbs st1) + handle_mset (bd_handle ?x)" for j
          using inv(2) by (auto simp: eff(2) ef(1))
        have others: "map_get (rm_dbs st1) e = Some y \<Longrightarrow> db_ok st1 y" for e y
          using inv(3) by (auto simp: same ef(1))
        note rep = replace_db(1) [where x' = ?x and X = "{i}" and extra = extra, OF dbs _ pos others x']
          replace_db(2) [where x' = ?x and X = "{i}" and extra = extra and name = "file" and j = i, OF dbs _ pos others x']
        show ?thesis
          using rep eff(1,3) Some open' by (simp add: st' ef(1,2))
      qed
    qed
  qed
  then show "realm_inv {i} extra st'" and "named st' file i" and "rm_locks st' = rm_locks st"
    and "r = Inl e \<Longrightarrow> rm_dbs st' = rm_dbs st"
    and "r = Inr u \<Longrightarrow> \<exists>x. map_get (rm_dbs st) d = Some x \<and> \<not> bd_closed x \<and>
      rm_dbs st' = map_set d (x\<lparr>bd_handle := Some i, bd_base := Some target\<rparr>) (rm_dbs st)"
    by auto
qed

lemma name_of_file:
  assumes "core held extra st" and "has_file st i"
  shows "map_get (jf_ids (rm_files st)) (name_of (rm_files st) i) = Some i"
proof -
  obtain h where h: "map_get (jf_handles (rm_files st)) i = Some h" using assms(2) by (auto simp: has_file_def)
  have mem: "(hd_name h, i) \<in> set (jf_ids (rm_files st))"
    using core_count(2) [OF assms(1) h] by (rule map_of_SomeD)
  then have "find (\<lambda>(_, j). j = i) (jf_ids (rm_files st)) \<noteq> None" by (auto simp: find_None_iff)
  then obtain name j where f: "find (\<lambda>(_, j). j = i) (jf_ids (rm_files st)) = Some (name, j)" by auto
  then have "j = i \<and> (name, j) \<in> set (jf_ids (rm_files st))" unfolding find_Some_iff using nth_mem by fastforce
  then have "(name, i) \<in> set (jf_ids (rm_files st))" by metis
  moreover have "map_ok (jf_ids (rm_files st))" using assms(1) by (rule coreE)
  ultimately show ?thesis using f by (simp add: name_of_def map_ok_def)
qed

lemma fork_inv:
  assumes "realm_inv {} extra st" and "map_get (rm_dbs st) new = None"
    and "fork d new writing outcome pragmas st = (st', r)"
  shows "realm_inv {} extra st'"
proof (cases "map_get (rm_dbs st) d")
  case None
  then show ?thesis using assms by (auto simp: fork_def)
next
  case (Some x)
  note inv = realm_invD [OF assms(1)]
  show ?thesis
  proof (cases "bd_closed x \<or> writing")
    case True
    then show ?thesis using assms Some by (auto simp: fork_def split: if_splits)
  next
    case False
    obtain st1 r1 where f: "fork_handle (bd_handle x) outcome st = (st1, r1)" by fastforce
    show ?thesis
    proof (cases r1)
      case (Inl e)
      then have "realm_inv {} extra st1"
        using f assms(1) vfs_open_failed [OF assms(1)]
        by (auto simp: fork_handle_def and_then_def split: option.splits open_outcome.splits prod.splits sum.splits)
      then show ?thesis using assms(3) Some False f Inl by (auto simp: fork_def)
    next
      case (Inr h)
      let ?y = "\<lparr>bd_closed = False, bd_base = bd_base x, bd_handle = h\<rparr>"
      have "core (handles_of (rm_dbs st) + handle_mset h) extra st1 \<and> rm_dbs st1 = rm_dbs st
        \<and> rm_locks st1 = rm_locks st \<and> (\<forall>j. has_file st1 j \<longleftrightarrow> has_file st j)
        \<and> (case bd_handle x of None \<Rightarrow> h = None | Some i \<Rightarrow> h \<noteq> None \<and> (has_file st i \<longrightarrow> h = Some i))"
      proof (cases "bd_handle x")
        case None
        then show ?thesis
          using f Inr inv(1) by (auto simp: fork_handle_def split: open_outcome.splits)
      next
        case (Some i)
        obtain st2 r2 where v: "vfs_open (name_of (rm_files st) i) outcome st = (st2, r2)" by fastforce
        then obtain k where k: "r2 = Inr k" "h = Some k" "st2 = st1"
          using f Inr Some by (auto simp: fork_handle_def and_then_eq_Inr)
        note ef = vfs_open_effect [OF inv(1) v]
        show ?thesis using ef(1,2) ef(4) [OF k(1)] name_of_file [OF inv(1)] k(2,3) Some by auto
      qed
      then have eff: "core (handles_of (rm_dbs st) + handle_mset h) extra st1" "rm_dbs st1 = rm_dbs st"
        "rm_locks st1 = rm_locks st" "\<And>j. has_file st1 j \<longleftrightarrow> has_file st j"
        and h: "\<And>i. bd_handle x = Some i \<Longrightarrow> has_file st i \<Longrightarrow> h = Some i"
        by auto
      have same: "db_ok st1 y \<longleftrightarrow> db_ok st y" for y by (simp add: db_ok_def eff(3,4))
      have new: "db_ok st1 ?y" using inv(3) [OF Some] h False unfolding same by (auto simp: db_ok_def)
      have "realm_inv {} extra (set_db new ?y st1)"
        using add_db [of st1 new ?y extra "{}"] assms(2) eff(1) inv(2,3) new by (simp add: eff(2,4) same)
      then show ?thesis
        using assms(3) Some False f Inr db_close_inv(1) by (auto simp: fork_def Let_def split: sum.splits)
    qed
  qed
qed

lemma set_held [simp]:
  "has_file (st\<lparr>rm_held := x\<rparr>) = has_file st" "db_ok (st\<lparr>rm_held := x\<rparr>) = db_ok st"
  "owned (st\<lparr>rm_held := x\<rparr>) = owned st" "names_fresh (st\<lparr>rm_held := x\<rparr>) = names_fresh st"
  "named (st\<lparr>rm_held := x\<rparr>) = named st"
  by (simp_all add: has_file_def db_ok_def owned_def names_fresh_def named_def fun_eq_iff)

lemma set_held_inv:
  assumes "realm_inv X extra st" and "new = extra' + owned st"
  shows "realm_inv X extra' (st\<lparr>rm_held := new\<rparr>)"
  using assms by (simp add: realm_inv_def core_def)

lemma hold_inv:
  assumes "realm_inv X extra st" and "hold key failed st = (st', r)"
  shows "realm_inv X (if r = Inr () then add_mset key extra else extra) st'"
proof (cases failed)
  case None
  have "rm_held st = extra + owned st" using assms(1) by (simp add: realm_inv_def core_def)
  then have "realm_inv X (add_mset key extra) (st\<lparr>rm_held := add_mset key (rm_held st)\<rparr>)"
    by (intro set_held_inv [OF assms(1)]) simp
  then show ?thesis using assms(2) None by (auto simp: hold_def)
qed (use assms in \<open>auto simp: hold_def\<close>)

lemma unhold_inv: "realm_inv X (extra + locks) st \<Longrightarrow> realm_inv X extra (unhold locks st)"
  unfolding unhold_def by (rule set_held_inv) (auto simp: realm_inv_def core_def)

section \<open>Opening a database\<close>

text \<open>A file that was added is there, or its release was called.\<close>

definition settled :: "'f realm \<Rightarrow> nat \<Rightarrow> bool" where
  "settled st i \<longleftrightarrow> has_file st i \<or> i \<in> set (jf_released (rm_files st))"

lemma settled_remove: "settled st i \<Longrightarrow> settled (with_files (\<lambda>files. js_remove files name) st) i"
  by (auto simp: settled_def has_file_def js_remove_def Let_def map_get_delete split: option.splits)

lemma settled_close: "settled st i \<Longrightarrow> settled (with_files (\<lambda>files. js_close files k) st) i"
  by (auto simp: settled_def has_file_def js_close_def js_remove_def Let_def map_get_delete map_get_set
      split: option.splits)

lemma settled_set_db [simp]: "settled (set_db d x st) i = settled st i"
  by (simp add: settled_def)

lemma settled_close_handle: "settled st i \<Longrightarrow> settled (close_handle h st) i"
  by (auto simp: close_handle_def intro: settled_close split: option.split)

lemma settled_vfs_open:
  assumes "settled st i" and "vfs_open name outcome st = (st', r)"
  shows "settled st' i"
proof -
  obtain files k where open': "js_open (rm_files st) name = (files, k)" by fastforce
  have "settled (st\<lparr>rm_files := files\<rparr>) i"
    using assms(1) js_open_fields(2,4) [OF open'] by (auto simp: settled_def has_file_def domIff)
  then show ?thesis
    using assms open' settled_close
    by (auto simp: vfs_open_def Let_def split: open_outcome.splits if_splits)
qed

lemma settled_db_close: "settled st i \<Longrightarrow> settled (db_close d st) i"
  by (auto simp: db_close_def intro!: settled_close_handle split: option.split)

lemma settled_unless_open: "settled st i \<Longrightarrow> settled (remove_unless_open name st) i"
  by (simp add: remove_unless_open_def settled_remove)

lemma db_close_get: "map_get (rm_dbs (db_close d st)) e =
    (if e = d then map_option (\<lambda>x. x\<lparr>bd_closed := True, bd_handle := None\<rparr>) (map_get (rm_dbs st) d)
     else map_get (rm_dbs st) e)"
  by (auto simp: db_close_def map_get_set split: option.split)

text \<open>
  The file of a new database, from when it is added to when SQLite has opened it or not.
\<close>

lemma add_file_inv:
  fixes st :: "'f realm" and f :: 'f
  assumes "realm_inv {} (extra + locks) st" and "map_get (jf_ids (rm_files st)) name = None"
    and "\<exists>n. n < rm_nextFile st \<and> (name = base_label n \<or> (\<exists>key. name = snapshot_file n key))"
  defines "i \<equiv> length (jf_files (rm_files st))" and "st' \<equiv> add_file name f locks st"
  shows "realm_inv {i} extra st'" and "named st' name i" and "rm_locks st' i = locks" and "settled st' i"
    and "rm_dbs st' = rm_dbs st" and "i \<notin># handles_of (rm_dbs st)"
proof -
  note inv = realm_invD [OF assms(1)]
  note add = core_add(1,2) [OF inv(1) assms(2,3), of f] core_add(3,4) [OF inv(1) assms(2,3)]
  show f: "rm_dbs st' = rm_dbs st" "rm_locks st' i = locks"
    by (simp_all add: st'_def add_file_def i_def)
  have has: "has_file st' i" using add(2) by (simp add: st'_def i_def)
  then show "settled st' i" by (simp add: settled_def)
  show "named st' name i" using has by (simp add: named_def st'_def add_file_def js_add_fields i_def)
  show "i \<notin># handles_of (rm_dbs st)" using add(4) by (simp add: not_in_iff i_def)
  have "db_ok st' x" if x: "map_get (rm_dbs st) d = Some x" for d x
  proof (cases "bd_closed x")
    case True
    then show ?thesis using inv(3) [OF x] by (simp add: db_ok_def)
  next
    case False
    have "\<exists>k. bd_handle x = Some k \<and> has_file st' k \<and> mset (b_keys b) \<subseteq># rm_locks st' k" if b: "bd_base x = Some b" for b
    proof -
      obtain k where k: "bd_handle x = Some k" "has_file st k" "mset (b_keys b) \<subseteq># rm_locks st k"
        using inv(3) [OF x] False b by (auto simp: db_ok_def)
      then have "k \<noteq> i" using add(3) by (auto simp: i_def)
      then show ?thesis using k add(2) by (auto simp: st'_def add_file_def i_def)
    qed
    then show ?thesis using False by (simp add: db_ok_def)
  qed
  moreover have "k \<in> {i} \<or> k \<in># handles_of (rm_dbs st)" if "has_file st' k" for k
    using that add(2) inv(2) by (auto simp: st'_def i_def)
  ultimately show "realm_inv {i} extra st'"
    using add(1) by (simp add: realm_inv_def f) (simp add: st'_def)
qed

lemma openBase_inv:
  assumes "realm_inv {i} extra st" and "named st name i" and "map_get (rm_dbs st) d = Some new_db"
    and "openBase d name outcome st = (st', r)"
  shows "realm_inv {i} extra st'" and "named st' name i" and "rm_locks st' = rm_locks st"
    and "map_get (rm_dbs st') = (map_get (rm_dbs st))
      (d \<mapsto> case r of Inl _ \<Rightarrow> new_db\<lparr>bd_closed := True\<rparr> | Inr _ \<Rightarrow> new_db\<lparr>bd_handle := Some i\<rparr>)"
    and "r = Inr u \<Longrightarrow> has_file st i \<and> has_file st' i"
proof -
  note inv = realm_invD [OF assms(1)]
  obtain st1 r1 where v: "vfs_open name outcome st = (st1, r1)" by fastforce
  note ef = vfs_open_effect [OF inv(1) v]
  have close: "close_handle (bd_handle new_db) s = s" for s :: "'a realm" by (simp add: close_handle_def new_db_def)
  have d: "map_get (rm_dbs st1) d = Some new_db" using assms(3) ef(1) by simp
  have "realm_inv {i} extra st' \<and> named st' name i \<and> rm_locks st' = rm_locks st \<and>
    map_get (rm_dbs st') = (map_get (rm_dbs st))
      (d \<mapsto> case r of Inl _ \<Rightarrow> new_db\<lparr>bd_closed := True\<rparr> | Inr _ \<Rightarrow> new_db\<lparr>bd_handle := Some i\<rparr>) \<and>
    (\<forall>u. r = Inr u \<longrightarrow> has_file st i \<and> has_file st' i)"
  proof (cases r1)
    case (Inl e)
    let ?x = "new_db\<lparr>bd_closed := True\<rparr>"
    have st': "st' = set_db d ?x st1" "r = Inl e" using assms(4) v Inl by (auto simp: openBase_def)
    have i1: "realm_inv {i} extra st1" by (rule vfs_open_failed [OF assms(1)]) (use v Inl in simp)
    have "named st1 name i" using ef(5) [OF Inl] assms(2) by blast
    moreover have "realm_inv {i} extra (set_db d ?x st1)"
      by (rule set_base_inv [OF i1 d]) (simp_all add: new_db_def db_ok_def)
    ultimately show ?thesis by (simp add: st' ef(1,2) map_get_set)
  next
    case (Inr k)
    let ?x = "new_db\<lparr>bd_handle := Some i\<rparr>"
    have k: "k = i" "has_file st i"
      using ef(4) [OF Inr] assms(2) by (auto simp: named_def split: if_splits)
    have st': "st' = set_db d ?x st1" "r = Inr ()" using assms(4) v Inr k(1) by (auto simp: openBase_def)
    have eff: "core (handles_of (rm_dbs st1) + handle_mset (bd_handle ?x)) extra st1"
      "\<And>j. has_file st1 j \<longleftrightarrow> has_file st j" "named st1 name i"
      using ef(1) ef(4) [OF Inr] k assms(2) by (auto simp: named_def)
    have same: "db_ok st1 y \<longleftrightarrow> db_ok st y" for y by (simp add: db_ok_def eff(2) ef(2))
    have others: "map_get (rm_dbs st1) e = Some y \<Longrightarrow> db_ok st1 y" for e y
      using inv(3) by (auto simp: same ef(1))
    have pos: "has_file st1 j \<Longrightarrow> j \<in> {i} \<or> j \<in># handles_of (rm_dbs st1) + handle_mset (bd_handle ?x)" for j
      using inv(2) by (auto simp: eff(2) ef(1))
    have "db_ok st1 ?x" by (simp add: db_ok_def new_db_def)
    then have "realm_inv {i} extra (close_handle (bd_handle new_db) (set_db d ?x st1))"
      by (intro replace_db(1) [OF d eff(1) pos others])
    then show ?thesis
      using eff k by (simp add: st' close ef(1,2) map_get_set)
  qed
  then show "realm_inv {i} extra st'" and "named st' name i" and "rm_locks st' = rm_locks st"
    and "map_get (rm_dbs st') = (map_get (rm_dbs st))
      (d \<mapsto> case r of Inl _ \<Rightarrow> new_db\<lparr>bd_closed := True\<rparr> | Inr _ \<Rightarrow> new_db\<lparr>bd_handle := Some i\<rparr>)"
    and "r = Inr u \<Longrightarrow> has_file st i \<and> has_file st' i"
    by simp_all
qed

lemma next_label:
  "core held extra st \<Longrightarrow> map_get (jf_ids (rm_files st)) (base_label (rm_nextFile st)) = None"
  "core held extra st \<Longrightarrow> map_get (jf_ids (rm_files st)) (snapshot_file (rm_nextFile st) key) = None"
  using core_fresh [of held extra st] by (auto simp: names_fresh_def)

lemma set_next [simp]:
  "has_file (st\<lparr>rm_nextFile := n\<rparr>) = has_file st" "db_ok (st\<lparr>rm_nextFile := n\<rparr>) = db_ok st"
  "owned (st\<lparr>rm_nextFile := n\<rparr>) = owned st"
  by (simp_all add: has_file_def db_ok_def owned_def fun_eq_iff)

lemma next_file_inv:
  assumes "realm_inv X extra st"
  shows "realm_inv X extra (st\<lparr>rm_nextFile := Suc (rm_nextFile st)\<rparr>)"
proof -
  have "names_fresh st \<Longrightarrow> names_fresh (st\<lparr>rm_nextFile := Suc (rm_nextFile st)\<rparr>)"
    by (simp add: names_fresh_def)
  then show ?thesis
    using assms by (simp add: realm_inv_def core_def)
qed

lemma release_once_gone: "settled st i \<Longrightarrow> \<not> has_file st i \<Longrightarrow> release_once i st = st"
  by (simp add: settled_def release_once_def)

lemma open_on_inv:
  assumes "realm_inv {} (extra + locks) st" and "map_get (rm_dbs st) d = None"
    and "open_on d f n locks header created outcome schema st = (st', r)"
  shows "realm_inv {} extra st'" and "e \<noteq> d \<Longrightarrow> map_get (rm_dbs st') e = map_get (rm_dbs st) e"
    and "r = Inr u \<Longrightarrow> \<exists>i. map_get (rm_dbs st') d = Some (new_db\<lparr>bd_handle := Some i\<rparr>) \<and>
      has_file st' i \<and> rm_locks st' i = locks"
    and "r = Inl err \<Longrightarrow> \<not> is_open st' d"
proof -
  let ?G = "\<lambda>st' r. realm_inv {} extra st' \<and> (\<forall>e. e \<noteq> d \<longrightarrow> map_get (rm_dbs st') e = map_get (rm_dbs st) e)
    \<and> (case r of Inr _ \<Rightarrow> \<exists>i. map_get (rm_dbs st') d = Some (new_db\<lparr>bd_handle := Some i\<rparr>) \<and>
         has_file st' i \<and> rm_locks st' i = locks
       | Inl _ \<Rightarrow> \<not> is_open st' d)"
  define pre where "pre = and_then header (\<lambda>h. and_then (snapshot_checkHeader h n) (\<lambda>_. created))"
  have "?G st' r"
  proof (cases pre)
    case (Inl e)
    then have "st' = unhold locks st" "r = Inl e" using assms(3) by (auto simp: open_on_def pre_def)
    then show ?thesis using unhold_inv [OF assms(1)] assms(2) by (simp add: unhold_def is_open_def)
  next
    case (Inr v)
    define label i where "label = base_label (rm_nextFile st)" and "i = length (jf_files (rm_files st))"
    define st1 where "st1 = set_db d new_db (st\<lparr>rm_nextFile := Suc (rm_nextFile st)\<rparr>)"
    define st2 where "st2 = add_file label f locks st1"
    obtain st3 opened where ob: "openBase d label outcome st2 = (st3, opened)" by fastforce
    define st4 where "st4 = remove_unless_open label st3"
    define fin where "fin = and_then opened (\<lambda>_. case schema of
      Inl _ \<Rightarrow> Inl (SqliteError SQLITE_CORRUPT) | Inr _ \<Rightarrow> Inr ())"
    have st': "(st', r) = (case fin of Inr _ \<Rightarrow> (st4, Inr ()) | Inl e \<Rightarrow> (release_once i (db_close d st4), Inl e))"
      using assms(3) Inr ob
      unfolding open_on_def pre_def [symmetric] label_def i_def st1_def st2_def st4_def fin_def Let_def
      by simp
    have st0: "realm_inv {} (extra + locks) (st\<lparr>rm_nextFile := Suc (rm_nextFile st)\<rparr>)"
      by (rule next_file_inv [OF assms(1)])
    have inv1: "realm_inv {} (extra + locks) st1"
      unfolding st1_def using realm_invD [OF st0] assms(2)
      by (intro add_db) (simp_all add: new_db_def db_ok_def)
    have i: "i = length (jf_files (rm_files st1))" by (simp add: i_def st1_def)
    have free: "map_get (jf_ids (rm_files st1)) label = None"
      using next_label(1) realm_invD(1) [OF assms(1)] by (auto simp: st1_def label_def)
    have used: "\<exists>m. m < rm_nextFile st1 \<and> (label = base_label m \<or> (\<exists>key. label = snapshot_file m key))"
      by (rule exI [of _ "rm_nextFile st"]) (simp add: st1_def label_def)
    note add = add_file_inv(1-5) [OF inv1 free used, of f, folded i st2_def]
      add_file_inv(6) [OF inv1 free used, folded i]
    have d2: "map_get (rm_dbs st2) d = Some new_db" using add(5) by (simp add: st1_def)
    note opn = openBase_inv [OF add(1,2) d2 ob]
    note rem = remove_unless_open_inv [OF opn(1,2), folded st4_def]
    have "settled st3 i"
      using ob settled_vfs_open [OF add(4)] by (auto simp: openBase_def split: prod.splits sum.splits)
    then have settled: "settled st4 i" unfolding st4_def by (rule settled_unless_open)
    have others: "e \<noteq> d \<Longrightarrow> map_get (rm_dbs st4) e = map_get (rm_dbs st) e" for e
      using opn(4) add(5) by (simp add: rem(2) st1_def)
    have gone: "?G (release_once i (db_close d st4)) (Inl e)" for e
    proof -
      have inv4: "realm_inv {} extra (db_close d st4)" using rem(1) by (rule db_close_inv(1))
      let ?dbs = "rm_dbs (db_close d st4)"
      have "handles_of ?dbs + handle_mset (case opened of Inl _ \<Rightarrow> None | Inr _ \<Rightarrow> Some i)
        = handles_of (rm_dbs st4)"
        using handles_of_set [of d _ "rm_dbs st4"] opn(4)
        by (auto simp: db_close_def rem(2) new_db_def split: sum.splits)
      moreover have "handles_of (rm_dbs st4) = handles_of (rm_dbs st2) + handle_mset (case opened of Inl _ \<Rightarrow> None | Inr _ \<Rightarrow> Some i)"
      proof -
        have "rm_dbs st4 = map_set d (case opened of Inl _ \<Rightarrow> new_db\<lparr>bd_closed := True\<rparr> | Inr _ \<Rightarrow> new_db\<lparr>bd_handle := Some i\<rparr>) (rm_dbs st2)"
          using ob vfs_open_effect(1,4) [OF realm_invD(1) [OF add(1)]] add(2)
          by (auto simp: rem(2) openBase_def named_def split: prod.splits sum.splits if_splits)
        then show ?thesis
          using handles_of_set [of d _ "rm_dbs st2"] d2 by (auto simp: new_db_def split: sum.splits)
      qed
      ultimately have "i \<notin># handles_of ?dbs" using add(5,6) by simp
      then have "\<not> has_file (db_close d st4) i" using realm_invD(2) [OF inv4] by auto
      then have "release_once i (db_close d st4) = db_close d st4"
        using release_once_gone settled_db_close [OF settled] by blast
      then show ?thesis using inv4 others by (auto simp: db_close_get is_open_def split: option.split)
    qed
    have ok: "?G st4 (Inr ())" if fine: "fin = Inr v" for v
    proof -
      obtain u where u: "opened = Inr u" using fine by (cases opened) (auto simp: fin_def)
      have d4: "map_get (rm_dbs st4) d = Some (new_db\<lparr>bd_handle := Some i\<rparr>)" using opn(4) u by (simp add: rem(2))
      then have "i \<in># handles_of (rm_dbs st3)" using handles_of_get [of "rm_dbs st4" d] by (simp add: rem(2))
      then have "has_file st4 i" using rem(4) opn(5) [OF u] by simp
      then show ?thesis using rem(1,3) others d4 opn(3) add(3) by auto
    qed
    show ?thesis using st' gone ok by (cases fin) auto
  qed
  then show "realm_inv {} extra st'" and "e \<noteq> d \<Longrightarrow> map_get (rm_dbs st') e = map_get (rm_dbs st) e"
    and "r = Inr u \<Longrightarrow> \<exists>i. map_get (rm_dbs st') d = Some (new_db\<lparr>bd_handle := Some i\<rparr>) \<and>
      has_file st' i \<and> rm_locks st' i = locks"
    and "r = Inl err \<Longrightarrow> \<not> is_open st' d"
    by auto
qed

lemma open_base_inv:
  assumes "realm_inv {} (extra + mset held) st" and "map_get (rm_dbs st) d = None" and "held = b_keys b"
    and "open_base d file_of_base b held header created outcome schema st = (st', r)"
  shows "realm_inv {} extra st'"
proof -
  obtain st1 r1 where o: "open_on d (file_of_base b) (si_size (b_info b)) (mset held) header created outcome schema st
      = (st1, r1)" by fastforce
  note opn = open_on_inv [OF assms(1,2) o]
  show ?thesis
  proof (cases r1)
    case (Inl e)
    then show ?thesis using assms(4) o opn(1) by (simp add: open_base_def)
  next
    case (Inr u)
    obtain i where i: "map_get (rm_dbs st1) d = Some (new_db\<lparr>bd_handle := Some i\<rparr>)" "has_file st1 i"
      "rm_locks st1 i = mset held"
      using opn(3) [OF Inr] by blast
    have "realm_inv {} extra (set_db d (new_db\<lparr>bd_handle := Some i, bd_base := Some b\<rparr>) st1)"
      using i assms(3) by (intro set_base_inv [OF opn(1) i(1)]) (simp_all add: db_ok_def new_db_def)
    then show ?thesis using assms(4) o Inr i(1) by (auto simp: open_base_def)
  qed
qed

end
