(* ===== verification/Save_Write.thy ===== *)
theory Save_Write
  imports Base_Files Snapshot_Storage
begin

text \<open>
  \<open>SnapshotStorage.write\<close> of snapshots.ts: the lock on the key, what the store writes, the locks on the
  snapshots below, and moving the database and the snapshots that wait onto what was written. What
  other code does while \<open>write\<close> awaits is a parameter, as are the outcomes of the store, of the locks
  and of SQLite.
\<close>

section \<open>The operation\<close>

text \<open>\<open>SaveResult\<close>\<close>

datatype save_status = Save_written | Save_joined | Save_mismatch

record save_result =
  sr_status :: save_status
  sr_snapshot :: "snapshot_info option"

text \<open>Written as a delta, and in full if its parent is gone by then; \<open>again\<close> marks the second call.\<close>

definition store_twice ::
  "(bool \<Rightarrow> new_snapshot \<Rightarrow> stored_snapshot option result) \<Rightarrow> new_snapshot
   \<Rightarrow> (new_snapshot \<times> stored_snapshot option) result" where
  "store_twice store s =
     (case store False s of
        Inr w \<Rightarrow> Inr (s, w)
      | Inl e \<Rightarrow>
          if ns_delta s = None \<or> e \<noteq> SqliteError SQLITE_CANTOPEN then Inl e
          else (let full = s\<lparr>ns_delta := None\<rparr> in and_then (store True full) (\<lambda>w. Inr (full, w))))"

text \<open>\<open>holdAll\<close>; \<open>between i\<close> is what runs while the \<open>i\<close>-th lock is awaited.\<close>

primrec hold_all ::
  "(nat \<Rightarrow> 'f realm \<Rightarrow> 'f realm) \<Rightarrow> (nat \<Rightarrow> js_error option) \<Rightarrow> nat \<Rightarrow> string list \<Rightarrow> string multiset
   \<Rightarrow> 'f realm \<Rightarrow> 'f realm \<times> string multiset result" where
  "hold_all between fails i [] acc st = (st, Inr acc)"
| "hold_all between fails i (key # keys) acc st =
     (case hold key (fails i) (between i st) of
        (st', Inl e) \<Rightarrow> (unhold acc st', Inl e)
      | (st', Inr _) \<Rightarrow> hold_all between fails (Suc i) keys (add_mset key acc) st')"

text \<open>The snapshots that wait and read what \<open>snap\<close> reads; an error leaves one where it is.\<close>

primrec move_waiting ::
  "(nat \<Rightarrow> open_outcome) \<Rightarrow> nat \<Rightarrow> base option \<Rightarrow> string \<Rightarrow> base \<Rightarrow> nat list \<Rightarrow> 'f realm \<Rightarrow> 'f realm" where
  "move_waiting outcome snap from_base name target [] st = st"
| "move_waiting outcome snap from_base name target (later # rest) st =
     move_waiting outcome snap from_base name target rest
       (if later = snap \<or> base_of st later \<noteq> from_base then st
        else fst (rebase later snap name target (outcome later) st))"

text \<open>From adding the file on, which is one synchronous piece of the code.\<close>

definition write_finish ::
  "(base \<Rightarrow> 'f) \<Rightarrow> nat \<Rightarrow> nat \<Rightarrow> nat list \<Rightarrow> (nat \<Rightarrow> open_outcome) \<Rightarrow> string \<Rightarrow> base \<Rightarrow> string multiset
   \<Rightarrow> 'f realm \<Rightarrow> 'f realm \<times> unit result" where
  "write_finish file_of_base db snap waiting outcome key target locks st =
     (let from_base = base_of st snap;
          name = snapshot_file (rm_nextFile st) key;
          st1 = add_file name (file_of_base target) locks (st\<lparr>rm_nextFile := Suc (rm_nextFile st)\<rparr>)
      in case (if is_open st1 db \<and> base_of st1 db = from_base
               then rebase db snap name target (outcome db) st1 else (st1, Inr ())) of
           (st2, Inl e) \<Rightarrow> (remove_unless_open name st2, Inl e)
         | (st2, Inr _) \<Rightarrow>
             (remove_unless_open name (move_waiting outcome snap from_base name target waiting st2), Inr ()))"

text \<open>
  What the operation meets: what other code does at each await, the locks, the store's \<open>write\<close>, what
  the store holds at each read of \<open>existing\<close>, SQLite's outcomes, the heap and the pages of the snapshot,
  and the number of the next new object.
\<close>

record 'f write_env =
  we_between :: "nat \<Rightarrow> 'f realm \<Rightarrow> 'f realm"
  we_hold :: "nat \<Rightarrow> js_error option"
  we_store :: "bool \<Rightarrow> new_snapshot \<Rightarrow> stored_snapshot option result"
  we_reads :: "nat \<Rightarrow> stored_map"
  we_open :: "nat \<Rightarrow> open_outcome"
  we_heap :: bytes
  we_pages :: pages_held
  we_aligned :: bool
  we_object :: nat

text \<open>The new snapshot as a layer, and the locks on those it lies over.\<close>

definition written_base :: "nat \<Rightarrow> stored_snapshot \<Rightarrow> base option \<Rightarrow> base" where
  "written_base n written from_base =
     baseOf (Layer n written (if st_delta written = None then None else map_option b_layer from_base))"

definition hold_below :: "'f write_env \<Rightarrow> stored_snapshot \<Rightarrow> base option \<Rightarrow> 'f realm
    \<Rightarrow> 'f realm \<times> string multiset result" where
  "hold_below env written from_base st =
     (case (st_delta written, from_base) of
        (Some _, Some b) \<Rightarrow>
          hold_all (\<lambda>i. we_between env (2 + i)) (\<lambda>i. we_hold env (1 + i)) 0 (b_keys b) {#} st
      | _ \<Rightarrow> (st, Inr {#}))"

definition saved :: "save_status \<Rightarrow> base \<Rightarrow> 'f realm \<times> unit result \<Rightarrow> 'f realm \<times> save_result result" where
  "saved status target r =
     (case r of (st, res) \<Rightarrow>
        (st, and_then res (\<lambda>_. Inr \<lparr>sr_status = status, sr_snapshot = infoOf (Some target)\<rparr>)))"

definition save_write ::
  "'f write_env \<Rightarrow> (base \<Rightarrow> 'f) \<Rightarrow> nat \<Rightarrow> nat \<Rightarrow> nat \<Rightarrow> nat list \<Rightarrow> string \<Rightarrow> string \<Rightarrow> snapshot_meta
   \<Rightarrow> 'f realm \<Rightarrow> 'f realm \<times> save_result result" where
  "save_write env file_of_base maxDepth db snap waiting key branch meta st =
     (case hold key (we_hold env 0) (we_between env 0 st) of
        (st, Inl e) \<Rightarrow> (st, Inl e)
      | (st, Inr _) \<Rightarrow>
          (case and_then (newSnapshot (we_heap env) (we_pages env) (base_of st snap) key branch meta maxDepth)
                  (store_twice (we_store env)) of
             Inl e \<Rightarrow> (unhold {#key#} (we_between env 1 st), Inl e)
           | Inr (s, w) \<Rightarrow>
               (let st = we_between env 1 st;
                    from_base = base_of st snap
                in case w of
                     Some written \<Rightarrow>
                       (case hold_below env written from_base st of
                          (st, Inl e) \<Rightarrow> (unhold {#key#} st, Inl e)
                        | (st, Inr below) \<Rightarrow>
                            (let target = written_base (we_object env) written from_base
                             in saved Save_written target
                                  (write_finish file_of_base db snap waiting (we_open env) key target
                                     (add_mset key below) st)))
                   | None \<Rightarrow>
                       (let st = we_between env 2 st
                        in case existing_of (we_object env) (we_reads env) (we_aligned env) (we_heap env)
                                  (we_pages env) from_base key of
                             Move b held \<Rightarrow>
                               saved Save_joined b
                                 (write_finish file_of_base db snap waiting (we_open env) key b (mset held)
                                    (unhold {#key#} (st\<lparr>rm_held := rm_held st + mset held\<rparr>)))
                           | Joined i \<Rightarrow>
                               (unhold {#key#} st, Inr \<lparr>sr_status = Save_joined, sr_snapshot = i\<rparr>)
                           | Mismatch i \<Rightarrow>
                               (unhold {#key#} st, Inr \<lparr>sr_status = Save_mismatch, sr_snapshot = i\<rparr>)))))"

section \<open>Moving databases\<close>

lemma rebase_dbs:
  assumes "realm_inv {i} extra st" and "named st name i" and "mset (b_keys target) \<subseteq># rm_locks st i"
    and "rebase later snap name target outcome st = (st', r)"
  shows "base_of st' d = base_of st d \<or> base_of st' d = Some target" and "is_open st' d \<longrightarrow> is_open st d"
proof -
  note inv = rebase_inv [OF assms]
  have "(base_of st' d = base_of st d \<or> base_of st' d = Some target) \<and> (is_open st' d \<longrightarrow> is_open st d)"
  proof (cases r)
    case (Inl e)
    then show ?thesis using inv(4) by (simp add: base_of_def is_open_def)
  next
    case (Inr u)
    then obtain x where x: "map_get (rm_dbs st) later = Some x" "\<not> bd_closed x"
      "rm_dbs st' = map_set later (x\<lparr>bd_handle := Some i, bd_base := Some target\<rparr>) (rm_dbs st)"
      using inv(5) by blast
    then show ?thesis by (simp add: base_of_def is_open_def map_get_set)
  qed
  then show "base_of st' d = base_of st d \<or> base_of st' d = Some target" "is_open st' d \<longrightarrow> is_open st d"
    by blast+
qed

lemma move_waiting_inv:
  assumes "realm_inv {i} extra st" and "named st name i" and "mset (b_keys target) \<subseteq># rm_locks st i"
  shows "realm_inv {i} extra (move_waiting outcome snap from_base name target waiting st)
    \<and> named (move_waiting outcome snap from_base name target waiting st) name i
    \<and> (base_of st d = Some target \<longrightarrow>
         base_of (move_waiting outcome snap from_base name target waiting st) d = Some target)
    \<and> (base_of st d \<noteq> from_base \<longrightarrow>
         base_of (move_waiting outcome snap from_base name target waiting st) d \<noteq> from_base
         \<or> base_of (move_waiting outcome snap from_base name target waiting st) d = Some target)
    \<and> (is_open (move_waiting outcome snap from_base name target waiting st) d \<longrightarrow> is_open st d)"
  using assms
proof (induction waiting arbitrary: st)
  case Nil
  then show ?case by simp
next
  case (Cons later rest)
  obtain st1 r where r: "rebase later snap name target (outcome later) st = (st1, r)" by fastforce
  let ?st = "if later = snap \<or> base_of st later \<noteq> from_base then st else st1"
  note inv = rebase_inv [OF Cons.prems r]
  have dbs: "base_of st1 d = base_of st d \<or> base_of st1 d = Some target" "is_open st1 d \<longrightarrow> is_open st d"
    using rebase_dbs [OF Cons.prems r] by blast+
  have "realm_inv {i} extra ?st" "named ?st name i" "mset (b_keys target) \<subseteq># rm_locks ?st i"
    using Cons.prems inv(1-3) by simp_all
  note IH = Cons.IH [OF this]
  have eq: "move_waiting outcome snap from_base name target (later # rest) st
      = move_waiting outcome snap from_base name target rest ?st" by (simp add: r)
  have b: "base_of ?st d = base_of st d \<or> base_of ?st d = Some target" "is_open ?st d \<longrightarrow> is_open st d"
    using dbs by simp_all
  show ?case unfolding eq using IH b by metis
qed

lemma write_finish_inv:
  assumes "realm_inv {} (extra + locks) st" and "mset (b_keys target) \<subseteq># locks"
    and "write_finish file_of_base db snap waiting outcome key target locks st = (st', r)"
  shows "realm_inv {} extra st'"
    and "r = Inr u \<Longrightarrow> is_open st' db \<Longrightarrow>
      base_of st' db = Some target \<or> base_of st' db \<noteq> base_of st snap"
proof -
  define name i where "name = snapshot_file (rm_nextFile st) key" and "i = length (jf_files (rm_files st))"
  define st0 where "st0 = st\<lparr>rm_nextFile := Suc (rm_nextFile st)\<rparr>"
  define st1 where "st1 = add_file name (file_of_base target) locks st0"
  have inv0: "realm_inv {} (extra + locks) st0" unfolding st0_def by (rule next_file_inv [OF assms(1)])
  have i: "i = length (jf_files (rm_files st0))" by (simp add: i_def st0_def)
  have free: "map_get (jf_ids (rm_files st0)) name = None"
    using next_label(2) realm_invD(1) [OF assms(1)] by (auto simp: st0_def name_def)
  have used: "\<exists>m. m < rm_nextFile st0 \<and> (name = base_label m \<or> (\<exists>key. name = snapshot_file m key))"
    by (rule exI [of _ "rm_nextFile st"]) (auto simp: st0_def name_def)
  note add = add_file_inv(1-3,5) [OF inv0 free used, of "file_of_base target", folded i st1_def]
  have sub: "mset (b_keys target) \<subseteq># rm_locks st1 i" using assms(2) add(3) by simp
  obtain st2 r2 where reb: "(if is_open st1 db \<and> base_of st1 db = base_of st snap
      then rebase db snap name target (outcome db) st1 else (st1, Inr ())) = (st2, r2)" by fastforce
  have inv2: "realm_inv {i} extra st2" "named st2 name i" "mset (b_keys target) \<subseteq># rm_locks st2 i"
    "is_open st2 db \<Longrightarrow> r2 = Inr () \<Longrightarrow> base_of st2 db = Some target \<or> base_of st2 db \<noteq> base_of st snap"
  proof -
    have "realm_inv {i} extra st2 \<and> named st2 name i \<and> mset (b_keys target) \<subseteq># rm_locks st2 i \<and>
      (is_open st2 db \<longrightarrow> r2 = Inr () \<longrightarrow> base_of st2 db = Some target \<or> base_of st2 db \<noteq> base_of st snap)"
    proof (cases "is_open st1 db \<and> base_of st1 db = base_of st snap")
      case True
      then have r: "rebase db snap name target (outcome db) st1 = (st2, r2)" using reb by simp
      note inv = rebase_inv [OF add(1,2) sub r]
      have "r2 = Inr () \<Longrightarrow> base_of st2 db = Some target"
        using inv(5) [of "()"] by (auto simp: base_of_def map_get_set)
      then show ?thesis using inv(1-3) sub by auto
    next
      case False
      then show ?thesis using reb add sub by auto
    qed
    then show "realm_inv {i} extra st2" "named st2 name i" "mset (b_keys target) \<subseteq># rm_locks st2 i"
      "is_open st2 db \<Longrightarrow> r2 = Inr () \<Longrightarrow> base_of st2 db = Some target \<or> base_of st2 db \<noteq> base_of st snap"
      by blast+
  qed
  note mw = move_waiting_inv [OF inv2(1-3), of outcome snap "base_of st snap" waiting db]
  define st3 where "st3 = (case r2 of Inl _ \<Rightarrow> st2 | Inr _ \<Rightarrow>
    move_waiting outcome snap (base_of st snap) name target waiting st2)"
  have st': "st' = remove_unless_open name st3 \<and> r = r2"
    using assms(3) reb unfolding write_finish_def Let_def name_def [symmetric] st0_def [symmetric] st1_def [symmetric]
    by (cases r2) (auto simp: st3_def)
  have inv3: "realm_inv {i} extra st3" "named st3 name i"
    using inv2 mw by (simp_all add: st3_def split: sum.split)
  note rem = remove_unless_open_inv [OF inv3]
  show "realm_inv {} extra st'" using rem(1) st' by simp
  have same: "is_open st' d \<longleftrightarrow> is_open st3 d" "base_of st' d = base_of st3 d" for d
    using rem(2) st' by (simp_all add: is_open_def base_of_def)
  show "base_of st' db = Some target \<or> base_of st' db \<noteq> base_of st snap" if "r = Inr u" "is_open st' db"
  proof -
    have r2: "r2 = Inr ()" using that st' by simp
    then have "is_open st2 db" using mw that(2) same(1) by (simp add: st3_def)
    then show ?thesis using inv2(4) r2 mw same(2) by (auto simp: st3_def)
  qed
qed

section \<open>The whole operation\<close>

text \<open>
  What other code may do at an await: whatever keeps the locks and files in order for every operation
  that is under way, and leaves the snapshot that is saved alone.
\<close>

definition keeps :: "nat \<Rightarrow> ('f realm \<Rightarrow> 'f realm) \<Rightarrow> bool" where
  "keeps snap g \<longleftrightarrow> (\<forall>extra st. realm_inv {} extra st \<longrightarrow>
     realm_inv {} extra (g st) \<and> map_get (rm_dbs (g st)) snap = map_get (rm_dbs st) snap)"

lemma keepsD:
  assumes "keeps snap g" and "realm_inv {} extra st"
  shows "realm_inv {} extra (g st)" and "base_of (g st) snap = base_of st snap"
  using assms by (auto simp: keeps_def base_of_def)

lemma hold_fields:
  "hold key failed st = (st', r) \<Longrightarrow> base_of st' d = base_of st d"
  "base_of (unhold locks st) d = base_of st d"
  by (auto simp: hold_def unhold_def base_of_def split: option.splits)

lemma hold_all_inv:
  assumes "\<And>i. keeps snap (between i)" and "realm_inv {} (extra + acc) st"
    and "hold_all between fails i keys acc st = (st', r)"
  shows "realm_inv {} (case r of Inl _ \<Rightarrow> extra | Inr locks \<Rightarrow> extra + locks) st'
    \<and> base_of st' snap = base_of st snap \<and> (\<forall>locks. r = Inr locks \<longrightarrow> locks = acc + mset keys)"
  using assms(2,3)
proof (induction keys arbitrary: i acc st)
  case Nil
  then show ?case by auto
next
  case (Cons key keys)
  obtain st1 r1 where h: "hold key (fails i) (between i st) = (st1, r1)" by fastforce
  have inv: "realm_inv {} (extra + acc) (between i st)" "base_of (between i st) snap = base_of st snap"
    using keepsD [OF assms(1) Cons.prems(1)] by simp_all
  note hi = hold_inv [OF inv(1) h] and hf = hold_fields(1) [OF h, of snap]
  show ?case
  proof (cases r1)
    case (Inl e)
    then have "realm_inv {} (extra + acc) st1" using hi by simp
    then show ?thesis using Cons.prems(2) h Inl hf inv(2) unhold_inv by (auto simp: hold_fields(2))
  next
    case (Inr u)
    then have "realm_inv {} (extra + add_mset key acc) st1" using hi by simp
    from Cons.IH [OF this, of "Suc i"] show ?thesis using Cons.prems(2) h Inr hf inv(2) by auto
  qed
qed

lemma hold_below_inv:
  assumes "\<And>i. keeps snap (we_between env i)" and "realm_inv {} extra st"
    and "hold_below env written from_base st = (st', r)"
  shows "realm_inv {} (case r of Inl _ \<Rightarrow> extra | Inr locks \<Rightarrow> extra + locks) st'"
    and "base_of st' snap = base_of st snap"
    and "r = Inr locks \<Longrightarrow> locks = (case (st_delta written, from_base) of (Some _, Some b) \<Rightarrow> mset (b_keys b) | _ \<Rightarrow> {#})"
proof -
  have "realm_inv {} (case r of Inl _ \<Rightarrow> extra | Inr locks \<Rightarrow> extra + locks) st'
    \<and> base_of st' snap = base_of st snap \<and> (\<forall>locks. r = Inr locks \<longrightarrow>
        locks = (case (st_delta written, from_base) of (Some _, Some b) \<Rightarrow> mset (b_keys b) | _ \<Rightarrow> {#}))"
  proof (cases "\<exists>d b. st_delta written = Some d \<and> from_base = Some b")
    case True
    then obtain d b where db: "st_delta written = Some d" "from_base = Some b" by blast
    have "realm_inv {} (extra + {#}) st" using assms(2) by simp
    from hold_all_inv [where between = "\<lambda>i. we_between env (2 + i)", OF assms(1) this]
    show ?thesis using assms(3) db by (simp add: hold_below_def)
  next
    case False
    then show ?thesis using assms(2,3) by (auto simp: hold_below_def split: option.splits)
  qed
  then show "realm_inv {} (case r of Inl _ \<Rightarrow> extra | Inr locks \<Rightarrow> extra + locks) st'"
    and "base_of st' snap = base_of st snap"
    and "r = Inr locks \<Longrightarrow> locks = (case (st_delta written, from_base) of (Some _, Some b) \<Rightarrow> mset (b_keys b) | _ \<Rightarrow> {#})"
    by blast+
qed

text \<open>The keys of the new snapshot are its own and those below.\<close>

lemma written_base_keys:
  assumes "si_key (st_info written) = key" and "\<And>b. from_base = Some b \<Longrightarrow> b = baseOf (b_layer b)"
  shows "b_keys (written_base n written from_base) =
    key # (case (st_delta written, from_base) of (Some _, Some b) \<Rightarrow> b_keys b | _ \<Rightarrow> [])"
proof (cases "st_delta written")
  case None
  then show ?thesis using assms(1) by (simp add: written_base_def baseOf_def)
next
  case (Some d)
  show ?thesis
  proof (cases from_base)
    case None
    then show ?thesis using assms(1) Some by (simp add: written_base_def baseOf_def)
  next
    case (Some b)
    have "b_keys b = map (\<lambda>l. si_key (layer_info l)) (layer_chain (b_layer b))"
      using assms(2) [OF Some] by (metis base.select_convs(3) baseOf_def)
    then show ?thesis using assms(1) Some \<open>st_delta written = Some d\<close>
      by (simp add: written_base_def baseOf_def)
  qed
qed

text \<open>What the stores promise of a snapshot they wrote over the content \<open>b\<close>.\<close>

definition store_ok :: "(bool \<Rightarrow> new_snapshot \<Rightarrow> stored_snapshot option result) \<Rightarrow> bytes \<Rightarrow> bool" where
  "store_ok store b \<longleftrightarrow> (\<forall>again s w. store again s = Inr (Some w) \<longrightarrow>
     (\<exists>c src. w = storedAs s c src \<and>
        source_bytes src = (if ns_delta s = None then new_bytes s b else pages_bytes s)))"

lemma store_twice_ok:
  assumes "store_twice store s = Inr (s', w)"
  shows "\<exists>again. store again s' = Inr w" and "s' = s \<or> s' = s\<lparr>ns_delta := None\<rparr>"
  using assms by (auto simp: store_twice_def and_then_eq_Inr Let_def split: sum.splits if_splits)

lemma without_delta [simp]:
  "new_bytes (s\<lparr>ns_delta := d\<rparr>) b = new_bytes s b" "pages_bytes (s\<lparr>ns_delta := d\<rparr>) = pages_bytes s"
  "ns_pages_ok (s\<lparr>ns_delta := d\<rparr>) = ns_pages_ok s"
proof -
  show "new_bytes (s\<lparr>ns_delta := d\<rparr>) b = new_bytes s b"
    unfolding new_bytes_def by (rule map_cong) (simp_all add: ns_byte_def split: option.split)
qed (simp_all add: pages_bytes_def ns_pages_ok_def)

lemma delta_layer_bytes:
  assumes "ns_pages_ok s" and "ns_delta s = Some nd" and "source_bytes src = pages_bytes s"
  shows "layer_bytes (Layer i (storedAs s t src) (Some l)) = new_bytes s (layer_bytes l)"
  using origin_new [OF assms(1), of "layer_bytes l" nd] assms(3)
  by (simp add: storedAs_def assms(2) new_bytes_def)

text \<open>The layer of what was written has the content that was saved.\<close>

lemma written_base_bytes:
  assumes "newSnapshot heap pg from_base key branch meta maxDepth = Inr s" and "ns_pages_ok s"
    and "store_ok store (old_bytes from_base)" and "store_twice store s = Inr (s', Some written)"
  shows "layer_bytes (b_layer (written_base n written from_base)) = new_bytes s (old_bytes from_base)"
    and "si_key (st_info written) = key" and "b_info (written_base n written from_base) = st_info written"
proof -
  obtain again where st: "store again s' = Inr (Some written)" and s': "s' = s \<or> s' = s\<lparr>ns_delta := None\<rparr>"
    using store_twice_ok [OF assms(4)] by blast
  obtain c src where w: "written = storedAs s' c src"
    and src: "source_bytes src = (if ns_delta s' = None then new_bytes s' (old_bytes from_base) else pages_bytes s')"
    using assms(3) st unfolding store_ok_def by blast
  have ok': "ns_pages_ok s'" and same: "new_bytes s' b = new_bytes s b" for b
    using s' assms(2) by auto
  have key: "ns_key s' = key" using s' newSnapshot_fields(1) [OF assms(1)] by auto
  then show "si_key (st_info written) = key" by (simp add: w storedAs_def)
  show "b_info (written_base n written from_base) = st_info written"
    by (simp add: written_base_def baseOf_def)
  show "layer_bytes (b_layer (written_base n written from_base)) = new_bytes s (old_bytes from_base)"
  proof (cases "ns_delta s'")
    case None
    then have "st_delta written = None" by (simp add: w storedAs_def)
    then show ?thesis using src None same w by (simp add: written_base_def baseOf_def storedAs_def)
  next
    case (Some nd)
    then have "ns_delta s = Some nd" using s' by auto
    then obtain b where b: "from_base = Some b"
      using newSnapshot_fields(6) [OF assms(1)] by (auto simp: deltaOf_def split: option.splits)
    have "st_delta written \<noteq> None" using Some by (simp add: w storedAs_def)
    then show ?thesis
      using delta_layer_bytes [OF ok' Some, of src n c "b_layer b"] src Some same
      by (simp add: written_base_def baseOf_def b w old_bytes_def)
  qed
qed

lemma saved_eq: "saved status target r = (st', Inr res) \<longleftrightarrow>
    r = (st', Inr ()) \<and> res = \<lparr>sr_status = status, sr_snapshot = Some (b_info target)\<rparr>"
  by (cases r) (auto simp: saved_def infoOf_def and_then_eq_Inr)

lemma saved_fst: "fst (saved status target r) = fst r"
  by (cases r) (simp add: saved_def)

section \<open>Properties\<close>

lemma unhold_one: "realm_inv X (add_mset key extra) st \<Longrightarrow> realm_inv X extra (unhold {#key#} st)"
  using unhold_inv [of X extra "{#key#}"] by simp

lemma finish_saved:
  assumes "realm_inv {} (extra + locks) st" and "mset (b_keys target) \<subseteq># locks"
    and "saved status target (write_finish file_of_base db snap waiting outcome key target locks st) = (st', r)"
  shows "realm_inv {} extra st'"
    and "r = Inr res \<Longrightarrow> res = \<lparr>sr_status = status, sr_snapshot = Some (b_info target)\<rparr> \<and>
      (is_open st' db \<longrightarrow> base_of st' db = Some target \<or> base_of st' db \<noteq> base_of st snap)"
proof -
  obtain st1 r1 where f: "write_finish file_of_base db snap waiting outcome key target locks st = (st1, r1)"
    by fastforce
  note inv = write_finish_inv [OF assms(1,2) f]
  have st1: "st' = st1" "r = and_then r1 (\<lambda>_. Inr \<lparr>sr_status = status, sr_snapshot = infoOf (Some target)\<rparr>)"
    using assms(3) by (simp_all add: saved_def f)
  show "realm_inv {} extra st'" using inv(1) st1(1) by simp
  show "res = \<lparr>sr_status = status, sr_snapshot = Some (b_info target)\<rparr> \<and>
      (is_open st' db \<longrightarrow> base_of st' db = Some target \<or> base_of st' db \<noteq> base_of st snap)" if "r = Inr res"
    using that st1 inv(2) by (cases r1) (auto simp: infoOf_def)
qed


section \<open>Runs\<close>

text \<open>
  What happens in one realm: locks are taken and given back, databases are opened on snapshots that
  were resolved (with the locks on their keys) or on other files (\<open>run_hold\<close> opens one), forked and closed, and saves move
  databases onto new snapshots. \<open>extra\<close> are the locks operations hold that are under way.
\<close>

inductive realm_run :: "string multiset \<Rightarrow> 'f realm \<Rightarrow> bool" where
  run_start: "realm_run {#} realm_empty"
| run_hold: "realm_run extra st \<Longrightarrow> hold key failed st = (st', Inr ()) \<Longrightarrow> realm_run (add_mset key extra) st'"
| run_unhold: "realm_run (extra + locks) st \<Longrightarrow> realm_run extra (unhold locks st)"
| run_open: "realm_run (extra + mset (b_keys b)) st \<Longrightarrow> map_get (rm_dbs st) d = None \<Longrightarrow>
    open_base d file_of_base b (b_keys b) header created outcome schema st = (st', r) \<Longrightarrow> realm_run extra st'"
| run_overlay: "realm_run (extra + opened) st \<Longrightarrow> map_get (rm_dbs st) d = None \<Longrightarrow>
    openOverlay d f getSize opened header created outcome schema st = (st', r) \<Longrightarrow> realm_run extra st'"
| run_fork: "realm_run extra st \<Longrightarrow> map_get (rm_dbs st) new = None \<Longrightarrow>
    fork d new writing outcome pragmas st = (st', r) \<Longrightarrow> realm_run extra st'"
| run_close: "realm_run extra st \<Longrightarrow> realm_run extra (db_close d st)"
| run_save: "realm_run (extra + locks) st \<Longrightarrow> mset (b_keys target) \<subseteq># locks \<Longrightarrow>
    write_finish file_of_base db snap waiting outcomes key target locks st = (st', res) \<Longrightarrow> realm_run extra st'"

lemma realm_inv_empty: "realm_inv {} {#} realm_empty"
  using js_inv_empty
  by (auto simp: realm_inv_def core_def realm_empty_def handles_of_def names_fresh_def owned_def has_file_def
      js_empty_def)

lemma realm_run_inv: "realm_run extra st \<Longrightarrow> realm_inv {} extra st"
proof (induction rule: realm_run.induct)
  case run_start
  then show ?case by (rule realm_inv_empty)
next
  case (run_hold extra st key failed st')
  then show ?case using hold_inv [OF run_hold.IH run_hold.hyps(2)] by simp
next
  case (run_open extra b st d file_of_base header created outcome schema st' r)
  then show ?case using open_base_inv [OF run_open.IH run_open.hyps(2) refl run_open.hyps(3)] by simp
next
  case (run_overlay extra opened st d f getSize header created outcome schema st' r)
  then show ?case using unhold_inv [OF run_overlay.IH] open_on_inv(1) [OF run_overlay.IH run_overlay.hyps(2)]
    by (auto simp: openOverlay_def split: sum.splits)
next
  case (run_save extra locks st target file_of_base db snap waiting outcomes key st' res)
  then show ?case using write_finish_inv(1) by blast
qed (auto intro: unhold_inv fork_inv db_close_inv(1))

lemma delete_loop_free:
  "k \<in> set (snd (delete_loop remove free keys i ss (st, deleted))) \<Longrightarrow> k \<in> set deleted \<or> (\<exists>j. free j k)"
proof (induction ss arbitrary: i st deleted)
  case Nil
  then show ?case by simp
next
  case (Cons s ss)
  show ?case
  proof (cases "si_key s \<in> keys \<or> \<not> free i (si_key s)")
    case True
    then show ?thesis using Cons by auto
  next
    case False
    obtain st' removed where r: "remove st (si_key s) False = (st', removed)" by fastforce
    from Cons.prems False r
    have "k \<in> set (if removed then deleted @ [si_key s] else deleted) \<or> (\<exists>j. free j k)"
      by (intro Cons.IH) simp
    then show ?thesis using False by (auto split: if_splits)
  qed
qed

text \<open>The locks of every file that is there are held.\<close>

lemma reader_holds:
  assumes "realm_inv {} extra st" and "is_open st d" and "base_of st d = Some b"
  shows "mset (b_keys b) + extra \<subseteq># rm_held st"
proof -
  note inv = realm_invD [OF assms(1)]
  obtain x where x: "map_get (rm_dbs st) d = Some x" "\<not> bd_closed x" "bd_base x = Some b"
    using assms(2,3) by (auto simp: is_open_def base_of_def split: option.splits)
  then obtain i where i: "has_file st i" "mset (b_keys b) \<subseteq># rm_locks st i"
    using inv(3) [OF x(1)] by (auto simp: db_ok_def)
  have held: "rm_held st = extra + owned st" using inv(1) by (simp add: core_def)
  have "owned st = rm_locks st i + (\<Sum>j \<in> dom (map_get (jf_handles (rm_files st))) - {i}. rm_locks st j)"
    unfolding owned_def using i(1) by (intro sum.remove) (auto simp: has_file_def)
  then have "rm_locks st i \<subseteq># owned st" by simp
  then have "mset (b_keys b) \<subseteq># owned st" using i(2) by (rule subset_mset.order_trans [rotated])
  then show ?thesis using held by (simp add: add.commute)
qed

lemma closed_handles:
  assumes "\<And>d. \<not> is_open st d" and "realm_inv {} extra st"
  shows "owned st = {#}"
proof -
  have "bd_handle x = None" if x: "map_get (rm_dbs st) d = Some x" for d x
    using assms(1) [of d] realm_invD(3) [OF assms(2) x] x by (simp add: is_open_def db_ok_def)
  then have "handles_of (rm_dbs st) = {#}" by (rule handles_of_none)
  then have "\<not> has_file st i" for i using realm_invD(2) [OF assms(2), of i] by auto
  then show "owned st = {#}" unfolding owned_def has_file_def by (intro sum.neutral) auto
qed

text \<open>
  C37. In every run, an open database on a snapshot holds the locks on all the keys of it, next to those
  of operations under way, so \<open>retain\<close>, which deletes only snapshots whose lock is free, deletes none of
  them; and once every database is closed and no operation is under way, no lock is held and the file of
  every overlay is closed.
\<close>

theorem readers_hold_locks:
  assumes "realm_run extra st"
  shows "(\<forall>d b. is_open st d \<and> base_of st d = Some b \<longrightarrow>
      mset (b_keys b) + extra \<subseteq># rm_held st \<and>
      (\<forall>list remove free locks keepsRemoved now policy store store' deleted.
         (\<forall>i k. free i k \<longrightarrow> k \<notin># rm_held st) \<longrightarrow>
         retain list remove free locks keepsRemoved now policy store = Inr (store', deleted) \<longrightarrow>
         set (b_keys b) \<inter> set deleted = {}))
    \<and> ((\<forall>d. \<not> is_open st d) \<longrightarrow> rm_held st = extra)"
proof -
  have inv: "realm_inv {} extra st" using assms by (rule realm_run_inv)
  have kept: "set (b_keys b) \<inter> set deleted = {}"
    if open': "is_open st d" "base_of st d = Some b" and free: "\<forall>i k. free i k \<longrightarrow> k \<notin># rm_held st"
      and del: "retain list remove free locks keepsRemoved now policy store = Inr (store', deleted)"
    for d b list remove free locks keepsRemoved now policy store store' deleted
  proof -
    obtain keys ss where "delete_loop remove free keys 0 ss (store, []) = (store', deleted)"
      using del by (auto simp: retain_def and_then_eq_Inr Let_def)
    then have "k \<in> set deleted \<Longrightarrow> \<exists>j. free j k" for k
      using delete_loop_free [of k remove free keys 0 ss store "[]"] by simp
    moreover have "k \<in># rm_held st" if "k \<in> set (b_keys b)" for k
      using reader_holds [OF inv open'] that by (metis in_multiset_in_set mset_subset_eqD mset_subset_eq_add_left)
    ultimately show ?thesis using free by blast
  qed
  have none: "rm_held st = extra" if "\<And>d. \<not> is_open st d"
    using closed_handles [OF that inv] realm_invD(1) [OF inv] by (simp add: core_def)
  show ?thesis
    by (intro conjI allI impI; (elim conjE)?) (rule reader_holds [OF inv] kept none; simp)+
qed

text \<open>A new database and its snapshot, saved for the first time while a third database closes.\<close>

definition ex_realm :: "unit realm" where
  "ex_realm = realm_empty\<lparr>rm_dbs := [(0, new_db), (1, new_db), (2, new_db)]\<rparr>"

definition ex_env :: "unit write_env" where
  "ex_env = \<lparr>we_between = (\<lambda>i. if i = 1 then db_close 2 else id), we_hold = (\<lambda>_. None),
     we_store = (\<lambda>_ s. if ns_delta s = None then Inr (Some (storedAs s 5 (Bytes (new_bytes s [])))) else Inl RangeError),
     we_reads = (\<lambda>_. Map.empty), we_open = (\<lambda>_. Opens), we_heap = ex_heap, we_pages = ex_first,
     we_aligned = False, we_object = 0\<rparr>"

lemma ex_first_fields: "pg_visible ex_first = 0" "pages_held_ok ex_heap ex_first None"
  by (simp_all add: ex_first_def pages_held_ok_def ex_heap_def)

lemma ex_keeps: "keeps 1 (we_between ex_env i)"
  using db_close_inv(1) by (auto simp: keeps_def ex_env_def db_close_get)

lemma ex_realm_inv: "realm_inv {} {#} ex_realm"
  using realm_inv_empty
  by (auto simp: realm_inv_def ex_realm_def realm_empty_def core_def names_fresh_def owned_def has_file_def
      js_empty_def handles_of_def new_db_def db_ok_def)

definition ex_saved :: new_snapshot where
  "ex_saved = \<lparr>ns_key = ''k'', ns_branch = [], ns_meta = [], ns_base = Inr None, ns_baseRange = None,
     ns_visible = 0, ns_size = 6, ns_chunkSize = 2, ns_pages = [0, 1, 2],
     ns_page = (\<lambda>i. let pointer = snd ([(0 :: nat, 2), (1, 4), (2, 0)] ! i) in subarray ex_heap pointer (pointer + 2)),
     ns_delta = None\<rparr>"

lemma ex_saved_new: "newSnapshot ex_heap ex_first None ''k'' [] [] 8 = Inr ex_saved"
  by (simp add: newSnapshot_def ex_first_def ex_saved_def deltaOf_def)

lemma ex_saved_bytes: "new_bytes ex_saved [] = [1, 2, 3, 4, 9, 9]"
  by (simp add: new_bytes_def ns_byte_def ex_saved_def slots_def ex_heap_def subarray_def upt_conv_Cons)

definition ex_target :: base where
  "ex_target = written_base 0 (storedAs ex_saved 5 (Bytes [1, 2, 3, 4, 9, 9])) None"

lemma ex_write_finish:
  "save_write ex_env (\<lambda>_. ()) 8 0 1 [1] ''k'' [] [] ex_realm =
    saved Save_written ex_target
      (write_finish (\<lambda>_. ()) 0 1 [1] (\<lambda>_. Opens) ''k'' ex_target {#''k''#}
         (db_close 2 (ex_realm\<lparr>rm_held := {#''k''#}\<rparr>)))"
proof -
  have base: "base_of (ex_realm\<lparr>rm_held := h\<rparr>) 1 = None" "base_of (db_close 2 st) 1 = base_of st 1" for h and st :: "unit realm"
    by (simp_all add: base_of_def ex_realm_def new_db_def db_close_get)
  have st: "store_twice (we_store ex_env) ex_saved = Inr (ex_saved, Some (storedAs ex_saved 5 (Bytes [1, 2, 3, 4, 9, 9])))"
    using ex_saved_bytes by (simp add: store_twice_def ex_env_def) (simp add: ex_saved_def)
  have held: "rm_held ex_realm = {#}" by (simp add: ex_realm_def realm_empty_def)
  have "st_delta (storedAs ex_saved 5 x) = None" for x by (simp add: storedAs_def ex_saved_def)
  then show ?thesis
    using ex_saved_new st base
    by (simp add: save_write_def hold_def ex_env_def Let_def hold_below_def ex_target_def held split: option.split)
qed

lemma ex_finish:
  "\<exists>st'. write_finish (\<lambda>_. ()) 0 1 [1] (\<lambda>_. Opens) ''k'' ex_target {#''k''#}
      (db_close 2 (ex_realm\<lparr>rm_held := {#''k''#}\<rparr>)) = (st', Inr ()) \<and> is_open st' 0 \<and>
    base_of st' 0 = Some ex_target \<and> rm_held st' = {#''k''#}"
  by (simp add: write_finish_def Let_def is_open_def base_of_def db_close_def ex_realm_def realm_empty_def
      new_db_def close_handle_def set_db_def add_file_def js_add_def js_empty_def rebase_def vfs_open_def
      js_open_def remove_unless_open_def js_openHandles_def)


text \<open>A database opened on a snapshot, and closed.\<close>

definition ex_opened :: "unit realm" where
  "ex_opened = fst (open_base 0 (\<lambda>_. ()) (ex_base\<lparr>b_info := (b_info ex_base)\<lparr>si_size := 700\<rparr>\<rparr>) [''a'']
     (Inr (ex_header 2)) (Inr ()) Opens (Inr ()) (fst (hold ''a'' None realm_empty)))"

lemma ex_base_keys: "b_keys (ex_base\<lparr>b_info := i\<rparr>) = [''a'']"
  by (simp add: ex_base_def baseOf_def ex_stored_first_def)

lemma ex_checked: "snapshot_checkHeader (ex_header 2) 700 = Inr ()"
proof -
  have "header_ok (ex_header 2) 700" by (auto simp: header_ok_def ex_header_fields page_sizes_def)
  then show ?thesis using snapshot_checkHeader_iff [of "ex_header 2" 700] by (simp add: ex_header_fields)
qed

lemma ex_opened_run: "realm_run {#} ex_opened"
proof -
  obtain st1 where st1: "hold ''a'' None (realm_empty :: unit realm) = (st1, Inr ())" "rm_dbs st1 = []"
    by (simp add: hold_def realm_empty_def)
  have "realm_run ({#} + mset (b_keys (ex_base\<lparr>b_info := (b_info ex_base)\<lparr>si_size := 700\<rparr>\<rparr>))) st1"
    using run_hold [OF run_start st1(1)] by (simp add: ex_base_keys)
  from run_open [OF this, of 0] show ?thesis
    using st1 by (simp add: ex_opened_def ex_base_keys) (metis prod.collapse)
qed

lemma ex_opened_dbs:
  "rm_dbs ex_opened = [(0, \<lparr>bd_closed = False, bd_base = Some (ex_base\<lparr>b_info := (b_info ex_base)\<lparr>si_size := 700\<rparr>\<rparr>),
     bd_handle = Some 0\<rparr>)]"
  using ex_checked
  by (simp add: ex_opened_def open_base_def open_on_def hold_def realm_empty_def Let_def set_db_def add_file_def
      js_add_def js_empty_def openBase_def vfs_open_def js_open_def remove_unless_open_def js_openHandles_def new_db_def)

theorem readers_hold_locks_witness:
  "''a'' \<in># rm_held ex_opened \<and> rm_held (db_close 0 ex_opened) = {#}"
proof -
  let ?b = "ex_base\<lparr>b_info := (b_info ex_base)\<lparr>si_size := 700\<rparr>\<rparr>"
  have o: "is_open ex_opened 0" "base_of ex_opened 0 = Some ?b"
    by (simp_all add: is_open_def base_of_def ex_opened_dbs)
  have "mset (b_keys ?b) + {#} \<subseteq># rm_held ex_opened"
    using readers_hold_locks [OF ex_opened_run, THEN conjunct1, rule_format, of 0 ?b] o by blast
  then have "''a'' \<in># rm_held ex_opened" by (simp add: ex_base_keys)
  moreover have "\<forall>d. \<not> is_open (db_close 0 ex_opened) d"
    by (simp add: is_open_def db_close_get ex_opened_dbs)
  then have "rm_held (db_close 0 ex_opened) = {#}"
    using readers_hold_locks [OF run_close [OF ex_opened_run], THEN conjunct2] by blast
  ultimately show ?thesis by blast
qed

end
