(* ===== verification/Dir_Names.thy ===== *)
theory Dir_Names
  imports Text_Codec
begin

text \<open>
  The names of the files of the directory store: \<open>encodeKey\<close> and \<open>decodeKey\<close> of snapshots.ts, with
  \<open>encodeURIComponent\<close> and \<open>decodeURIComponent\<close> as ECMAScript has them. A key is a list of characters
  (code points below 256, as all keys of the development). A name decodes to its key, names of
  different keys differ, and no name has a dot, so none is that of a snapshot's metadata.
\<close>

section \<open>encodeURIComponent\<close>

definition unreserved :: "char \<Rightarrow> bool" where
  "unreserved c \<longleftrightarrow> (let n = of_char c :: nat in
     48 \<le> n \<and> n \<le> 57 \<or> 65 \<le> n \<and> n \<le> 90 \<or> 97 \<le> n \<and> n \<le> 122
     \<or> n \<in> {45, 95, 46, 33, 126, 42, 39, 40, 41})"

definition hex_digit :: "nat \<Rightarrow> char" where
  "hex_digit n = char_of (if n < 10 then 48 + n else 55 + n)"

definition percent :: "nat \<Rightarrow> string" where
  "percent b = [CHR ''%'', hex_digit (b div 16), hex_digit (b mod 16)]"

definition encodeURIComponent :: "string \<Rightarrow> string" where
  "encodeURIComponent s =
     concat (map (\<lambda>c. if unreserved c then [c] else concat (map percent (encode_char (of_char c)))) s)"

section \<open>decodeURIComponent\<close>

definition hex_value :: "char \<Rightarrow> nat option" where
  "hex_value c = (let n = of_char c :: nat in
     if 48 \<le> n \<and> n \<le> 57 then Some (n - 48)
     else if 65 \<le> n \<and> n \<le> 70 then Some (n - 55)
     else if 97 \<le> n \<and> n \<le> 102 then Some (n - 87) else None)"

fun read_octet :: "string \<Rightarrow> (nat \<times> string) option" where
  "read_octet (p # a # b # rest) =
     (if p \<noteq> CHR ''%'' then None
      else case (hex_value a, hex_value b) of
             (Some x, Some y) \<Rightarrow> Some (16 * x + y, rest)
           | _ \<Rightarrow> None)"
| "read_octet _ = None"

primrec read_octets :: "nat \<Rightarrow> string \<Rightarrow> (nat list \<times> string) option" where
  "read_octets 0 s = Some ([], s)"
| "read_octets (Suc n) s =
     (case read_octet s of
        None \<Rightarrow> None
      | Some (b, rest) \<Rightarrow> map_option (\<lambda>(bs, rest'). (b # bs, rest')) (read_octets n rest))"

text \<open>How many bytes a character has that starts with this one, and the character of the bytes.\<close>

definition utf8_length :: "nat \<Rightarrow> nat option" where
  "utf8_length b =
     (if b < 0x80 then Some 1 else if b < 0xC0 then None else if b < 0xE0 then Some 2
      else if b < 0xF0 then Some 3 else if b < 0xF8 then Some 4 else None)"

definition utf8_char :: "nat list \<Rightarrow> code_point option" where
  "utf8_char bs =
     (case decode_from Start bs of
        [c] \<Rightarrow> if scalar c \<and> encode_char c = bs then Some c else None
      | _ \<Rightarrow> None)"

lemma read_octet_shorter: "read_octet s = Some (b, rest) \<Longrightarrow> length rest < length s"
  by (induction s rule: read_octet.induct) (auto split: option.splits if_splits)

lemma read_octets_shorter: "read_octets n s = Some (bs, rest) \<Longrightarrow> length rest \<le> length s"
proof (induction n arbitrary: s bs rest)
  case (Suc n)
  then obtain b t cs where "read_octet s = Some (b, t)" "read_octets n t = Some (cs, rest)"
    by (auto split: option.splits)
  then show ?case using Suc.IH read_octet_shorter by fastforce
qed simp

text \<open>None is the \<open>URIError\<close>.\<close>

function decodeURIComponent :: "string \<Rightarrow> js_string option" where
  "decodeURIComponent s =
     (case s of
        [] \<Rightarrow> Some []
      | c # cs \<Rightarrow>
          if c \<noteq> CHR ''%'' then map_option ((#) (of_char c)) (decodeURIComponent cs)
          else (case read_octet s of
                  None \<Rightarrow> None
                | Some (b, rest) \<Rightarrow>
                    (case utf8_length b of
                       None \<Rightarrow> None
                     | Some n \<Rightarrow>
                         (case read_octets (n - 1) rest of
                            None \<Rightarrow> None
                          | Some (bs, rest') \<Rightarrow>
                              (case utf8_char (b # bs) of
                                 None \<Rightarrow> None
                               | Some code \<Rightarrow> map_option ((#) code) (decodeURIComponent rest'))))))"
  by pat_completeness auto

termination
  by (relation "measure length") (auto dest!: read_octet_shorter read_octets_shorter)

declare decodeURIComponent.simps [simp del]

section \<open>encodeKey and decodeKey\<close>

definition encodeKey :: "string \<Rightarrow> string" where
  "encodeKey key = concat (map (\<lambda>c. if c = CHR ''.'' then ''%2E'' else [c]) (encodeURIComponent key))"

definition decodeKey :: "string \<Rightarrow> js_string option" where
  "decodeKey name = decodeURIComponent name"

definition META_SUFFIX :: string where "META_SUFFIX = ''.json''"

section \<open>Lemmas\<close>

lemma of_char_less: "(of_char c :: nat) < 256"
  by (metis of_char_mod_256 mod_less_divisor zero_less_numeral)

lemma hex_value_digit [simp]: "n < 16 \<Longrightarrow> hex_value (hex_digit n) = Some n"
  by (auto simp: hex_value_def hex_digit_def Let_def of_char_of take_bit_eq_mod)

lemma hex_digit_neq [simp]: "n < 16 \<Longrightarrow> hex_digit n \<noteq> CHR ''.''"
proof -
  assume n: "n < 16"
  have "(of_char (hex_digit n) :: nat) \<noteq> 46"
    using n by (auto simp: hex_digit_def of_char_of)
  then show ?thesis by fastforce
qed

lemma read_octet_percent [simp]: "b < 256 \<Longrightarrow> read_octet (percent b @ rest) = Some (b, rest)"
  by (simp add: percent_def less_mult_imp_div_less)

text \<open>How \<open>encodeKey\<close> writes one character: as it is, or the bytes of it.\<close>

definition kept :: "char \<Rightarrow> bool" where
  "kept c \<longleftrightarrow> unreserved c \<and> c \<noteq> CHR ''.''"

definition key_char :: "char \<Rightarrow> string" where
  "key_char c = (if kept c then [c] else concat (map percent (encode_char (of_char c))))"

lemma no_dot_percent: "b < 256 \<Longrightarrow> CHR ''.'' \<notin> set (percent b)"
  using hex_digit_neq [of "b div 16"] hex_digit_neq [of "b mod 16"]
  by (auto simp: percent_def less_mult_imp_div_less simp del: hex_digit_neq)

lemma char_octets: "b \<in> set (encode_char (of_char c)) \<Longrightarrow> b < 256"
  using encode_char_bytes [of "of_char c" b] less_trans [OF of_char_less [of c], of "0xD800"] by (simp add: scalar_def)

lemma no_dot_octets: "CHR ''.'' \<notin> set (concat (map percent (encode_char (of_char c))))"
  using char_octets [of _ c] no_dot_percent by auto

lemma replace_no_dot: "CHR ''.'' \<notin> set s \<Longrightarrow> concat (map (\<lambda>c. if c = CHR ''.'' then ''%2E'' else [c]) s) = s"
  by (induction s) auto

lemma percent_dot: "concat (map percent (encode_char (of_char CHR ''.''))) = ''%2E''"
  by code_simp

lemma encodeKey_chars: "encodeKey key = concat (map key_char key)"
proof (induction key)
  case Nil
  then show ?case by (simp add: encodeKey_def encodeURIComponent_def)
next
  case (Cons c key)
  let ?r = "\<lambda>s. concat (map (\<lambda>c. if c = CHR ''.'' then ''%2E'' else [c]) s)"
  have "?r (if unreserved c then [c] else concat (map percent (encode_char (of_char c)))) = key_char c"
  proof (cases "unreserved c")
    case True
    then show ?thesis using percent_dot by (cases "c = CHR ''.''") (simp_all add: key_char_def kept_def)
  next
    case False
    then show ?thesis using replace_no_dot [OF no_dot_octets] by (simp add: key_char_def kept_def)
  qed
  then show ?case using Cons by (simp add: encodeKey_def encodeURIComponent_def)
qed

lemma key_no_dot: "CHR ''.'' \<notin> set (encodeKey key)"
  using no_dot_octets by (auto simp: encodeKey_chars key_char_def kept_def)

lemma kept_no_percent: "kept c \<Longrightarrow> c \<noteq> CHR ''%''"
  by (auto simp: kept_def unreserved_def)

lemma utf8_encode_char: "scalar c \<Longrightarrow> utf8_char (encode_char c) = Some c"
  using decode_encode_char [of c "[]"] by (simp add: utf8_char_def)

lemma decode_octets:
  assumes "read_octet (percent b @ r) = Some (b, rest)" and "utf8_length b = Some n"
    and "read_octets (n - 1) rest = Some (bs, rest')" and "utf8_char (b # bs) = Some code"
  shows "decodeURIComponent (percent b @ r) = map_option ((#) code) (decodeURIComponent rest')"
proof -
  obtain cs where cs: "percent b @ r = CHR ''%'' # cs" by (simp add: percent_def)
  show ?thesis using assms unfolding cs by (subst decodeURIComponent.simps) simp
qed

lemma decode_key_char:
  "decodeURIComponent (key_char c @ rest) = map_option ((#) (of_char c)) (decodeURIComponent rest)"
proof (cases "kept c")
  case True
  then show ?thesis
    using kept_no_percent by (subst decodeURIComponent.simps) (simp add: key_char_def)
next
  case False
  let ?n = "of_char c :: nat"
  have sc: "scalar ?n" using less_trans [OF of_char_less [of c], of "0xD800"] by (simp add: scalar_def)
  note u = utf8_encode_char [OF sc]
  show ?thesis
  proof (cases "?n < 0x80")
    case True
    have "encode_char ?n = [?n]" using True by (simp add: encode_char_def)
    then have k: "key_char c @ rest = percent ?n @ rest" using False by (simp add: key_char_def)
    have "read_octet (percent ?n @ rest) = Some (?n, rest)" using of_char_less by simp
    moreover have "utf8_length ?n = Some 1" using True by (simp add: utf8_length_def)
    ultimately show ?thesis unfolding k
      using u \<open>encode_char ?n = [?n]\<close> decode_octets [of ?n rest rest 1 "[]" rest ?n] by simp
  next
    case big: False
    let ?a = "0xC0 + ?n div 64" and ?b = "0x80 + ?n mod 64"
    have "?n < 0x800" using of_char_less [of c] by linarith
    then have e: "encode_char ?n = [?a, ?b]" using big by (simp add: encode_char_def)
    then have k: "key_char c @ rest = percent ?a @ percent ?b @ rest" using False by (simp add: key_char_def)
    have a: "?a < 256" "?b < 256" using char_octets [of ?a c] char_octets [of ?b c] e by simp_all
    have r: "read_octet (percent ?a @ percent ?b @ rest) = Some (?a, percent ?b @ rest)"
      "read_octets (2 - 1) (percent ?b @ rest) = Some ([?b], rest)" using a by simp_all
    have "?n div 64 < 32" using \<open>?n < 0x800\<close> by (simp add: less_mult_imp_div_less)
    then have l: "utf8_length ?a = Some 2" by (simp add: utf8_length_def)
    show ?thesis unfolding k
      using u e decode_octets [OF r(1) l r(2)] by simp
  qed
qed

lemma decode_encodeKey: "decodeKey (encodeKey key) = Some (map of_char key)"
  unfolding decodeKey_def encodeKey_chars
proof (induction key)
  case Nil
  then show ?case by (subst decodeURIComponent.simps) simp
next
  case (Cons c key)
  then show ?case using decode_key_char by simp
qed

lemma encodeKey_inject [simp]: "encodeKey j = encodeKey k \<longleftrightarrow> j = k"
proof
  assume "encodeKey j = encodeKey k"
  then have "map (of_char :: char \<Rightarrow> nat) j = map of_char k" using decode_encodeKey by (metis option.inject)
  then show "j = k" by (simp add: inj_map_eq_map [OF inj_of_char])
qed simp

lemma key_not_meta [simp]: "encodeKey j \<noteq> encodeKey k @ META_SUFFIX" "encodeKey k @ META_SUFFIX \<noteq> encodeKey j"
proof -
  show "encodeKey j \<noteq> encodeKey k @ META_SUFFIX"
  proof
    assume "encodeKey j = encodeKey k @ META_SUFFIX"
    then have "CHR ''.'' \<in> set (encodeKey j)" by (simp only:) (simp add: META_SUFFIX_def)
    then show False using key_no_dot by blast
  qed
  then show "encodeKey k @ META_SUFFIX \<noteq> encodeKey j" by metis
qed

end
