(* ===== verification/Directory_Store.thy ===== *)
theory Directory_Store
  imports Snapshot_Stores Dir_Names
begin

text \<open>
  The directory store of snapshots.ts (\<open>directorySnapshotStore\<close>), over a \<open>SnapshotDirectory\<close>: the
  operations of that interface are a record of functions, with the one over OPFS
  (\<open>opfsSnapshotDirectory\<close>) and the one in memory (\<open>MemorySnapshotDirectory\<close> of
  memory-file-system.js). A write is a state machine with a step for each await, each of which may
  fail, and between which others may work in the directory. It is shown that whoever reads the key
  meanwhile, also with steps between its two reads, finds it unreadable or written in full.
\<close>

section \<open>Directories of files\<close>

text \<open>
  The files and, for the times of new ones, a clock: the platform's or \<open>clock\<close> of the one in memory.
\<close>

record dir_file =
  df_source :: source
  df_modified :: rat

record directory =
  dr_files :: "(string \<times> dir_file) list"
  dr_clock :: rat

text \<open>
  \<open>SnapshotDirectory\<close> and \<open>FileWriter\<close>: a writer keeps what is written to itself until \<open>close\<close>, so
  \<open>dp_close\<close> takes all of it. \<open>dp_get\<close> also gives the time of the file if it has one, else 0. Failing
  is up to the caller of the operations.
\<close>

record directory_ops =
  dp_list :: "directory \<Rightarrow> (string \<times> nat \<times> rat) list"
  dp_get :: "directory \<Rightarrow> string \<Rightarrow> (source \<times> rat) option"
  dp_create :: "directory \<Rightarrow> string \<Rightarrow> directory"
  dp_close :: "directory \<Rightarrow> string \<Rightarrow> bytes \<Rightarrow> directory"
  dp_abort :: "directory \<Rightarrow> string \<Rightarrow> directory"
  dp_remove :: "directory \<Rightarrow> string \<Rightarrow> directory"

definition dir_set :: "(bytes \<Rightarrow> source) \<Rightarrow> rat \<Rightarrow> directory \<Rightarrow> string \<Rightarrow> bytes \<Rightarrow> directory" where
  "dir_set as_source time d name b =
     d\<lparr>dr_files := map_set name \<lparr>df_source = as_source b, df_modified = time\<rparr> (dr_files d)\<rparr>"

definition dir_list_files :: "directory \<Rightarrow> (string \<times> nat \<times> rat) list" where
  "dir_list_files d = map (\<lambda>(name, f). (name, sizeOf (df_source f), df_modified f)) (dr_files d)"

definition dir_delete :: "directory \<Rightarrow> string \<Rightarrow> directory" where
  "dir_delete d name = d\<lparr>dr_files := map_delete name (dr_files d)\<rparr>"

subsection \<open>OPFS\<close>

text \<open>
  The files are \<open>File\<close>s, a \<open>Blob\<close> with a time. \<open>getFileHandle\<close> with \<open>create\<close> leaves a file that is there;
  \<open>abort\<close> removes the entry.
\<close>

definition opfs_get :: "directory \<Rightarrow> string \<Rightarrow> (source \<times> rat) option" where
  "opfs_get d name = map_option (\<lambda>f. (df_source f, df_modified f)) (map_get (dr_files d) name)"

definition opfs_create :: "directory \<Rightarrow> string \<Rightarrow> directory" where
  "opfs_create d name = (if map_has (dr_files d) name then d else dir_set Blob (dr_clock d) d name [])"

definition opfs_close :: "directory \<Rightarrow> string \<Rightarrow> bytes \<Rightarrow> directory" where
  "opfs_close d name b = dir_set Blob (dr_clock d) d name b"

definition opfs_abort :: "directory \<Rightarrow> string \<Rightarrow> directory" where
  "opfs_abort d name = dir_delete d name"

definition opfs_remove :: "directory \<Rightarrow> string \<Rightarrow> directory" where
  "opfs_remove d name = dir_delete d name"

definition opfs_directory :: directory_ops where
  "opfs_directory = \<lparr>dp_list = dir_list_files, dp_get = opfs_get, dp_create = opfs_create,
     dp_close = opfs_close, dp_abort = opfs_abort, dp_remove = opfs_remove\<rparr>"

subsection \<open>In memory\<close>

definition memory_set :: "directory \<Rightarrow> string \<Rightarrow> bytes \<Rightarrow> directory" where
  "memory_set d name b = dir_set Bytes (dr_clock d + 1) (d\<lparr>dr_clock := dr_clock d + 1\<rparr>) name b"

definition memory_get :: "directory \<Rightarrow> string \<Rightarrow> (source \<times> rat) option" where
  "memory_get d name = map_option (\<lambda>f. (df_source f, 0)) (map_get (dr_files d) name)"

definition memory_create :: "directory \<Rightarrow> string \<Rightarrow> directory" where
  "memory_create d name = (if map_has (dr_files d) name then d else memory_set d name [])"

definition memory_abort :: "directory \<Rightarrow> string \<Rightarrow> directory" where
  "memory_abort d name =
     (if map_option (\<lambda>f. sizeOf (df_source f)) (map_get (dr_files d) name) = Some 0
      then dir_delete d name else d)"

definition memory_remove :: "directory \<Rightarrow> string \<Rightarrow> directory" where
  "memory_remove d name = dir_delete d name"

definition memory_directory :: directory_ops where
  "memory_directory = \<lparr>dp_list = dir_list_files, dp_get = memory_get, dp_create = memory_create,
     dp_close = memory_set, dp_abort = memory_abort, dp_remove = memory_remove\<rparr>"

section \<open>Metadata\<close>

text \<open>
  What the JSON of a snapshot has, as far as \<open>readMeta\<close> looks at it: a field that is missing, or a time
  or size that is no number, is None. \<open>stringify\<close> gives the bytes of the JSON text and \<open>parse\<close> what
  \<open>JSON.parse\<close> finds in bytes, None where it throws.
\<close>

record meta_json =
  mj_branch :: "string option"
  mj_meta :: "snapshot_meta option"
  mj_createdAt :: "rat option"
  mj_size :: "nat option"
  mj_delta :: "delta_layout option"

record json =
  stringify :: "meta_json \<Rightarrow> bytes"
  parse :: "bytes \<Rightarrow> meta_json option"

definition no_meta :: meta_json where
  "no_meta = \<lparr>mj_branch = None, mj_meta = None, mj_createdAt = None, mj_size = None, mj_delta = None\<rparr>"

definition meta_of :: "new_snapshot \<Rightarrow> rat \<Rightarrow> meta_json" where
  "meta_of s createdAt =
     \<lparr>mj_branch = Some (ns_branch s), mj_meta = Some (ns_meta s), mj_createdAt = Some createdAt,
      mj_size = (case ns_delta s of None \<Rightarrow> None | Some _ \<Rightarrow> Some (ns_size s)),
      mj_delta = map_option (layoutOf s) (ns_delta s)\<rparr>"

definition readMeta :: "json \<Rightarrow> (source \<times> rat) option \<Rightarrow> meta_json" where
  "readMeta J found =
     (case found of
        None \<Rightarrow> no_meta
      | Some (src, _) \<Rightarrow> (case parse J (source_bytes src) of None \<Rightarrow> no_meta | Some m \<Rightarrow> m))"

definition dir_infoOf :: "string \<Rightarrow> nat \<Rightarrow> rat \<Rightarrow> meta_json \<Rightarrow> snapshot_info" where
  "dir_infoOf key n lastModified m =
     \<lparr>si_key = key,
      si_branch = (case mj_branch m of None \<Rightarrow> [] | Some b \<Rightarrow> b),
      si_meta = (case mj_meta m of None \<Rightarrow> [] | Some v \<Rightarrow> v),
      si_createdAt = (case mj_createdAt m of None \<Rightarrow> lastModified | Some t \<Rightarrow> t),
      si_size = (if n = 0 then 0 else case mj_size m of None \<Rightarrow> n | Some k \<Rightarrow> k),
      si_parent = map_option dl_parent (mj_delta m)\<rparr>"

definition meta_file :: "string \<Rightarrow> string" where
  "meta_file key = encodeKey key @ META_SUFFIX"

section \<open>list and get\<close>

text \<open>\<open>endsWith\<close>; the key of a name, or the error of \<open>decodeURIComponent\<close>.\<close>

definition ends_with :: "string \<Rightarrow> string \<Rightarrow> bool" where
  "ends_with s t \<longleftrightarrow> length t \<le> length s \<and> drop (length s - length t) s = t"

primrec dir_infos :: "directory_ops \<Rightarrow> json \<Rightarrow> directory \<Rightarrow> (string \<times> nat \<times> rat) list \<Rightarrow> snapshot_info list result" where
  "dir_infos D J d [] = Inr []"
| "dir_infos D J d (f # fs) =
     (case decodeKey (fst f) of
        None \<Rightarrow> Inl (JsError ''URIError'')
      | Some key \<Rightarrow>
          (let k = map char_of key
           in and_then (dir_infos D J d fs) (\<lambda>infos.
                Inr (dir_infoOf k (fst (snd f)) (snd (snd f)) (readMeta J (dp_get D d (meta_file k))) # infos))))"

definition dir_list :: "directory_ops \<Rightarrow> json \<Rightarrow> directory \<Rightarrow> snapshot_info list result" where
  "dir_list D J d =
     dir_infos D J d (filter (\<lambda>f. \<not> ends_with (fst f) META_SUFFIX) (dp_list D d))"

text \<open>\<open>get\<close> reads the file in \<open>d\<close> and, after an await, the metadata in \<open>d'\<close>.\<close>

definition dir_get_end :: "json \<Rightarrow> string \<Rightarrow> source \<times> rat \<Rightarrow> (source \<times> rat) option \<Rightarrow> stored_snapshot" where
  "dir_get_end J key found meta =
     (case found of (src, lastModified) \<Rightarrow>
        let m = readMeta J meta
        in \<lparr>st_info = dir_infoOf key (sizeOf src) lastModified m,
            st_source = (case mj_delta m of
                           None \<Rightarrow> src
                         | Some _ \<Rightarrow> slice src (length DELTA_MARKER) (sizeOf src)),
            st_delta = mj_delta m\<rparr>)"

definition dir_get :: "directory_ops \<Rightarrow> json \<Rightarrow> directory \<Rightarrow> directory \<Rightarrow> string \<Rightarrow> stored_snapshot option" where
  "dir_get D J d d' key =
     map_option (\<lambda>found. dir_get_end J key found (dp_get D d' (meta_file key))) (dp_get D d (encodeKey key))"

section \<open>write\<close>

text \<open>
  The awaits of \<open>write\<close>, in order: looking for the file; creating it; creating the file of the metadata,
  writing and closing it; writing the content; for a delta, reading the parent and its metadata; closing
  the writer; reading what was written. \<open>W_meta_abort\<close> is in \<open>writeFile\<close>'s \<open>catch\<close>, the two after it in
  that of \<open>write\<close>.
\<close>

datatype write_phase =
    W_look
  | W_create
  | W_meta
  | W_meta_copy rat
  | W_meta_close rat
  | W_content rat
  | W_parent rat bytes
  | W_parent_meta rat bytes "source \<times> rat"
  | W_close rat bytes
  | W_read rat
  | W_meta_abort js_error
  | W_abort js_error
  | W_clean js_error
  | W_done "stored_snapshot option result"

text \<open>The check of a delta's parent.\<close>

definition parent_found :: "new_snapshot \<Rightarrow> stored_snapshot option \<Rightarrow> bool" where
  "parent_found s found =
     (case (ns_delta s, found) of
        (Some nd, Some p) \<Rightarrow> si_size (st_info p) \<noteq> 0 \<and> stored_createdAt p = nd_parentCreatedAt nd
      | _ \<Rightarrow> False)"

definition parent_key :: "new_snapshot \<Rightarrow> string" where
  "parent_key s = (case ns_delta s of None \<Rightarrow> [] | Some nd \<Rightarrow> nd_parent nd)"

text \<open>
  A step of the write of \<open>s\<close>: \<open>now\<close> is the time, \<open>fails\<close> the error the awaited operation throws, if it
  does. Errors of the cleaning up are swallowed.
\<close>

fun write_step ::
  "directory_ops \<Rightarrow> json \<Rightarrow> new_snapshot \<Rightarrow> rat \<Rightarrow> js_error option
   \<Rightarrow> directory \<times> write_phase \<Rightarrow> directory \<times> write_phase" where
  "write_step D J s now fails (d, W_look) =
     (case fails of
        Some e \<Rightarrow> (d, W_done (Inl e))
      | None \<Rightarrow>
          (case dp_get D d (encodeKey (ns_key s)) of
             Some (src, _) \<Rightarrow> if sizeOf src > 0 then (d, W_done (Inr None)) else (d, W_create)
           | None \<Rightarrow> (d, W_create)))"
| "write_step D J s now fails (d, W_create) =
     (case fails of
        Some e \<Rightarrow> (d, W_done (Inl e))
      | None \<Rightarrow> (dp_create D d (encodeKey (ns_key s)), W_meta))"
| "write_step D J s now fails (d, W_meta) =
     (case fails of
        Some e \<Rightarrow> (d, W_abort e)
      | None \<Rightarrow> (dp_create D d (meta_file (ns_key s)), W_meta_copy now))"
| "write_step D J s now fails (d, W_meta_copy t) =
     (case fails of Some e \<Rightarrow> (d, W_meta_abort e) | None \<Rightarrow> (d, W_meta_close t))"
| "write_step D J s now fails (d, W_meta_close t) =
     (case fails of
        Some e \<Rightarrow> (d, W_meta_abort e)
      | None \<Rightarrow> (dp_close D d (meta_file (ns_key s)) (stringify J (meta_of s t)), W_content t))"
| "write_step D J s now fails (d, W_content t) =
     (case fails of
        Some e \<Rightarrow> (d, W_abort e)
      | None \<Rightarrow>
          (case directory_file s of
             Inl e \<Rightarrow> (d, W_abort e)
           | Inr b \<Rightarrow> (d, if ns_delta s = None then W_close t b else W_parent t b)))"
| "write_step D J s now fails (d, W_parent t b) =
     (case fails of
        Some e \<Rightarrow> (d, W_abort e)
      | None \<Rightarrow>
          (case dp_get D d (encodeKey (parent_key s)) of
             None \<Rightarrow> (d, W_abort (SqliteError SQLITE_CANTOPEN))
           | Some found \<Rightarrow> (d, W_parent_meta t b found)))"
| "write_step D J s now fails (d, W_parent_meta t b found) =
     (case fails of
        Some e \<Rightarrow> (d, W_abort e)
      | None \<Rightarrow>
          if parent_found s (Some (dir_get_end J (parent_key s) found (dp_get D d (meta_file (parent_key s)))))
          then (d, W_close t b) else (d, W_abort (SqliteError SQLITE_CANTOPEN)))"
| "write_step D J s now fails (d, W_close t b) =
     (case fails of
        Some e \<Rightarrow> (d, W_abort e)
      | None \<Rightarrow> (dp_close D d (encodeKey (ns_key s)) b, W_read t))"
| "write_step D J s now fails (d, W_read t) =
     (case fails of
        Some e \<Rightarrow> (d, W_done (Inl e))
      | None \<Rightarrow>
          (d, W_done (Inr (map_option (\<lambda>(written, _).
                storedAs s t (case ns_delta s of
                                None \<Rightarrow> written
                              | Some _ \<Rightarrow> slice written (length DELTA_MARKER) (sizeOf written)))
              (dp_get D d (encodeKey (ns_key s)))))))"
| "write_step D J s now fails (d, W_meta_abort e) =
     (if fails = None then dp_abort D d (meta_file (ns_key s)) else d, W_abort e)"
| "write_step D J s now fails (d, W_abort e) =
     (if fails = None then dp_abort D d (encodeKey (ns_key s)) else d, W_clean e)"
| "write_step D J s now fails (d, W_clean e) =
     (if fails = None then dp_remove D d (meta_file (ns_key s)) else d, W_done (Inl e))"
| "write_step D J s now fails (d, W_done r) = (d, W_done r)"

section \<open>remove\<close>

definition dir_remove ::
  "directory_ops \<Rightarrow> json \<Rightarrow> directory \<Rightarrow> string \<Rightarrow> bool \<Rightarrow> (directory \<times> bool) result" where
  "dir_remove D J d key force =
     and_then (if force then Inr False
               else and_then (dir_list D J d) (\<lambda>infos. Inr (list_ex (\<lambda>i. si_parent i = Some key) infos)))
       (\<lambda>lain_over.
          Inr (if lain_over then (d, False)
               else (dp_remove D (dp_remove D d (encodeKey key)) (meta_file key),
                     dp_get D d (encodeKey key) \<noteq> None)))"

section \<open>The contract of a directory\<close>

text \<open>
  Each operation changes one file: \<open>create\<close> makes an empty one unless there is one, \<open>close\<close> puts
  everything in it, \<open>abort\<close> leaves it or takes it away, \<open>remove\<close> takes it away.
\<close>

definition file_bytes :: "directory_ops \<Rightarrow> directory \<Rightarrow> string \<Rightarrow> bytes option" where
  "file_bytes D d name = map_option (\<lambda>(src, _). source_bytes src) (dp_get D d name)"

text \<open>The write of \<open>s\<close> has the two files of its key to itself, which the locks see to.\<close>

definition own_kept :: "directory_ops \<Rightarrow> new_snapshot \<Rightarrow> directory \<Rightarrow> directory \<Rightarrow> bool" where
  "own_kept D s d d' \<longleftrightarrow> dp_get D d' (encodeKey (ns_key s)) = dp_get D d (encodeKey (ns_key s))
     \<and> dp_get D d' (meta_file (ns_key s)) = dp_get D d (meta_file (ns_key s))"

inductive write_run ::
  "directory_ops \<Rightarrow> json \<Rightarrow> new_snapshot \<Rightarrow> directory \<times> write_phase \<Rightarrow> directory \<times> write_phase \<Rightarrow> bool"
  for D J s where
  stay: "write_run D J s x x"
| own: "write_run D J s x y \<Longrightarrow> write_run D J s x (write_step D J s now fails y)"
| others: "write_run D J s x (d, p) \<Longrightarrow> own_kept D s d d' \<Longrightarrow> write_run D J s x (d', p)"

text \<open>The key's file is empty or not there, and its metadata is that of \<open>s\<close> at time \<open>t\<close>.\<close>

definition fresh :: "directory_ops \<Rightarrow> new_snapshot \<Rightarrow> directory \<Rightarrow> bool" where
  "fresh D s d \<longleftrightarrow> file_bytes D d (encodeKey (ns_key s)) \<in> {None, Some []}"

definition described :: "directory_ops \<Rightarrow> json \<Rightarrow> new_snapshot \<Rightarrow> rat \<Rightarrow> directory \<Rightarrow> bool" where
  "described D J s t d \<longleftrightarrow> file_bytes D d (meta_file (ns_key s)) = Some (stringify J (meta_of s t))"

definition complete :: "directory_ops \<Rightarrow> json \<Rightarrow> new_snapshot \<Rightarrow> bytes \<Rightarrow> rat \<Rightarrow> directory \<Rightarrow> bool" where
  "complete D J s b t d \<longleftrightarrow> described D J s t d \<and> file_bytes D d (encodeKey (ns_key s)) = Some b"

definition snapshot_source :: "new_snapshot \<Rightarrow> source \<Rightarrow> source" where
  "snapshot_source s src =
     (case ns_delta s of None \<Rightarrow> src | Some _ \<Rightarrow> slice src (length DELTA_MARKER) (sizeOf src))"

fun write_inv ::
  "directory_ops \<Rightarrow> json \<Rightarrow> new_snapshot \<Rightarrow> bytes \<Rightarrow> directory \<times> write_phase \<Rightarrow> bool" where
  "write_inv D J s b (d, W_content t) = (fresh D s d \<and> described D J s t d)"
| "write_inv D J s b (d, W_parent t b') = (fresh D s d \<and> described D J s t d \<and> b' = b)"
| "write_inv D J s b (d, W_parent_meta t b' found) = (fresh D s d \<and> described D J s t d \<and> b' = b)"
| "write_inv D J s b (d, W_close t b') = (fresh D s d \<and> described D J s t d \<and> b' = b)"
| "write_inv D J s b (d, W_read t) = complete D J s b t d"
| "write_inv D J s b (d, W_done (Inl e)) = (fresh D s d \<or> (\<exists>t. complete D J s b t d))"
| "write_inv D J s b (d, W_done (Inr r)) = (\<exists>t src m. complete D J s b t d
     \<and> dp_get D d (encodeKey (ns_key s)) = Some (src, m) \<and> r = Some (storedAs s t (snapshot_source s src)))"
| "write_inv D J s b (d, _) = fresh D s d"

text \<open>How many steps are left at most.\<close>

fun steps_left :: "write_phase \<Rightarrow> nat" where
  "steps_left W_look = 12"
| "steps_left W_create = 11"
| "steps_left W_meta = 10"
| "steps_left (W_meta_copy _) = 9"
| "steps_left (W_meta_close _) = 8"
| "steps_left (W_content _) = 7"
| "steps_left (W_parent _ _) = 6"
| "steps_left (W_parent_meta _ _ _) = 5"
| "steps_left (W_close _ _) = 4"
| "steps_left (W_meta_abort _) = 3"
| "steps_left (W_abort _) = 2"
| "steps_left (W_read _) = 1"
| "steps_left (W_clean _) = 1"
| "steps_left (W_done _) = 0"

lemma write_step_left:
  "(\<exists>r. p = W_done r) \<or> steps_left (snd (write_step D J s now fails (d, p))) < steps_left p"
proof (cases p)
  case W_look
  then show ?thesis by (auto split: option.split)
next
  case (W_content t)
  then show ?thesis by (auto split: option.split sum.split)
next
  case (W_parent t b)
  then show ?thesis by (auto split: option.split)
qed (simp_all split: option.split)

lemma write_steps_end:
  "steps_left (snd x) \<le> length ws
    \<Longrightarrow> \<exists>r. snd (foldl (\<lambda>x (now, fails). write_step D J s now fails x) x ws) = W_done r"
proof (induction ws arbitrary: x)
  case Nil
  then show ?case by (cases "snd x") simp_all
next
  case (Cons w ws)
  obtain now fails where w: "w = (now, fails)" by (cases w)
  obtain d p where x: "x = (d, p)" by (cases x)
  have "steps_left (snd (write_step D J s now fails x)) \<le> length ws"
  proof (cases "\<exists>r. snd x = W_done r")
    case True
    then show ?thesis by (auto simp: x)
  next
    case False
    then show ?thesis using write_step_left [of p D J s now fails d] Cons.prems x by auto
  qed
  from Cons.IH [OF this] show ?case by (simp add: w)
qed

locale snapshot_directory =
  fixes D :: directory_ops
  assumes create_new: "dp_get D d n = None \<Longrightarrow> file_bytes D (dp_create D d n) n = Some []"
    and create_old: "dp_get D d n \<noteq> None \<Longrightarrow> dp_get D (dp_create D d n) n = dp_get D d n"
    and create_other: "m \<noteq> n \<Longrightarrow> dp_get D (dp_create D d n) m = dp_get D d m"
    and close_same: "file_bytes D (dp_close D d n b) n = Some b"
    and close_other: "m \<noteq> n \<Longrightarrow> dp_get D (dp_close D d n b) m = dp_get D d m"
    and abort_same: "dp_get D (dp_abort D d n) n \<in> {None, dp_get D d n}"
    and abort_other: "m \<noteq> n \<Longrightarrow> dp_get D (dp_abort D d n) m = dp_get D d m"
    and remove_same: "dp_get D (dp_remove D d n) n = None"
    and remove_other: "m \<noteq> n \<Longrightarrow> dp_get D (dp_remove D d n) m = dp_get D d m"
begin

lemmas others = create_other close_other abort_other remove_other

lemma file_meta [simp]: "encodeKey k \<noteq> meta_file j" "meta_file j \<noteq> encodeKey k"
  "meta_file k = meta_file j \<longleftrightarrow> k = j"
  by (simp_all add: meta_file_def)

lemma bytes_other: "dp_get D d' n = dp_get D d n \<Longrightarrow> file_bytes D d' n = file_bytes D d n"
  by (simp add: file_bytes_def)

lemma own_kept_refl [simp]: "own_kept D s d d" by (simp add: own_kept_def)

lemma own_kept_fresh: "own_kept D s d d' \<Longrightarrow> fresh D s d' = fresh D s d"
  by (simp add: own_kept_def fresh_def file_bytes_def)

lemma own_kept_described: "own_kept D s d d' \<Longrightarrow> described D J s t d' = described D J s t d"
  by (simp add: own_kept_def described_def file_bytes_def)

lemma own_kept_complete: "own_kept D s d d' \<Longrightarrow> complete D J s b t d' = complete D J s b t d"
  by (simp add: own_kept_def complete_def described_def file_bytes_def)

lemma fresh_create [simp]: "fresh D s d \<Longrightarrow> fresh D s (dp_create D d (encodeKey (ns_key s)))"
  using create_new [of d "encodeKey (ns_key s)"] create_old [of d "encodeKey (ns_key s)"]
  by (cases "dp_get D d (encodeKey (ns_key s))") (auto simp: fresh_def file_bytes_def)

lemma fresh_abort [simp]: "fresh D s d \<Longrightarrow> fresh D s (dp_abort D d (encodeKey (ns_key s)))"
  using abort_same [of d "encodeKey (ns_key s)"] by (auto simp: fresh_def file_bytes_def)

lemma fresh_meta [simp]:
  "fresh D s (dp_create D d (meta_file k)) = fresh D s d" "fresh D s (dp_close D d (meta_file k) b) = fresh D s d"
  "fresh D s (dp_abort D d (meta_file k)) = fresh D s d" "fresh D s (dp_remove D d (meta_file k)) = fresh D s d"
  by (simp_all add: fresh_def file_bytes_def others)

lemma described_close [simp]:
  "described D J s t (dp_close D d (meta_file (ns_key s)) (stringify J (meta_of s t)))"
  by (simp add: described_def close_same)

lemma complete_close [simp]:
  "described D J s t d \<Longrightarrow> complete D J s b t (dp_close D d (encodeKey (ns_key s)) b)"
  by (simp add: complete_def described_def close_same bytes_other [OF close_other])

lemma complete_get:
  "complete D J s b t d \<Longrightarrow> \<exists>src m. dp_get D d (encodeKey (ns_key s)) = Some (src, m) \<and> source_bytes src = b"
  by (auto simp: complete_def file_bytes_def)

lemma write_step_inv:
  assumes "directory_file s = Inr b" and "write_inv D J s b x"
  shows "write_inv D J s b (write_step D J s now fails x)"
proof -
  obtain d p where x: "x = (d, p)" by (cases x)
  show ?thesis
  proof (cases p)
    case W_look
    then show ?thesis using assms(2)
      by (auto simp: x fresh_def file_bytes_def split: option.split)
  next
    case (W_read t)
    then have c: "complete D J s b t d" using assms(2) by (simp add: x)
    then obtain src m where "dp_get D d (encodeKey (ns_key s)) = Some (src, m)" using complete_get by blast
    then have "snd (write_step D J s now None x) = W_done (Inr (Some (storedAs s t (snapshot_source s src))))"
      "fst (write_step D J s now None x) = d"
      by (simp_all add: x W_read snapshot_source_def split: option.split)
    then have "write_step D J s now None x = (d, W_done (Inr (Some (storedAs s t (snapshot_source s src)))))"
      by (metis prod.collapse)
    then show ?thesis using c \<open>dp_get D d (encodeKey (ns_key s)) = Some (src, m)\<close>
      by (cases fails) (auto simp: x W_read)
  next
    case (W_done r)
    then show ?thesis using assms(2) by (simp add: x)
  qed (use assms in \<open>simp_all add: x split: option.split\<close>)
qed

lemma others_inv:
  assumes w: "write_inv D J s b (d, p)" and k: "own_kept D s d d'"
  shows "write_inv D J s b (d', p)"
proof -
  note ks = own_kept_fresh [OF k] own_kept_described [OF k] own_kept_complete [OF k]
  have g: "dp_get D d' (encodeKey (ns_key s)) = dp_get D d (encodeKey (ns_key s))"
    using k by (simp add: own_kept_def)
  show ?thesis
  proof (cases p)
    case (W_done r)
    then show ?thesis using w by (cases r) (simp_all add: ks g)
  qed (use w in \<open>simp_all add: ks\<close>)
qed

lemma write_run_inv:
  "write_run D J s x y \<Longrightarrow> directory_file s = Inr b \<Longrightarrow> write_inv D J s b x \<Longrightarrow> write_inv D J s b y"
  by (induction rule: write_run.induct) (auto intro: write_step_inv others_inv)

text \<open>Once the file is complete it stays so, and reading goes on to give the same.\<close>

lemma complete_stays:
  assumes "write_run D J s x y" and "complete D J s b t (fst x)" and "(\<exists>u. snd x = W_read u) \<or> (\<exists>r. snd x = W_done r)"
  shows "complete D J s b t (fst y) \<and> own_kept D s (fst x) (fst y)
    \<and> ((\<exists>u. snd y = W_read u) \<or> (\<exists>r. snd y = W_done r))"
  using assms
proof (induction rule: write_run.induct)
  case (own x y now fails)
  have "fst (write_step D J s now fails y) = fst y \<and> (\<exists>r. snd (write_step D J s now fails y) = W_done r)"
    using own.IH [OF own.prems] by (cases y; cases fails) auto
  then show ?case using own.IH [OF own.prems] by simp
next
  case (others x d p d')
  note IH = others.IH [OF others.prems, simplified]
  have "own_kept D s (fst x) d'" using IH others.hyps(2) by (simp add: own_kept_def)
  then show ?case using IH own_kept_complete [OF others.hyps(2)] by simp
qed simp

text \<open>What is read of a file that is complete, and that what is fresh cannot be read.\<close>

lemma fresh_unreadable:
  "fresh D s d \<Longrightarrow> case dir_get D J d d' (ns_key s) of None \<Rightarrow> True | Some sn \<Rightarrow> si_size (st_info sn) = 0"
  by (auto simp: fresh_def file_bytes_def dir_get_def dir_get_end_def dir_infoOf_def Let_def split: option.split)

lemma complete_read:
  assumes "complete D J s b t d" and "own_kept D s d d'" and "dp_get D d (encodeKey (ns_key s)) = Some (src, m)"
    and "parse J (stringify J (meta_of s t)) = Some (meta_of s t)"
    and "ns_delta s = None \<Longrightarrow> length b = ns_size s" and "ns_delta s \<noteq> None \<Longrightarrow> b \<noteq> []"
  shows "dir_get D J d d' (ns_key s) = Some (storedAs s t (snapshot_source s src))"
proof -
  have b: "source_bytes src = b" using assms(1,3) by (simp add: complete_def file_bytes_def)
  have "file_bytes D d' (meta_file (ns_key s)) = Some (stringify J (meta_of s t))"
    using assms(1,2) by (simp add: complete_def described_def own_kept_def file_bytes_def)
  then have "readMeta J (dp_get D d' (meta_file (ns_key s))) = meta_of s t"
    using assms(4) by (auto simp: readMeta_def file_bytes_def)
  then show ?thesis using assms(3,5,6) b
    by (auto simp: dir_get_def dir_get_end_def dir_infoOf_def meta_of_def storedAs_def snapshot_source_def
        comp_def layoutOf_def split: option.split)
qed

lemma key_files:
  assumes "k \<noteq> ns_key s"
  shows "dp_get D (fst (write_step D J s now fails (d, p))) (encodeKey k) = dp_get D d (encodeKey k)"
    and "dp_get D (fst (write_step D J s now fails (d, p))) (meta_file k) = dp_get D d (meta_file k)"
proof -
  have "dp_get D (fst (write_step D J s now fails (d, p))) n = dp_get D d n"
    if "n \<noteq> encodeKey (ns_key s)" "n \<noteq> meta_file (ns_key s)" for n
    using that by (cases p) (auto simp: others split: option.split sum.split)
  then show "dp_get D (fst (write_step D J s now fails (d, p))) (encodeKey k) = dp_get D d (encodeKey k)"
    "dp_get D (fst (write_step D J s now fails (d, p))) (meta_file k) = dp_get D d (meta_file k)"
    using assms by simp_all
qed

lemma write_reads:
  assumes content: "directory_file s = Inr b" and json: "\<forall>t. parse J (stringify J (meta_of s t)) = Some (meta_of s t)"
    and n: "ns_delta s = None \<Longrightarrow> length b = ns_size s" "ns_delta s \<noteq> None \<Longrightarrow> b \<noteq> []"
    and fresh: "fresh D s d0" and run: "write_run D J s (d0, W_look) (d, p)" "write_run D J s (d, p) (d', p')"
  shows "case dir_get D J d d' (ns_key s) of
      None \<Rightarrow> p \<noteq> W_done (Inr r)
    | Some sn \<Rightarrow> si_size (st_info sn) = 0 \<and> p \<noteq> W_done (Inr r)
        \<or> (\<exists>t src. sn = storedAs s t (snapshot_source s src) \<and> source_bytes src = b)
          \<and> (p = W_done (Inr r) \<longrightarrow> r = Some sn)"
proof -
  have inv: "write_inv D J s b (d, p)" using write_run_inv [OF run(1) content] fresh by simp
  have read: "\<exists>src m. dp_get D d (encodeKey (ns_key s)) = Some (src, m) \<and> source_bytes src = b
      \<and> dir_get D J d d' (ns_key s) = Some (storedAs s t (snapshot_source s src))"
    if c: "complete D J s b t d" and "(\<exists>u. p = W_read u) \<or> (\<exists>r. p = W_done r)" for t
  proof -
    obtain src m where g: "dp_get D d (encodeKey (ns_key s)) = Some (src, m)" "source_bytes src = b"
      using complete_get [OF c] by blast
    have "own_kept D s d d'" using complete_stays [OF run(2)] that by simp
    from complete_read [OF c this g(1)] show ?thesis using json n g by simp
  qed
  consider t where "complete D J s b t d" "p = W_read t"
    | t e where "complete D J s b t d" "p = W_done (Inl e)"
    | t r' where "complete D J s b t d" "p = W_done (Inr r')"
    | "fresh D s d" "\<And>r'. p \<noteq> W_done (Inr r')"
  proof (cases p)
    case (W_done q)
    then show ?thesis using inv that by (cases q) auto
  qed (use inv that in auto)
  then show ?thesis
  proof cases
    case (1 t)
    then obtain src where x: "source_bytes src = b"
      "dir_get D J d d' (ns_key s) = Some (storedAs s t (snapshot_source s src))"
      using read [OF 1(1)] by blast
    then have "\<exists>t' src'. storedAs s t (snapshot_source s src) = storedAs s t' (snapshot_source s src')
        \<and> source_bytes src' = b" by blast
    then show ?thesis by (simp add: x(2) 1(2))
  next
    case (2 t e)
    then obtain src where x: "source_bytes src = b"
      "dir_get D J d d' (ns_key s) = Some (storedAs s t (snapshot_source s src))"
      using read [OF 2(1)] by blast
    then have "\<exists>t' src'. storedAs s t (snapshot_source s src) = storedAs s t' (snapshot_source s src')
        \<and> source_bytes src' = b" by blast
    then show ?thesis by (simp add: x(2) 2(2))
  next
    case (3 t r')
    then obtain t' src m where c: "complete D J s b t' d" "dp_get D d (encodeKey (ns_key s)) = Some (src, m)"
      "r' = Some (storedAs s t' (snapshot_source s src))"
      using inv by auto
    have x: "source_bytes src = b" "dir_get D J d d' (ns_key s) = Some (storedAs s t' (snapshot_source s src))"
      using read [OF c(1)] c(2) 3(2) by auto
    then have "\<exists>u src'. storedAs s t' (snapshot_source s src) = storedAs s u (snapshot_source s src')
        \<and> source_bytes src' = b" by blast
    then show ?thesis by (simp add: x(2) 3(2) c(3))
  next
    case 4
    then show ?thesis using fresh_unreadable [OF 4(1), of J d'] by (auto split: option.splits)
  qed
qed

end

lemma dir_set_get:
  "map_get (dr_files (dir_set f t d n b)) m =
     (if m = n then Some \<lparr>df_source = f b, df_modified = t\<rparr> else map_get (dr_files d) m)"
  by (simp add: dir_set_def map_get_set)

lemma dir_delete_get: "map_get (dr_files (dir_delete d n)) m = (if m = n then None else map_get (dr_files d) m)"
  by (simp add: dir_delete_def map_get_delete)

interpretation opfs: snapshot_directory opfs_directory
  by unfold_locales
    (auto simp: opfs_directory_def file_bytes_def opfs_get_def opfs_create_def opfs_close_def opfs_abort_def
      opfs_remove_def dir_set_get dir_delete_get)

interpretation memory_dir: snapshot_directory memory_directory
  by unfold_locales
    (auto simp: memory_directory_def file_bytes_def memory_get_def memory_create_def memory_set_def
      memory_abort_def memory_remove_def dir_set_get dir_delete_get)

text \<open>
  \<open>abort\<close> is to leave the file as it was. In memory it does; over OPFS the file is gone, also one that
  had been written before the writer was created.
\<close>

lemma abort_of_written_file:
  assumes "file_bytes D d n = Some b" and "b \<noteq> []"
  shows "D = opfs_directory \<Longrightarrow> dp_get D (dp_abort D (dp_create D d n) n) n = None"
    and "D = memory_directory \<Longrightarrow> dp_get D (dp_abort D (dp_create D d n) n) n = dp_get D d n"
proof -
  show "dp_get D (dp_abort D (dp_create D d n) n) n = None" if "D = opfs_directory"
    by (simp add: that opfs_directory_def opfs_get_def opfs_abort_def dir_delete_get)
  show "dp_get D (dp_abort D (dp_create D d n) n) n = dp_get D d n" if "D = memory_directory"
    using assms by (auto simp: that memory_directory_def file_bytes_def memory_get_def memory_abort_def memory_create_def)
qed

section \<open>Properties\<close>

definition written_bytes :: "new_snapshot \<Rightarrow> bytes \<Rightarrow> bytes" where
  "written_bytes s old = (case ns_delta s of None \<Rightarrow> new_bytes s old | Some _ \<Rightarrow> pages_bytes s)"

lemma directory_contract:
  "D \<in> {opfs_directory, memory_directory} \<Longrightarrow> snapshot_directory D"
  using opfs.snapshot_directory_axioms memory_dir.snapshot_directory_axioms by auto

lemma directory_file_written:
  assumes "ns_pages_ok s" and "ns_base_ok s old"
  obtains b where "directory_file s = Inr b" "ns_delta s = None \<Longrightarrow> length b = ns_size s"
    "ns_delta s \<noteq> None \<Longrightarrow> b \<noteq> []" "\<And>src. source_bytes src = b \<Longrightarrow> source_bytes (snapshot_source s src) = written_bytes s old"
proof (cases "ns_delta s")
  case None
  show ?thesis
    by (rule that [OF directory_full [OF assms None]])
      (simp_all add: None new_bytes_def snapshot_source_def written_bytes_def)
next
  case (Some nd)
  have "subarray (m @ bs) (length m) (length (m @ bs)) = bs" for m bs :: bytes
    by (simp add: subarray_def)
  note sub = this [of DELTA_MARKER "pages_bytes s"]
  show ?thesis
  proof (rule that [OF directory_delta [OF assms(1) Some]])
    show "source_bytes (snapshot_source s src) = written_bytes s old"
      if "source_bytes src = DELTA_MARKER @ pages_bytes s" for src
      using sub by (simp add: Some snapshot_source_def written_bytes_def that)
  qed (simp_all add: Some DELTA_MARKER_def)
qed

text \<open>
  C39. The directory store writes a snapshot at once, over OPFS and in memory. Let nothing readable be
  under its key when \<open>write\<close> starts, and let others, who leave the key's two files alone, work in the
  directory between the awaits, any of which may fail. Whoever gets the key meanwhile or afterwards, also
  with any steps between reading the file and its metadata, finds nothing, or an empty file, which counts
  as not there, or the snapshot with exactly the content and metadata that are written; and from when
  \<open>write\<close> returns a snapshot on, \<open>get\<close> gives that one. It ends after at most twelve awaits, and what is
  under other keys it leaves as it is.
\<close>

theorem directory_write_atomic:
  assumes "D \<in> {opfs_directory, memory_directory}"
    and "ns_pages_ok s" and "ns_base_ok s old"
    and "\<forall>t. parse J (stringify J (meta_of s t)) = Some (meta_of s t)"
    and "\<forall>src m. dp_get D d0 (encodeKey (ns_key s)) = Some (src, m) \<longrightarrow> sizeOf src = 0"
    and "write_run D J s (d0, W_look) (d, p)" and "write_run D J s (d, p) (d', p')"
  shows "(case dir_get D J d d' (ns_key s) of
        None \<Rightarrow> p \<noteq> W_done (Inr r)
      | Some sn \<Rightarrow> si_size (st_info sn) = 0 \<and> p \<noteq> W_done (Inr r)
          \<or> (\<exists>t src. sn = storedAs s t src \<and> source_bytes src = written_bytes s old)
            \<and> (p = W_done (Inr r) \<longrightarrow> r = Some sn))
    \<and> (12 \<le> length ws \<longrightarrow>
         (\<exists>r. snd (foldl (\<lambda>x (now, fails). write_step D J s now fails x) (d, p) ws) = W_done r))
    \<and> (k \<noteq> ns_key s \<longrightarrow>
         dir_get D J (fst (write_step D J s now fails (d, p))) (fst (write_step D J s now fails (d, p))) k
           = dir_get D J d d k)"
proof (intro conjI impI)
  note c = directory_contract [OF assms(1)]
  obtain b where b: "directory_file s = Inr b" "ns_delta s = None \<Longrightarrow> length b = ns_size s"
    "ns_delta s \<noteq> None \<Longrightarrow> b \<noteq> []"
    "\<And>src. source_bytes src = b \<Longrightarrow> source_bytes (snapshot_source s src) = written_bytes s old"
    using directory_file_written [OF assms(2,3)] by blast
  have "fresh D s d0" using assms(5)
    by (cases "dp_get D d0 (encodeKey (ns_key s))") (auto simp: fresh_def file_bytes_def)
  note reads = snapshot_directory.write_reads [OF c b(1) assms(4) b(2,3) this assms(6,7), of r]
  show "case dir_get D J d d' (ns_key s) of
        None \<Rightarrow> p \<noteq> W_done (Inr r)
      | Some sn \<Rightarrow> si_size (st_info sn) = 0 \<and> p \<noteq> W_done (Inr r)
          \<or> (\<exists>t src. sn = storedAs s t src \<and> source_bytes src = written_bytes s old)
            \<and> (p = W_done (Inr r) \<longrightarrow> r = Some sn)"
  proof (cases "dir_get D J d d' (ns_key s)")
    case None
    then show ?thesis using reads by simp
  next
    case (Some sn)
    have "\<exists>t src. sn = storedAs s t src \<and> source_bytes src = written_bytes s old"
      if "sn = storedAs s t (snapshot_source s src)" "source_bytes src = b" for t src
      using that b(4) by blast
    then show ?thesis using reads unfolding Some option.simps by blast
  qed
  show "\<exists>r. snd (foldl (\<lambda>x (now, fails). write_step D J s now fails x) (d, p) ws) = W_done r"
    if "12 \<le> length ws"
    by (rule write_steps_end) (use that in \<open>cases p; simp\<close>)
  show "dir_get D J (fst (write_step D J s now fails (d, p))) (fst (write_step D J s now fails (d, p))) k
      = dir_get D J d d k" if "k \<noteq> ns_key s"
    using snapshot_directory.key_files [OF c that, of J now fails d p] by (simp add: dir_get_def)
qed

text \<open>A text for the metadata of \<open>ex_new\<close>: the time as a fraction in unary, with a sign between.\<close>

definition ex_json :: json where
  "ex_json = \<lparr>
     stringify = (\<lambda>m. case quotient_of (case mj_createdAt m of None \<Rightarrow> 0 | Some t \<Rightarrow> t) of (a, b) \<Rightarrow>
       replicate (nat \<bar>a\<bar>) 1 @ [if a < 0 then 2 else 3] @ replicate (nat b) 1),
     parse = (\<lambda>bs. let n = int (length (takeWhile (\<lambda>b. b = 1) bs));
                       rest = dropWhile (\<lambda>b. b = 1) bs;
                       a = (if hd rest = 2 then - n else n)
                   in Some (meta_of ex_new (rat_of_int a / rat_of_nat (length (tl rest)))))\<rparr>"

lemma ex_json_ok: "parse ex_json (stringify ex_json (meta_of ex_new t)) = Some (meta_of ex_new t)"
proof -
  obtain a b where q: "quotient_of t = (a, b)" by (cases "quotient_of t")
  have "0 < b" using quotient_of_denom_pos [OF q] .
  have t: "t = rat_of_int a / rat_of_int b" using quotient_of_div [OF q] .
  have w: "takeWhile (\<lambda>b. b = 1) (replicate n 1 @ x # r) = replicate n 1"
    "dropWhile (\<lambda>b. b = 1) (replicate n 1 @ x # r) = x # r" if "x \<noteq> (1 :: byte)" for n x r
    using that by (induction n) simp_all
  have n: "(2 :: byte) \<noteq> 1" "(3 :: byte) \<noteq> 1" by simp_all
  show ?thesis
    using \<open>0 < b\<close> by (cases "a < 0") (simp_all add: ex_json_def Let_def meta_of_def q w [OF n(1)] w [OF n(2)] t [symmetric])
qed

lemma run_step: "write_run D J s x y \<Longrightarrow> write_step D J s now None y = z \<Longrightarrow> write_run D J s x z"
  using own by blast

definition ex_dir :: directory where
  "ex_dir = \<lparr>dr_files = [], dr_clock = 0\<rparr>"

theorem directory_write_atomic_witness:
  "\<exists>d sn. write_run opfs_directory ex_json ex_new (ex_dir, W_look) (d, W_done (Inr (Some sn)))
     \<and> dir_get opfs_directory ex_json d d (ns_key ex_new) = Some sn
     \<and> (\<exists>src. sn = storedAs ex_new 5 src \<and> source_bytes src = [1, 2, 0, 1, 10, 11, 0, 0, 20, 21, 0, 0])"
proof -
  let ?b = "[1, 2, 0, 1, 10, 11, 0, 0, 20, 21, 0, 0]" and ?k = "encodeKey (ns_key ex_new)" and ?m = "meta_file (ns_key ex_new)"
  have delta: "ns_delta ex_new = None" by (simp add: ex_new_def)
  have f: "directory_file ex_new = Inr ?b" using directory_full [OF ex_new_ok delta] ex_new_bytes by simp
  define d1 where "d1 = dp_create opfs_directory ex_dir ?k"
  define d2 where "d2 = dp_create opfs_directory d1 ?m"
  define d3 where "d3 = dp_close opfs_directory d2 ?m (stringify ex_json (meta_of ex_new 5))"
  define d where "d = dp_close opfs_directory d3 ?k ?b"
  have none: "dp_get opfs_directory ex_dir ?k = None"
    by (simp add: opfs_directory_def opfs_get_def ex_dir_def)
  have got: "\<exists>t. dp_get opfs_directory d ?k = Some (Blob ?b, t)"
    by (simp add: d_def opfs_directory_def opfs_get_def opfs_close_def dir_set_get)
  let ?run = "write_run opfs_directory ex_json ex_new (ex_dir, W_look)"
  have "?run (ex_dir, W_create)" by (rule run_step [OF stay, of _ _ _ 0]) (simp add: none)
  then have "?run (d1, W_meta)" by (rule run_step [of _ _ _ _ _ 0]) (simp add: d1_def)
  then have "?run (d2, W_meta_copy 5)" by (rule run_step [of _ _ _ _ _ 5]) (simp add: d2_def)
  then have "?run (d2, W_meta_close 5)" by (rule run_step [of _ _ _ _ _ 0]) simp
  then have "?run (d3, W_content 5)" by (rule run_step [of _ _ _ _ _ 0]) (simp add: d3_def)
  then have "?run (d3, W_close 5 ?b)" by (rule run_step [of _ _ _ _ _ 0]) (simp add: f delta)
  then have "?run (d, W_read 5)" by (rule run_step [of _ _ _ _ _ 0]) (simp add: d_def)
  then have run: "?run (d, W_done (Inr (Some (storedAs ex_new 5 (Blob ?b)))))"
    by (rule run_step [of _ _ _ _ _ 0]) (use got delta in auto)
  have start: "\<forall>src m. dp_get opfs_directory ex_dir (encodeKey (ns_key ex_new)) = Some (src, m) \<longrightarrow> sizeOf src = 0"
    by (simp add: opfs_directory_def opfs_get_def ex_dir_def)
  note a = conjunct1 [OF directory_write_atomic [OF _ ex_new_ok allI [OF ex_json_ok] start run stay,
      of "Some (storedAs ex_new 5 (Blob ?b))"]]
  have "dir_get opfs_directory ex_json d d (ns_key ex_new) = Some (storedAs ex_new 5 (Blob ?b))"
    using a by (auto split: option.splits)
  then show ?thesis using run by (intro exI [of _ d] exI [of _ "storedAs ex_new 5 (Blob ?b)"]) auto
qed

end
