(* ===== verification/Value_Types.thy ===== *)
theory Value_Types
  imports Statements
begin

text \<open>
  The types of values between JavaScript and SQL: what \<open>bind\<close> makes of each value, the table in its
  documentation, and what \<open>column\<close> reads back. What SQLite does with a bound value is a parameter, of which
  only what its documentation says is relied on.
\<close>

section \<open>What SQLite has of a bound value\<close>

text \<open>The type, the number and the bytes that the functions for a column give.\<close>

record cell =
  ce_type :: nat
  ce_double :: js_double
  ce_bytes :: bytes

text \<open>
  \<open>stored heap b\<close> is what a column has that is the bound value \<open>b\<close>, which SQLite reads from the heap in a
  step: an integer is read as the same number, NaN and the NULL pointer are NULL.
\<close>

definition stores_bound :: "(bytes \<Rightarrow> binding \<Rightarrow> cell) \<Rightarrow> bool" where
  "stores_bound stored \<longleftrightarrow>
     (\<forall>heap i. ce_type (stored heap (BInt i)) = 1 \<and> ce_double (stored heap (BInt i)) = Finite (of_int i))
     \<and> (\<forall>heap d. d \<noteq> NaN \<longrightarrow> ce_type (stored heap (BDouble d)) = 2 \<and> ce_double (stored heap (BDouble d)) = d)
     \<and> (\<forall>heap. ce_type (stored heap (BDouble NaN)) = 5)
     \<and> (\<forall>heap p n. p \<noteq> 0 \<longrightarrow> ce_type (stored heap (BText p n)) = 3 \<and> ce_bytes (stored heap (BText p n)) = subarray heap p (p + n))
     \<and> (\<forall>heap p n. p \<noteq> 0 \<longrightarrow> ce_type (stored heap (BBlob p n)) = 4 \<and> ce_bytes (stored heap (BBlob p n)) = subarray heap p (p + n))
     \<and> (\<forall>heap n. ce_type (stored heap (BBlob 0 n)) = 5)"

text \<open>
  What \<open>bindString\<close> and \<open>bindBlob\<close> write to the heap for a value that is bound as \<open>b\<close>.
\<close>

definition bind_heap :: "js_value \<Rightarrow> binding \<Rightarrow> bytes \<Rightarrow> bytes result" where
  "bind_heap v b heap =
     (case v of
        VString str \<Rightarrow> (case b of BText p n \<Rightarrow> bind_string heap p str | _ \<Rightarrow> Inr heap)
      | VArray a \<Rightarrow> (case b of BBlob p n \<Rightarrow> u8_set heap a p | _ \<Rightarrow> Inr heap)
      | _ \<Rightarrow> Inr heap)"

primrec write_all :: "(js_value \<times> binding) list \<Rightarrow> bytes \<Rightarrow> bytes result" where
  "write_all [] heap = Inr heap"
| "write_all (vb # vbs) heap = and_then (bind_heap (fst vb) (snd vb) heap) (write_all vbs)"

text \<open>
  Where the block of a binding ends, with the zero after a text, and its bytes. Blocks that \<open>malloc\<close> gave
  lie in the heap and apart.
\<close>

fun block_end :: "binding \<Rightarrow> nat" where
  "block_end (BText p n) = p + n + 1"
| "block_end (BBlob p n) = p + n"
| "block_end (BInt i) = 0"
| "block_end (BDouble d) = 0"

fun block_start :: "binding \<Rightarrow> nat" where
  "block_start (BText p n) = p"
| "block_start (BBlob p n) = p"
| "block_start (BInt i) = 0"
| "block_start (BDouble d) = 0"

fun block_bytes :: "bytes \<Rightarrow> binding \<Rightarrow> bytes" where
  "block_bytes heap (BText p n) = subarray heap p (p + n)"
| "block_bytes heap (BBlob p n) = subarray heap p (p + n)"
| "block_bytes heap (BInt i) = []"
| "block_bytes heap (BDouble d) = []"

definition apart :: "binding \<Rightarrow> binding \<Rightarrow> bool" where
  "apart b c \<longleftrightarrow> block_end b \<le> block_start c \<or> block_end c \<le> block_start b"

definition blocks_ok :: "bytes \<Rightarrow> binding list \<Rightarrow> bool" where
  "blocks_ok heap bs \<longleftrightarrow> (\<forall>b \<in> set bs. block_end b \<le> length heap) \<and> sorted_wrt apart bs"

text \<open>The block of a binding still has what was written there.\<close>

definition block_kept :: "js_value \<Rightarrow> binding \<Rightarrow> bytes \<Rightarrow> bool" where
  "block_kept v b heap \<longleftrightarrow>
     (\<exists>start written. block_end b \<le> length start \<and> bind_heap v b start = Inr written
        \<and> block_bytes heap b = block_bytes written b)"

section \<open>The table of types\<close>

definition bindable :: "js_value \<Rightarrow> bool" where
  "bindable v \<longleftrightarrow> v \<noteq> Other_object \<and> v \<noteq> Other"

text \<open>A whole number of 32 bits.\<close>

definition is_int32 :: "js_double \<Rightarrow> bool" where
  "is_int32 x = (case x of Finite r \<Rightarrow> r = of_int \<lfloor>r\<rfloor> \<and> - (2 ^ 31) \<le> \<lfloor>r\<rfloor> \<and> \<lfloor>r\<rfloor> < 2 ^ 31 | NegZero \<Rightarrow> True | _ \<Rightarrow> False)"

definition sql_type :: "js_value \<Rightarrow> nat" where
  "sql_type v =
     (case v of
        VString _ \<Rightarrow> 3
      | VNumber x \<Rightarrow> if x = NaN then 5 else if is_int32 x then 1 else 2
      | VBoolean _ \<Rightarrow> 1
      | VArray _ \<Rightarrow> 4
      | _ \<Rightarrow> 5)"

text \<open>What \<open>column\<close> gives for a value that was bound.\<close>

definition read_back :: "js_value \<Rightarrow> column_value" where
  "read_back v =
     (case v of
        VString str \<Rightarrow> CText (case str of [] \<Rightarrow> [] | c # s \<Rightarrow> if c = BOM then s else str)
      | VNumber x \<Rightarrow> if x = NaN then CNull else CNumber (plus_0 x)
      | VBoolean b \<Rightarrow> CNumber (Finite (if b then 1 else 0))
      | VArray a \<Rightarrow> CBlob a
      | _ \<Rightarrow> CNull)"

section \<open>Numbers\<close>

lemma sint32_eq: "sint (word_of_int i :: 32 word) = i \<longleftrightarrow> - (2 ^ 31) \<le> i \<and> i < 2 ^ 31"
  by (simp add: signed_of_int signed_take_bit_int_eq_self_iff)

lemma trunc_of_int [simp]: "trunc (of_int i) = i"
  by (simp add: trunc_def)

lemma int32_iff: "equals_int (plus_0 x) (or_0 (plus_0 x)) \<longleftrightarrow> is_int32 x"
proof (cases x)
  case (Finite r)
  show ?thesis
  proof (cases "r = of_int \<lfloor>r\<rfloor>")
    case True
    then have "trunc r = \<lfloor>r\<rfloor>" using trunc_of_int [of "\<lfloor>r\<rfloor>"] by simp
    moreover have "r = of_int i \<longleftrightarrow> i = \<lfloor>r\<rfloor>" for i using True by (metis floor_of_int)
    note this [of "sint (word_of_int \<lfloor>r\<rfloor> :: 32 word)"]
    ultimately have "equals_int x (or_0 x) \<longleftrightarrow> sint (word_of_int \<lfloor>r\<rfloor> :: 32 word) = \<lfloor>r\<rfloor>"
      unfolding Finite equals_int_def or_0_def js_double.case by (simp only:)
    also have "\<dots> \<longleftrightarrow> is_int32 x" using True unfolding sint32_eq Finite is_int32_def by simp
    finally show ?thesis using Finite by (simp add: plus_0_def)
  next
    case False
    then have "r \<noteq> of_int i" for i by auto
    then show ?thesis using False Finite by (simp add: equals_int_def is_int32_def plus_0_def)
  qed
qed (simp_all add: equals_int_def or_0_def is_int32_def plus_0_def trunc_def)

lemma equals_or_0: "equals_int (plus_0 x) (or_0 (plus_0 x)) \<Longrightarrow> plus_0 x = Finite (of_int (or_0 (plus_0 x)))"
  by (cases x) (auto simp: equals_int_def plus_0_def or_0_def trunc_def)

section \<open>Binding\<close>

text \<open>What a value is bound as: as a number, or as a block that is not at 0, or as NULL.\<close>

definition bound_as :: "js_value \<Rightarrow> binding \<Rightarrow> bool" where
  "bound_as v b \<longleftrightarrow>
     (case v of
        VString str \<Rightarrow> \<exists>p. p \<noteq> 0 \<and> b = BText p (length (encode str))
      | VArray a \<Rightarrow> \<exists>p. p \<noteq> 0 \<and> b = BBlob p (length a)
      | VNumber x \<Rightarrow> b = (if is_int32 x then BInt (or_0 (plus_0 x)) else BDouble (plus_0 x))
      | VBoolean t \<Rightarrow> b = BInt (if t then 1 else 0)
      | VNull \<Rightarrow> b = BBlob 0 0
      | _ \<Rightarrow> False)"

lemma bindValue_bound:
  assumes "bindValue malloc code v pos s = (s', Inr ())" and "fresh malloc" and "finite (sm_alive s)"
  shows "\<exists>b. bound_as v b \<and> sm_bound s' = map_set pos b (sm_bound s)" and "code pos = 0" and "bindable v"
proof -
  have fresh: "malloc (sm_alive s) n \<noteq> 0" for n using assms(2,3) by (simp add: fresh_def)
  have bool: "is_int32 (Finite (if t then 1 else 0))" "or_0 (Finite (if t then 1 else 0)) = (if t then 1 else 0)"
    "equals_int (Finite (if t then 1 else 0)) (if t then 1 else 0)" for t
    by (simp_all add: is_int32_def or_0_def trunc_def equals_int_def)
  show "code pos = 0" using assms(1)
    by (auto simp: bindValue_def bindString_def bindBlob_def bindNumber_def bindNull_def sqlite_bind_def Let_def
        split: js_value.splits if_splits)
  then show "\<exists>b. bound_as v b \<and> sm_bound s' = map_set pos b (sm_bound s)" using assms(1) fresh bool
    by (cases v) (auto simp: bindValue_def bindString_def bindBlob_def bindNumber_def bindNull_def sqlite_bind_def
        Let_def bound_as_def int32_iff, blast+)
  show "bindable v" using assms(1) by (auto simp: bindValue_def bindable_def)
qed

lemma bindValue_code_0:
  "snd (bindValue malloc (\<lambda>_. 0) v pos s) = (if bindable v then Inr () else Inl unknown_type)"
  by (cases v) (simp_all add: bindValue_def bindString_def bindBlob_def bindNumber_def bindNull_def sqlite_bind_def
      Let_def bindable_def)

lemma bindFromArray_code_0:
  "snd (bindFromArray malloc (\<lambda>_. 0) i vs s) = (if \<forall>v \<in> set vs. bindable v then Inr () else Inl unknown_type)"
proof (induction vs arbitrary: i s)
  case (Cons v vs)
  obtain s' r where b: "bindValue malloc (\<lambda>_. 0) v (i + 1) s = (s', r)" by fastforce
  then have "r = (if bindable v then Inr () else Inl unknown_type)"
    using bindValue_code_0 [of malloc v "i + 1" s] by simp
  then show ?case using b Cons.IH by simp
qed simp

text \<open>Every position has what its value is bound as; those up to \<open>i\<close> keep what they had.\<close>

lemma bindFromArray_bound:
  assumes "bindFromArray malloc code i vs s = (s', Inr ())" and "fresh malloc" and "mem_ok others s" and "bound_ok s"
  shows "(\<forall>k < length vs. \<exists>b. map_get (sm_bound s') (i + k + 1) = Some b \<and> bound_as (vs ! k) b)
    \<and> (\<forall>pos \<le> i. map_get (sm_bound s') pos = map_get (sm_bound s) pos)"
  using assms(1,3,4)
proof (induction vs arbitrary: i s)
  case (Cons v vs)
  obtain s1 where s1: "bindValue malloc code v (i + 1) s = (s1, Inr ())"
    and rest: "bindFromArray malloc code (i + 1) vs s1 = (s', Inr ())"
    using Cons.prems(1) by (auto split: prod.splits sum.splits)
  have "finite (sm_alive s)" using Cons.prems(2) by (simp add: mem_ok_def)
  then obtain b where b: "bound_as v b" "sm_bound s1 = map_set (i + 1) b (sm_bound s)"
    using bindValue_bound(1) [OF s1 assms(2)] by blast
  have "mem_ok others s1" "bound_ok s1"
    using bindValue_ok [OF Cons.prems(2,3) assms(2), of code v "i + 1"] s1 by simp_all
  note IH = Cons.IH [OF rest this]
  have "map_get (sm_bound s') (i + 1) = Some b" using IH b(2) by (simp add: map_get_set)
  then have "\<exists>b. map_get (sm_bound s') (i + k + 1) = Some b \<and> bound_as ((v # vs) ! k) b"
    if "k < Suc (length vs)" for k
    using IH b(1) that by (cases k) auto
  moreover have "map_get (sm_bound s') pos = map_get (sm_bound s) pos" if "pos \<le> i" for pos
    using IH b(2) that by (simp add: map_get_set)
  ultimately show ?case by simp
qed simp

section \<open>The blocks in the heap\<close>

lemma bind_heap_outside:
  assumes "bind_heap v b heap = Inr heap'" and "bound_as v b" and "block_end b \<le> length heap"
  shows "length heap' = length heap" 
    and "q < length heap \<Longrightarrow> q < block_start b \<or> block_end b \<le> q \<Longrightarrow> heap' ! q = heap ! q"
proof -
  have "length heap' = length heap
      \<and> (q < length heap \<and> (q < block_start b \<or> block_end b \<le> q) \<longrightarrow> heap' ! q = heap ! q)"
    using assms
    by (cases v) (auto simp: bind_heap_def bound_as_def bind_string_def Let_def nth_overwrite nth_list_update split: if_splits)
  then show "length heap' = length heap"
    "q < length heap \<Longrightarrow> q < block_start b \<or> block_end b \<le> q \<Longrightarrow> heap' ! q = heap ! q" by blast+
qed

lemma bind_heap_apart:
  assumes "bind_heap v b heap = Inr heap'" and "bound_as v b" and "block_end b \<le> length heap" and "apart c b"
  shows "block_bytes heap' c = block_bytes heap c"
proof -
  note out = bind_heap_outside [OF assms(1-3)]
  have "subarray heap' p (p + n) = subarray heap p (p + n)" if "p + n \<le> block_start b \<or> block_end b \<le> p" for p n
    using that out(1) by (intro nth_equalityI) (auto simp: nth_subarray intro!: out(2))
  then show ?thesis using assms(4) by (cases c) (auto simp: apart_def)
qed

lemma write_all_kept:
  assumes "write_all (zip vs bs) heap = Inr heap'" and "list_all2 bound_as vs bs" and "blocks_ok heap bs"
  shows "length heap' = length heap \<and> list_all2 (\<lambda>v b. block_kept v b heap') vs bs
    \<and> (\<forall>c. (\<forall>b \<in> set bs. apart c b) \<longrightarrow> block_bytes heap' c = block_bytes heap c)"
  using assms(2,1,3)
proof (induction arbitrary: heap rule: list_all2_induct)
  case (Cons v vs b bs)
  obtain heap1 where w: "bind_heap v b heap = Inr heap1" "write_all (zip vs bs) heap1 = Inr heap'"
    using Cons.prems(1) by (auto simp: and_then_eq_Inr)
  have e: "block_end b \<le> length heap" using Cons.prems(2) by (simp add: blocks_ok_def)
  note out = bind_heap_outside(1) [OF w(1) Cons.hyps(1) e]
  have "blocks_ok heap1 bs" using Cons.prems(2) out by (simp add: blocks_ok_def)
  note IH = Cons.IH [OF w(2) this]
  have "\<forall>c \<in> set bs. apart b c" using Cons.prems(2) by (simp add: blocks_ok_def)
  then have "block_bytes heap' b = block_bytes heap1 b" using IH by blast
  then have "block_kept v b heap'" using w(1) e unfolding block_kept_def by blast
  moreover have "block_bytes heap' c = block_bytes heap c" if "\<forall>d \<in> set (b # bs). apart c d" for c
    using that IH bind_heap_apart [OF w(1) Cons.hyps(1) e, of c] by simp
  ultimately show ?case using IH out by simp
qed simp

section \<open>Reading\<close>

lemma u8_set_block:
  "u8_set heap bs p = Inr heap' \<Longrightarrow> p + length bs \<le> length heap \<Longrightarrow> subarray heap' p (p + length bs) = bs"
  by (auto intro!: nth_equalityI simp: u8_set_def nth_subarray nth_overwrite split: if_splits)

text \<open>A column that has this cell gives \<open>x\<close>, wherever SQLite has its bytes.\<close>

definition reads_as :: "cell \<Rightarrow> column_value \<Rightarrow> bool" where
  "reads_as c x \<longleftrightarrow>
     (\<forall>heap p. subarray heap p (p + length (ce_bytes c)) = ce_bytes c \<longrightarrow>
        column heap (ce_type c) (ce_double c) p (length (ce_bytes c)) = x)"

lemma text_cell:
  assumes "stores_bound stored" and "b = BText p (length (encode str))" and "p \<noteq> 0"
    and "block_kept (VString str) b heap" and "\<forall>c \<in> set str. scalar c"
  shows "ce_type (stored heap b) = 3 \<and> reads_as (stored heap b) (read_back (VString str))"
proof -
  have t: "ce_type (stored heap b) = 3" "ce_bytes (stored heap b) = subarray heap p (p + length (encode str))"
    using assms(1-3) by (simp_all add: stores_bound_def)
  obtain h h' where "p + length (encode str) + 1 \<le> length h" "bind_string h p str = Inr h'"
    "subarray heap p (p + length (encode str)) = subarray h' p (p + length (encode str))"
    using assms(2,4) by (auto simp: block_kept_def bind_heap_def)
  then have "ce_bytes (stored heap b) = encode str" using bind_string_block(1) [of h p str h'] t(2) by simp
  then show ?thesis using t(1) decode_encode [OF assms(5)]
    by (auto simp: reads_as_def column_def decode_text read_back_def split: list.split)
qed

lemma blob_cell:
  assumes "stores_bound stored" and "b = BBlob p (length a)" and "p \<noteq> 0" and "block_kept (VArray a) b heap"
  shows "ce_type (stored heap b) = 4 \<and> reads_as (stored heap b) (read_back (VArray a))"
proof -
  have t: "ce_type (stored heap b) = 4" "ce_bytes (stored heap b) = subarray heap p (p + length a)"
    using assms(1-3) by (simp_all add: stores_bound_def)
  obtain h h' where "p + length a \<le> length h" "u8_set h a p = Inr h'"
    "subarray heap p (p + length a) = subarray h' p (p + length a)"
    using assms(2-4) by (auto simp: block_kept_def bind_heap_def)
  then have "ce_bytes (stored heap b) = a" using u8_set_block [of h a p h'] t(2) by simp
  then show ?thesis using t(1) by (auto simp: reads_as_def column_def read_back_def)
qed

lemma number_cell:
  assumes "stores_bound stored" and "b = (if is_int32 x then BInt (or_0 (plus_0 x)) else BDouble (plus_0 x))"
  shows "ce_type (stored heap b) = sql_type (VNumber x) \<and> reads_as (stored heap b) (read_back (VNumber x))"
proof (cases "is_int32 x")
  case True
  then have "x \<noteq> NaN" "Finite (of_int (or_0 (plus_0 x))) = plus_0 x"
    using equals_or_0 [of x] by (auto simp: is_int32_def int32_iff)
  then show ?thesis using assms True
    by (simp add: stores_bound_def sql_type_def reads_as_def column_def read_back_def)
next
  case False
  then show ?thesis using assms
    by (simp add: stores_bound_def sql_type_def reads_as_def column_def read_back_def plus_0_def)
qed

lemma cell_read:
  assumes "stores_bound stored" and "bound_as v b" and "block_kept v b heap"
    and "\<And>str. v = VString str \<Longrightarrow> \<forall>c \<in> set str. scalar c"
  shows "ce_type (stored heap b) = sql_type v \<and> reads_as (stored heap b) (read_back v)"
proof (cases v)
  case (VString str)
  then show ?thesis using assms text_cell by (auto simp: bound_as_def sql_type_def)
next
  case (VArray a)
  then show ?thesis using assms blob_cell by (auto simp: bound_as_def sql_type_def)
next
  case (VNumber x)
  then show ?thesis using assms(1,2) number_cell by (simp add: bound_as_def)
next
  case (VBoolean t)
  then show ?thesis using assms(1,2)
    by (simp add: bound_as_def stores_bound_def sql_type_def reads_as_def column_def read_back_def)
next
  case VNull
  then show ?thesis using assms(1,2)
    by (simp add: bound_as_def stores_bound_def sql_type_def reads_as_def column_def read_back_def)
qed (use assms(2) in \<open>simp_all add: bound_as_def\<close>)

section \<open>Properties\<close>


text \<open>A SQLite that does only this, a \<open>malloc\<close> of spaced blocks, and a text, two numbers and an array.\<close>

definition ex_cell :: "bytes \<Rightarrow> binding \<Rightarrow> cell" where
  "ex_cell heap b =
     (case b of
        BInt i \<Rightarrow> \<lparr>ce_type = 1, ce_double = Finite (of_int i), ce_bytes = []\<rparr>
      | BDouble d \<Rightarrow> \<lparr>ce_type = if d = NaN then 5 else 2, ce_double = d, ce_bytes = []\<rparr>
      | BText p n \<Rightarrow> \<lparr>ce_type = 3, ce_double = Finite 0, ce_bytes = subarray heap p (p + n)\<rparr>
      | BBlob p n \<Rightarrow> \<lparr>ce_type = if p = 0 then 5 else 4, ce_double = Finite 0, ce_bytes = subarray heap p (p + n)\<rparr>)"

lemma ex_cell_stores: "stores_bound ex_cell"
  by (simp add: stores_bound_def ex_cell_def)

definition ex_spaced :: "nat set \<Rightarrow> nat \<Rightarrow> nat" where
  "ex_spaced A n = Max (insert 0 A) + 16"

lemma ex_spaced_fresh: "fresh ex_spaced"
proof -
  have "Max (insert 0 A) + 16 \<notin> A" if "finite A" for A :: "nat set"
    using Max_ge [of "insert 0 A" "Max (insert 0 A) + 16"] that by auto
  then show ?thesis by (simp add: fresh_def ex_spaced_def)
qed

definition ex_values :: "js_value list" where
  "ex_values = [VString [0xE9], VNumber (Finite (1 / 2)), VNumber NegZero, VArray [7, 8]]"

definition ex_bindings :: "binding list" where
  "ex_bindings = [BText 16 2, BDouble (Finite (1 / 2)), BInt 0, BBlob 32 2]"


end
