(* ===== verification/Sessions.thy ===== *)
theory Sessions
  imports Prelude
begin

text \<open>
  \<open>Session\<close> of snapshots.ts: its queue of saves, what \<open>close\<close> waits for, and the automatic saves
  (\<open>#autoSave\<close>), with what they use of a \<open>Database\<close> (\<open>inTransaction\<close>, \<open>isClosed\<close>, the condition of \<open>fork\<close>,
  and the listeners of \<open>watchCommits\<close>). It is a state machine: an event is a call, a commit, a timer that
  fires or a promise that settles, and everything the code does in one turn is one step. What a save
  writes is Save_Write; here a snapshot is the number of commits it has.
\<close>

section \<open>State\<close>

record save_job =
  sj_id :: nat
  sj_snapshot :: nat
  sj_auto :: bool

text \<open>What \<open>close\<close> awaits: the save it made (if that was not refused), then the queue up to a job.\<close>

datatype close_phase = Not_closing | Awaits_save "nat option" | Awaits_queue nat | Resolved

text \<open>
  The database is its number of commits, whether it is within BEGIN (\<open>se_begun\<close>), whether it has a
  write transaction, and whether it is closed. \<open>se_auto\<close> is the save that \<open>running\<close> stands for, None
  for one that was refused at once. The last three fields are no state of the code: the commits
  the last automatic save has, whether an attempt since the last commit gave up, and the commits the
  last check of the size held saw.
\<close>

record session =
  se_commits :: nat
  se_begun :: bool
  se_writeTx :: bool
  se_closed :: bool
  se_queue :: "save_job list"
  se_settled :: "save_job list"
  se_waiting :: "nat list"
  se_next :: nat
  se_close :: close_phase
  se_watching :: bool
  se_stopped :: bool
  se_timer :: bool
  se_checking :: bool
  se_running :: bool
  se_again :: bool
  se_auto :: "nat option"
  se_covered :: nat
  se_gave_up :: bool
  se_checked :: nat

record auto_options =
  ao_after :: bool
  ao_maxHeld :: "nat option"

definition new_session :: "auto_options \<Rightarrow> session" where
  "new_session o' = \<lparr>se_commits = 0, se_begun = False, se_writeTx = False, se_closed = False,
     se_queue = [], se_settled = [], se_waiting = [], se_next = 0, se_close = Not_closing,
     se_watching = (ao_after o' \<or> ao_maxHeld o' \<noteq> None), se_stopped = False, se_timer = False,
     se_checking = False, se_running = False, se_again = False, se_auto = None,
     se_covered = 0, se_gave_up = False, se_checked = 0\<rparr>"

section \<open>Saving and closing\<close>

text \<open>\<open>fork\<close> throws for a closed database and in a write transaction.\<close>

definition fork_throws :: "session \<Rightarrow> bool" where
  "fork_throws st \<longleftrightarrow> se_closed st \<or> se_writeTx st"

definition inTransaction :: "session \<Rightarrow> bool" where
  "inTransaction st \<longleftrightarrow> \<not> se_closed st \<and> se_begun st"

text \<open>\<open>save\<close>: the state is taken at once, and its turn comes after those before; or it is refused.\<close>

definition session_save :: "bool \<Rightarrow> session \<Rightarrow> session \<times> nat option" where
  "session_save auto st =
     (if fork_throws st then (st, None)
      else (st\<lparr>se_queue := se_queue st @ [\<lparr>sj_id = se_next st, sj_snapshot = se_commits st, sj_auto = auto\<rparr>],
               se_waiting := se_waiting st @ [se_next st], se_next := se_next st + 1\<rparr>, Some (se_next st)))"

text \<open>The save whose turn it is has been written, or that failed: \<open>finally\<close>.\<close>

definition save_settles :: "session \<Rightarrow> session option" where
  "save_settles st =
     (case se_queue st of
        [] \<Rightarrow> None
      | j # js \<Rightarrow> Some (st\<lparr>se_queue := js, se_settled := se_settled st @ [j],
                          se_waiting := remove1 (sj_id j) (se_waiting st)\<rparr>))"

definition queued :: "session \<Rightarrow> nat \<Rightarrow> bool" where
  "queued st i \<longleftrightarrow> i \<in> set (map sj_id (se_queue st))"

text \<open>\<open>stop\<close> and \<open>active\<close>; the session is active if it is not stopped afterwards.\<close>

definition stop :: "session \<Rightarrow> session" where
  "stop st = st\<lparr>se_stopped := True, se_timer := False, se_watching := False\<rparr>"

definition active :: "session \<Rightarrow> session" where
  "active st = (if se_stopped st \<or> se_closed st then stop st else st)"

text \<open>
  \<open>close\<close>, called once: with \<open>save\<close>, up to awaiting that, and then the rest; without, all of it up to
  awaiting the queue; and whether that is done.
\<close>

definition close_database :: "session \<Rightarrow> session" where
  "close_database st = st\<lparr>se_closed := True, se_close := Awaits_queue (se_next st)\<rparr>"

definition close_called :: "bool \<Rightarrow> session \<Rightarrow> session option" where
  "close_called save st =
     (if se_close st \<noteq> Not_closing then None
      else let st = stop st
           in if save \<and> \<not> se_closed st
              then (case session_save False st of (st', i) \<Rightarrow> Some (st'\<lparr>se_close := Awaits_save i\<rparr>))
              else Some (close_database st))"

definition close_goes_on :: "session \<Rightarrow> session option" where
  "close_goes_on st =
     (case se_close st of
        Awaits_save i \<Rightarrow>
          if (case i of None \<Rightarrow> True | Some i \<Rightarrow> \<not> queued st i) then Some (close_database st) else None
      | Awaits_queue n \<Rightarrow> if list_all (\<lambda>j. n \<le> sj_id j) (se_queue st) then Some (st\<lparr>se_close := Resolved\<rparr>) else None
      | _ \<Rightarrow> None)"

section \<open>Automatic saves\<close>

text \<open>What \<open>options.key\<close> gives, or that it or \<open>options.meta\<close> throws.\<close>

datatype key_choice = Chosen | Skipped | Threw

definition run_auto :: "key_choice \<Rightarrow> session \<Rightarrow> session" where
  "run_auto c st =
     (let st = active (st\<lparr>se_timer := False\<rparr>)
      in if se_stopped st then st
         else if se_running st then st\<lparr>se_again := True\<rparr>
         else if inTransaction st then st\<lparr>se_gave_up := True\<rparr>
         else if c \<noteq> Chosen then st\<lparr>se_gave_up := True\<rparr>
         else (case session_save True (st\<lparr>se_running := True\<rparr>) of
                 (st', None) \<Rightarrow> st'\<lparr>se_auto := None, se_gave_up := True\<rparr>
               | (st', Some i) \<Rightarrow> st'\<lparr>se_auto := Some i, se_covered := se_commits st'\<rparr>))"

text \<open>The \<open>finally\<close> of an automatic save.\<close>

definition auto_settles :: "key_choice \<Rightarrow> session \<Rightarrow> session option" where
  "auto_settles c st =
     (if se_running st \<and> (case se_auto st of None \<Rightarrow> True | Some i \<Rightarrow> \<not> queued st i)
      then (let st = st\<lparr>se_running := False\<rparr>
            in Some (if se_again st then run_auto c (st\<lparr>se_again := False\<rparr>) else st))
      else None)"

definition committed :: "auto_options \<Rightarrow> session \<Rightarrow> session" where
  "committed o' st =
     (let st = (if ao_after o' then st\<lparr>se_timer := True\<rparr> else st)
      in if ao_maxHeld o' \<noteq> None \<and> \<not> se_checking st then st\<lparr>se_checking := True\<rparr> else st)"

definition check_fires :: "auto_options \<Rightarrow> nat \<Rightarrow> key_choice \<Rightarrow> session \<Rightarrow> session" where
  "check_fires o' held c st =
     (let st = active (st\<lparr>se_checking := False, se_checked := se_commits st\<rparr>)
      in if \<not> se_stopped st \<and> \<not> inTransaction st
            \<and> (case ao_maxHeld o' of None \<Rightarrow> False | Some n \<Rightarrow> n \<le> held)
         then run_auto c st else st)"

section \<open>Steps\<close>

text \<open>
  \<open>Commits\<close> is a transaction that commits changes, in which SQLite calls the listeners; \<open>Transaction\<close> is
  any other change of the transaction, such as BEGIN, a write within it, or ROLLBACK. \<open>Db_closes\<close> is
  \<open>db.close()\<close>. None is an event that cannot happen.
\<close>

datatype session_event =
    Commits
  | Transaction bool bool
  | Db_closes
  | Save_called
  | Save_settles
  | Close_called bool
  | Close_goes_on
  | Timer_fires key_choice
  | Check_fires nat key_choice
  | Auto_settles key_choice

fun session_step :: "auto_options \<Rightarrow> session_event \<Rightarrow> session \<Rightarrow> session option" where
  "session_step o' Commits st =
     (if se_closed st then None
      else let st = st\<lparr>se_commits := se_commits st + 1, se_begun := False, se_writeTx := False, se_gave_up := False\<rparr>
           in Some (if se_watching st then committed o' st else st))"
| "session_step o' (Transaction begun writes) st =
     (if se_closed st then None else Some (st\<lparr>se_begun := begun, se_writeTx := writes\<rparr>))"
| "session_step o' Db_closes st = Some (st\<lparr>se_closed := True\<rparr>)"
| "session_step o' Save_called st = Some (fst (session_save False st))"
| "session_step o' Save_settles st = save_settles st"
| "session_step o' (Close_called save) st = close_called save st"
| "session_step o' Close_goes_on st = close_goes_on st"
| "session_step o' (Timer_fires c) st = (if se_timer st then Some (run_auto c st) else None)"
| "session_step o' (Check_fires held c) st = (if se_checking st then Some (check_fires o' held c st) else None)"
| "session_step o' (Auto_settles c) st = auto_settles c st"

primrec session_run :: "auto_options \<Rightarrow> session_event list \<Rightarrow> session \<Rightarrow> session option" where
  "session_run o' [] st = Some st"
| "session_run o' (ev # evs) st =
     (case session_step o' ev st of None \<Rightarrow> None | Some st' \<Rightarrow> session_run o' evs st')"

section \<open>Invariant\<close>

abbreviation se_jobs :: "session \<Rightarrow> save_job list" where
  "se_jobs st \<equiv> se_settled st @ se_queue st"

text \<open>Saves settle in the order they were called, each has the state of its call, and \<open>waiting\<close> has those to come.\<close>

definition queue_ok :: "session \<Rightarrow> bool" where
  "queue_ok st \<longleftrightarrow> map sj_id (se_jobs st) = [0..<se_next st] \<and> se_waiting st = map sj_id (se_queue st)
     \<and> sorted (map sj_snapshot (se_jobs st)) \<and> (\<forall>j \<in> set (se_jobs st). sj_snapshot j \<le> se_commits st)"

definition close_ok :: "session \<Rightarrow> bool" where
  "close_ok st \<longleftrightarrow> (case se_close st of
     Not_closing \<Rightarrow> True
   | Awaits_save i \<Rightarrow> se_stopped st
   | Awaits_queue n \<Rightarrow> se_stopped st \<and> se_closed st \<and> n = se_next st
   | Resolved \<Rightarrow> se_stopped st \<and> se_closed st \<and> se_queue st = [])"

definition auto_ok :: "auto_options \<Rightarrow> session \<Rightarrow> bool" where
  "auto_ok o' st \<longleftrightarrow>
     (\<forall>j \<in> set (se_queue st). sj_auto j \<longrightarrow> se_running st \<and> se_auto st = Some (sj_id j))
   \<and> (se_again st \<longrightarrow> se_running st)
   \<and> (se_stopped st \<longrightarrow> \<not> se_timer st \<and> \<not> se_watching st)
   \<and> (\<not> se_stopped st \<longrightarrow> se_watching st = (ao_after o' \<or> ao_maxHeld o' \<noteq> None))"

text \<open>The last commit is in a save, or there will be an attempt, or one gave up; and the size is checked.\<close>

definition covered_ok :: "auto_options \<Rightarrow> session \<Rightarrow> bool" where
  "covered_ok o' st \<longleftrightarrow> se_covered st \<le> se_commits st
   \<and> (se_covered st = 0 \<or> (\<exists>j \<in> set (se_jobs st). sj_auto j \<and> sj_snapshot j = se_covered st))
   \<and> (ao_after o' \<and> \<not> se_stopped st \<and> se_covered st < se_commits st \<longrightarrow>
        se_timer st \<or> se_running st \<and> se_again st \<or> se_gave_up st)"

definition checked_ok :: "auto_options \<Rightarrow> session \<Rightarrow> bool" where
  "checked_ok o' st \<longleftrightarrow> se_checked st \<le> se_commits st
   \<and> (ao_maxHeld o' \<noteq> None \<and> \<not> se_stopped st \<and> se_checked st < se_commits st \<longrightarrow> se_checking st)"

definition session_ok :: "auto_options \<Rightarrow> session \<Rightarrow> bool" where
  "session_ok o' st \<longleftrightarrow> queue_ok st \<and> close_ok st \<and> auto_ok o' st \<and> covered_ok o' st \<and> checked_ok o' st"

lemmas session_simps = queue_ok_def close_ok_def auto_ok_def covered_ok_def checked_ok_def

lemma new_session_ok: "session_ok o' (new_session o')"
  by (simp add: session_ok_def session_simps new_session_def)

lemma queue_ids: "queue_ok st \<Longrightarrow> j \<in> set (se_queue st) \<Longrightarrow> sj_id j < se_next st"
proof -
  assume "queue_ok st" "j \<in> set (se_queue st)"
  then have "sj_id j \<in> set [0..<se_next st]" unfolding queue_ok_def
    by (metis image_eqI in_set_conv_decomp map_append set_append set_map UnI2)
  then show ?thesis by simp
qed

lemma distinct_queue: "queue_ok st \<Longrightarrow> distinct (map sj_id (se_queue st))"
  unfolding queue_ok_def by (metis distinct_append distinct_upt map_append)

text \<open>A save that is not automatic, or that is one while none is queued and the session notes it.\<close>

lemma save_queue_ok: "queue_ok st \<Longrightarrow> session_save auto st = (st', i) \<Longrightarrow> queue_ok st'"
  by (auto simp: queue_ok_def session_save_def sorted_append split: if_splits)

lemma save_rest:
  assumes "session_save auto st = (st', i)"
  shows "se_commits st' = se_commits st" "se_closed st' = se_closed st" "se_close st' = se_close st"
    "se_watching st' = se_watching st" "se_stopped st' = se_stopped st" "se_timer st' = se_timer st"
    "se_checking st' = se_checking st" "se_running st' = se_running st" "se_again st' = se_again st"
    "se_auto st' = se_auto st" "se_covered st' = se_covered st" "se_gave_up st' = se_gave_up st"
    "se_checked st' = se_checked st" "se_begun st' = se_begun st" "se_writeTx st' = se_writeTx st"
  using assms by (auto simp: session_save_def split: if_splits)

lemma save_jobs:
  assumes "session_save auto st = (st', i)"
  shows "i = None \<and> st' = st \<or> i = Some (se_next st) \<and> \<not> fork_throws st \<and> se_settled st' = se_settled st
    \<and> se_queue st' = se_queue st @ [\<lparr>sj_id = se_next st, sj_snapshot = se_commits st, sj_auto = auto\<rparr>]"
  using assms by (auto simp: session_save_def split: if_splits)

lemma manual_save_ok:
  assumes "session_ok o' st" and "se_close st = Not_closing \<or> se_closed st \<or> (\<exists>i. se_close st = Awaits_save i)"
    and "session_save False st = (st', i)"
  shows "session_ok o' st'"
proof -
  have q: "queue_ok st'" using save_queue_ok [OF _ assms(3)] assms(1) by (simp add: session_ok_def)
  show ?thesis using save_jobs [OF assms(3)]
  proof (elim disjE conjE)
    assume n: "\<not> fork_throws st"
      and job: "se_queue st' = se_queue st @ [\<lparr>sj_id = se_next st, sj_snapshot = se_commits st, sj_auto = False\<rparr>]"
        "se_settled st' = se_settled st"
    have "close_ok st'" using assms(1,2) n
      by (auto simp: session_ok_def close_ok_def save_rest [OF assms(3)] fork_throws_def)
    moreover have "auto_ok o' st'" "covered_ok o' st'" "checked_ok o' st'" using assms(1)
      by (auto simp: session_ok_def auto_ok_def covered_ok_def checked_ok_def save_rest [OF assms(3)] job)
    ultimately show ?thesis using q by (simp add: session_ok_def)
  qed (use assms(1) in simp)
qed

text \<open>Fields a part of the invariant does not look at.\<close>

lemma queue_ok_fields [simp]:
  "queue_ok (st\<lparr>se_timer := b\<rparr>) = queue_ok st" "queue_ok (st\<lparr>se_again := b\<rparr>) = queue_ok st"
  "queue_ok (st\<lparr>se_gave_up := b\<rparr>) = queue_ok st" "queue_ok (st\<lparr>se_running := b\<rparr>) = queue_ok st"
  "queue_ok (st\<lparr>se_auto := i\<rparr>) = queue_ok st" "queue_ok (st\<lparr>se_checking := b\<rparr>) = queue_ok st"
  "queue_ok (st\<lparr>se_covered := n\<rparr>) = queue_ok st" "queue_ok (st\<lparr>se_checked := n\<rparr>) = queue_ok st"
  "queue_ok (st\<lparr>se_begun := b\<rparr>) = queue_ok st" "queue_ok (st\<lparr>se_writeTx := b\<rparr>) = queue_ok st"
  "queue_ok (st\<lparr>se_closed := b\<rparr>) = queue_ok st" "queue_ok (st\<lparr>se_close := c\<rparr>) = queue_ok st"
  "queue_ok (stop st) = queue_ok st"
  by (simp_all add: queue_ok_def stop_def)

lemma close_ok_fields [simp]:
  "close_ok (st\<lparr>se_timer := b\<rparr>) = close_ok st" "close_ok (st\<lparr>se_again := b\<rparr>) = close_ok st"
  "close_ok (st\<lparr>se_gave_up := b\<rparr>) = close_ok st" "close_ok (st\<lparr>se_running := b\<rparr>) = close_ok st"
  "close_ok (st\<lparr>se_auto := i\<rparr>) = close_ok st" "close_ok (st\<lparr>se_checking := b\<rparr>) = close_ok st"
  "close_ok (st\<lparr>se_covered := n\<rparr>) = close_ok st" "close_ok (st\<lparr>se_checked := n\<rparr>) = close_ok st"
  "close_ok (st\<lparr>se_begun := b\<rparr>) = close_ok st" "close_ok (st\<lparr>se_writeTx := b\<rparr>) = close_ok st"
  "close_ok st \<Longrightarrow> close_ok (st\<lparr>se_closed := True\<rparr>)" "close_ok st \<Longrightarrow> close_ok (stop st)"
  by (cases "se_close st"; simp add: close_ok_def stop_def)+

lemma stop_ok: "session_ok o' st \<Longrightarrow> session_ok o' (stop st)"
  by (simp add: session_ok_def) (simp add: auto_ok_def covered_ok_def checked_ok_def stop_def)

lemma active_ok: "session_ok o' st \<Longrightarrow> session_ok o' (active st)"
  by (simp add: active_def stop_ok)

lemma active_active: "\<not> se_stopped (active st) \<Longrightarrow> active st = st \<and> \<not> se_stopped st \<and> \<not> se_closed st"
  by (auto simp: active_def stop_def split: if_splits)

text \<open>
  An attempt at a save. The timer is done, so before it the last commit need not be covered: the
  attempt covers it, is repeated, or gives up.
\<close>

definition attempt_ok :: "auto_options \<Rightarrow> session \<Rightarrow> bool" where
  "attempt_ok o' st \<longleftrightarrow> queue_ok st \<and> close_ok st \<and> auto_ok o' st \<and> checked_ok o' st
   \<and> se_covered st \<le> se_commits st
   \<and> (se_covered st = 0 \<or> (\<exists>j \<in> set (se_jobs st). sj_auto j \<and> sj_snapshot j = se_covered st))"

lemma attempt_okI: "session_ok o' st \<Longrightarrow> attempt_ok o' st"
  by (simp add: session_ok_def attempt_ok_def covered_ok_def)

lemma attempt_done: "attempt_ok o' st \<Longrightarrow> se_stopped st \<or> se_timer st \<or> se_running st \<and> se_again st
    \<or> se_gave_up st \<or> se_covered st = se_commits st \<Longrightarrow> session_ok o' st"
  by (auto simp: session_ok_def attempt_ok_def covered_ok_def)

lemma attempt_no_timer: "attempt_ok o' st \<Longrightarrow> attempt_ok o' (st\<lparr>se_timer := False\<rparr>)"
  by (simp add: attempt_ok_def) (simp add: auto_ok_def checked_ok_def)

lemma attempt_stop: "attempt_ok o' st \<Longrightarrow> attempt_ok o' (stop st)"
  by (simp add: attempt_ok_def) (simp add: auto_ok_def checked_ok_def stop_def)

lemma auto_save_ok:
  assumes "attempt_ok o' st" and "\<not> se_running st" and "\<not> se_stopped st" "\<not> se_closed st"
  shows "session_ok o' (case session_save True (st\<lparr>se_running := True\<rparr>) of
      (st', None) \<Rightarrow> st'\<lparr>se_auto := None, se_gave_up := True\<rparr>
    | (st', Some i) \<Rightarrow> st'\<lparr>se_auto := Some i, se_covered := se_commits st'\<rparr>)"
proof -
  let ?st = "st\<lparr>se_running := True\<rparr>"
  obtain st' i where save: "session_save True ?st = (st', i)" by (cases "session_save True ?st")
  have closing: "se_close st = Not_closing" using assms(1,3)
    by (simp add: attempt_ok_def close_ok_def split: close_phase.splits)
  have none: "\<forall>j \<in> set (se_queue st). \<not> sj_auto j" using assms(1,2) by (auto simp: attempt_ok_def auto_ok_def)
  have q: "queue_ok ?st" using assms(1) by (simp add: attempt_ok_def queue_ok_def)
  show ?thesis using save_jobs [OF save]
  proof (elim disjE conjE)
    assume i: "i = None" "st' = ?st"
    have "session_ok o' (?st\<lparr>se_auto := None, se_gave_up := True\<rparr>)" using assms none
      by (simp add: attempt_ok_def session_ok_def) (auto simp: auto_ok_def covered_ok_def checked_ok_def)
    then show ?thesis by (simp add: save i)
  next
    assume i: "i = Some (se_next ?st)" and s: "se_settled st' = se_settled ?st"
      and job: "se_queue st' = se_queue ?st @ [\<lparr>sj_id = se_next ?st, sj_snapshot = se_commits ?st, sj_auto = True\<rparr>]"
    let ?st' = "st'\<lparr>se_auto := i, se_covered := se_commits st'\<rparr>"
    have "queue_ok ?st'" using save_queue_ok [OF q save] by (simp add: queue_ok_def)
    moreover have "close_ok ?st'" using closing by (simp add: close_ok_def save_rest [OF save])
    moreover have "auto_ok o' ?st'" using assms none
      by (auto simp: attempt_ok_def auto_ok_def save_rest [OF save] job i)
    moreover have "covered_ok o' ?st'" by (auto simp: covered_ok_def save_rest [OF save] job)
    moreover have "checked_ok o' ?st'" using assms
      by (simp add: attempt_ok_def checked_ok_def save_rest [OF save])
    ultimately show ?thesis by (simp add: save session_ok_def i)
  qed
qed

lemma run_auto_ok:
  assumes "attempt_ok o' st"
  shows "session_ok o' (run_auto c st)"
proof -
  define st1 where "st1 = active (st\<lparr>se_timer := False\<rparr>)"
  have a: "attempt_ok o' st1" using assms attempt_no_timer attempt_stop by (simp add: st1_def active_def)
  have run: "run_auto c st = (if se_stopped st1 then st1 else if se_running st1 then st1\<lparr>se_again := True\<rparr>
      else if inTransaction st1 then st1\<lparr>se_gave_up := True\<rparr> else if c \<noteq> Chosen then st1\<lparr>se_gave_up := True\<rparr>
      else (case session_save True (st1\<lparr>se_running := True\<rparr>) of
        (st', None) \<Rightarrow> st'\<lparr>se_auto := None, se_gave_up := True\<rparr>
      | (st', Some i) \<Rightarrow> st'\<lparr>se_auto := Some i, se_covered := se_commits st'\<rparr>))"
    by (simp add: run_auto_def st1_def Let_def)
  have again: "attempt_ok o' (st1\<lparr>se_again := True\<rparr>)" if "se_running st1"
    using a that by (simp add: attempt_ok_def) (simp add: auto_ok_def checked_ok_def)
  have gave: "attempt_ok o' (st1\<lparr>se_gave_up := True\<rparr>)"
    using a by (simp add: attempt_ok_def) (simp add: auto_ok_def checked_ok_def)
  have "session_ok o' st1" if "se_stopped st1" using attempt_done [OF a] that by simp
  moreover have "session_ok o' (st1\<lparr>se_again := True\<rparr>)" if "se_running st1"
    using attempt_done [OF again] that by simp
  moreover have "session_ok o' (st1\<lparr>se_gave_up := True\<rparr>)" using attempt_done [OF gave] by simp
  moreover note auto_save_ok [OF a]
  moreover have "\<not> se_stopped st1 \<Longrightarrow> \<not> se_closed st1"
    by (simp add: st1_def active_def stop_def split: if_splits)
  ultimately show ?thesis unfolding run by simp
qed

text \<open>Every step keeps the invariant.\<close>

lemma committed_ok:
  assumes "session_ok o' st" and "\<not> se_closed st" and c: "commits = se_commits st + 1"
  shows "session_ok o' (let st = st\<lparr>se_commits := commits, se_begun := False, se_writeTx := False, se_gave_up := False\<rparr>
      in if se_watching st then committed o' st else st)"
proof -
  let ?st = "st\<lparr>se_commits := commits, se_begun := False, se_writeTx := False, se_gave_up := False\<rparr>"
  have st: "queue_ok st" "close_ok st" "auto_ok o' st" "covered_ok o' st" "checked_ok o' st"
    using assms(1) by (simp_all add: session_ok_def)
  have "queue_ok ?st" using st(1) by (auto simp: queue_ok_def c intro: le_SucI)
  moreover have "close_ok ?st" using st(2) by (cases "se_close st") (simp_all add: close_ok_def)
  moreover have "auto_ok o' ?st" using st(3) by (simp add: auto_ok_def)
  ultimately have parts: "queue_ok ?st" "close_ok ?st" "auto_ok o' ?st" .
  show ?thesis
  proof (cases "se_watching st")
    case True
    have "queue_ok (committed o' ?st)" "close_ok (committed o' ?st)"
      using parts by (simp_all add: committed_def Let_def)
    moreover have "auto_ok o' (committed o' ?st)" using parts(3) st(3) True
      by (auto simp: committed_def Let_def auto_ok_def)
    moreover have "covered_ok o' (committed o' ?st)" using st(4)
      by (auto simp: committed_def Let_def covered_ok_def c)
    moreover have "checked_ok o' (committed o' ?st)" using st(5)
      by (auto simp: committed_def Let_def checked_ok_def c)
    ultimately show ?thesis using True by (simp add: session_ok_def Let_def)
  next
    case False
    then have "se_stopped st \<or> \<not> ao_after o' \<and> ao_maxHeld o' = None" using st(3) by (auto simp: auto_ok_def)
    then have "covered_ok o' ?st" "checked_ok o' ?st" using st(4,5)
      by (auto simp: covered_ok_def checked_ok_def c)
    then show ?thesis using parts False by (simp add: session_ok_def Let_def)
  qed
qed

lemma save_settles_ok:
  assumes "session_ok o' st" and "save_settles st = Some st'"
  shows "session_ok o' st'"
proof (cases "se_queue st")
  case (Cons j js)
  then have st': "st' = st\<lparr>se_queue := js, se_settled := se_settled st @ [j],
      se_waiting := remove1 (sj_id j) (se_waiting st)\<rparr>" using assms(2) by (simp add: save_settles_def)
  have st: "queue_ok st" "close_ok st" "auto_ok o' st" "covered_ok o' st" "checked_ok o' st"
    using assms(1) by (simp_all add: session_ok_def)
  have "queue_ok st'" using st(1) by (simp add: st' queue_ok_def Cons)
  moreover have "close_ok st'" using st(2) Cons by (cases "se_close st") (simp_all add: st' close_ok_def)
  moreover have "auto_ok o' st'" using st(3) by (auto simp: st' auto_ok_def Cons)
  moreover have "covered_ok o' st'" using st(4) by (auto simp: st' covered_ok_def Cons)
  moreover have "checked_ok o' st'" using st(5) by (auto simp: st' checked_ok_def)
  ultimately show ?thesis by (simp add: session_ok_def)
qed (use assms(2) in \<open>simp add: save_settles_def\<close>)

lemma close_database_ok:
  "session_ok o' st \<Longrightarrow> se_stopped st \<Longrightarrow> session_ok o' (close_database st)"
  by (simp add: session_ok_def close_database_def)
    (auto simp: close_ok_def auto_ok_def covered_ok_def checked_ok_def)

lemma close_called_ok:
  assumes "session_ok o' st" and "close_called save st = Some st'"
  shows "session_ok o' st'"
proof -
  have n: "se_close st = Not_closing" using assms(2) by (simp add: close_called_def split: if_splits)
  have s: "session_ok o' (stop st)" "se_stopped (stop st)" "se_close (stop st) = Not_closing"
    using stop_ok [OF assms(1)] n by (simp_all add: stop_def)
  show ?thesis
  proof (cases "save \<and> \<not> se_closed (stop st)")
    case True
    obtain st1 i where save: "session_save False (stop st) = (st1, i)" by (cases "session_save False (stop st)")
    have "session_ok o' st1" using manual_save_ok [OF s(1) _ save] s(3) by simp
    moreover have "se_stopped st1" using s(2) by (simp add: save_rest [OF save])
    ultimately have "session_ok o' (st1\<lparr>se_close := Awaits_save i\<rparr>)"
      by (simp add: session_ok_def) (simp add: close_ok_def auto_ok_def covered_ok_def checked_ok_def)
    then show ?thesis using assms(2) n True by (auto simp: close_called_def save Let_def)
  next
    case False
    then have "st' = close_database (stop st)" using assms(2) n by (auto simp: close_called_def Let_def)
    then show ?thesis using close_database_ok s by simp
  qed
qed

lemma close_goes_on_ok:
  assumes "session_ok o' st" and "close_goes_on st = Some st'"
  shows "session_ok o' st'"
proof -
  have q: "queue_ok st" and c: "close_ok st" using assms(1) by (simp_all add: session_ok_def)
  consider i where "se_close st = Awaits_save i" | n where "se_close st = Awaits_queue n"
    using assms(2) by (auto simp: close_goes_on_def split: close_phase.splits)
  then show ?thesis
  proof cases
    case (1 i)
    then have "st' = close_database st" using assms(2) by (auto simp: close_goes_on_def split: if_splits)
    then show ?thesis using close_database_ok assms(1) c 1 by (simp add: close_ok_def)
  next
    case (2 n)
    then have st': "st' = st\<lparr>se_close := Resolved\<rparr>" "\<forall>j \<in> set (se_queue st). n \<le> sj_id j"
      using assms(2) by (auto simp: close_goes_on_def list_all_iff split: if_splits)
    have "j \<notin> set (se_queue st)" for j using queue_ids [OF q, of j] st'(2) c 2 by (auto simp: close_ok_def)
    then have "se_queue st = []" using last_in_set by blast
    then show ?thesis using assms(1) c 2
      by (simp add: st'(1) session_ok_def) (simp add: close_ok_def auto_ok_def covered_ok_def checked_ok_def)
  qed
qed

lemma auto_settles_ok:
  assumes "session_ok o' st" and "auto_settles c st = Some st'"
  shows "session_ok o' st'"
proof -
  have r: "se_running st" and settled: "\<And>i. se_auto st = Some i \<Longrightarrow> \<not> queued st i"
    using assms(2) by (auto simp: auto_settles_def split: if_splits)
  have none: "\<forall>j \<in> set (se_queue st). \<not> sj_auto j"
    using assms(1) settled by (auto simp: session_ok_def auto_ok_def queued_def)
  show ?thesis
  proof (cases "se_again st")
    case True
    have "attempt_ok o' (st\<lparr>se_running := False, se_again := False\<rparr>)"
      using attempt_okI [OF assms(1)] none by (simp add: attempt_ok_def) (simp add: auto_ok_def checked_ok_def)
    then have "session_ok o' (run_auto c (st\<lparr>se_running := False, se_again := False\<rparr>))" by (rule run_auto_ok)
    then show ?thesis using assms(2) r True by (auto simp: auto_settles_def Let_def split: if_splits)
  next
    case False
    have "session_ok o' (st\<lparr>se_running := False\<rparr>)"
      using assms(1) none False by (simp add: session_ok_def) (auto simp: auto_ok_def covered_ok_def checked_ok_def)
    then show ?thesis using assms(2) r False by (auto simp: auto_settles_def Let_def split: if_splits)
  qed
qed

lemma check_fires_ok: "session_ok o' st \<Longrightarrow> session_ok o' (check_fires o' held c st)"
proof -
  assume ok: "session_ok o' st"
  then have "session_ok o' (st\<lparr>se_checking := False, se_checked := se_commits st\<rparr>)"
    by (simp add: session_ok_def) (simp add: auto_ok_def covered_ok_def checked_ok_def)
  from active_ok [OF this] show ?thesis
    using run_auto_ok [OF attempt_okI] by (simp add: check_fires_def Let_def)
qed

lemma step_ok:
  assumes "session_ok o' st" and "session_step o' ev st = Some st'"
  shows "session_ok o' st'"
proof (cases ev)
  case Commits
  then show ?thesis using assms committed_ok [OF assms(1)] by (auto simp: Let_def split: if_splits)
next
  case (Transaction b w)
  have "session_ok o' (st\<lparr>se_begun := b, se_writeTx := w\<rparr>)"
    using assms(1) by (simp add: session_ok_def) (simp add: auto_ok_def covered_ok_def checked_ok_def)
  then show ?thesis using assms(2) Transaction by (auto split: if_splits)
next
  case Db_closes
  have "session_ok o' (st\<lparr>se_closed := True\<rparr>)"
    using assms(1) by (simp add: session_ok_def) (simp add: auto_ok_def covered_ok_def checked_ok_def)
  then show ?thesis using assms(2) Db_closes by auto
next
  case Save_called
  obtain st1 i where save: "session_save False st = (st1, i)" by (cases "session_save False st")
  have "se_close st = Not_closing \<or> se_closed st \<or> (\<exists>i. se_close st = Awaits_save i)"
    using assms(1) by (auto simp: session_ok_def close_ok_def split: close_phase.splits)
  then show ?thesis using manual_save_ok [OF assms(1) _ save] assms(2) Save_called by (simp add: save)
next
  case Save_settles
  then show ?thesis using save_settles_ok assms by simp
next
  case (Close_called save)
  then show ?thesis using close_called_ok assms by simp
next
  case Close_goes_on
  then show ?thesis using close_goes_on_ok assms by simp
next
  case (Timer_fires c)
  then show ?thesis using run_auto_ok [OF attempt_okI [OF assms(1)]] assms(2) by (auto split: if_splits)
next
  case (Check_fires held c)
  then show ?thesis using check_fires_ok [OF assms(1)] assms(2) by (auto split: if_splits)
next
  case (Auto_settles c)
  then show ?thesis using auto_settles_ok assms by simp
qed

lemma session_run_ok: "session_run o' evs st = Some st' \<Longrightarrow> session_ok o' st \<Longrightarrow> session_ok o' st'"
  by (induction evs arbitrary: st) (auto split: option.splits dest: step_ok)

text \<open>When a step starts an automatic save.\<close>

definition starts_auto :: "session \<Rightarrow> session \<Rightarrow> bool" where
  "starts_auto st st' \<longleftrightarrow> (\<exists>j \<in> set (se_queue st'). j \<notin> set (se_queue st) \<and> sj_auto j)"

definition may_start :: "session \<Rightarrow> session \<Rightarrow> bool" where
  "may_start st st' \<longleftrightarrow> \<not> se_stopped st \<and> \<not> se_closed st \<and> \<not> se_begun st
     \<and> (\<forall>j \<in> set (se_queue st). \<not> sj_auto j)
     \<and> (\<exists>j \<in> set (se_queue st'). sj_auto j \<and> sj_snapshot j = se_commits st)"

lemma run_auto_starts:
  assumes "starts_auto st (run_auto c st)" and "se_queue st0 = se_queue st" and "se_stopped st0 = se_stopped st"
    and "se_closed st0 = se_closed st" and "se_begun st0 = se_begun st" and "se_commits st0 = se_commits st"
    and "\<not> se_running st \<Longrightarrow> \<forall>j \<in> set (se_queue st). \<not> sj_auto j"
  shows "may_start st0 (run_auto c st)"
proof -
  have same: "\<not> starts_auto st st1" if "se_queue st1 = se_queue st" for st1 using that by (simp add: starts_auto_def)
  let ?st = "st\<lparr>se_timer := False\<rparr>"
  obtain st1 i where save: "session_save True (?st\<lparr>se_running := True\<rparr>) = (st1, i)"
    by (cases "session_save True (?st\<lparr>se_running := True\<rparr>)")
  show ?thesis
  proof (cases "se_stopped st \<or> se_closed st \<or> se_running st \<or> inTransaction st \<or> c \<noteq> Chosen")
    case True
    then have "se_queue (run_auto c st) = se_queue st"
      by (auto simp: run_auto_def active_def stop_def inTransaction_def Let_def)
    then show ?thesis using same assms(1) by blast
  next
    case False
    then have r: "run_auto c st = (case i of None \<Rightarrow> st1\<lparr>se_auto := None, se_gave_up := True\<rparr>
        | Some i \<Rightarrow> st1\<lparr>se_auto := Some i, se_covered := se_commits st1\<rparr>)"
      using save by (auto simp: run_auto_def active_def inTransaction_def Let_def split: option.split)
    have "se_queue (run_auto c st) = se_queue st1" by (simp add: r split: option.split)
    moreover have "se_queue st1 \<noteq> se_queue st" using same assms(1) calculation by metis
    then have "se_queue st1 = se_queue st @ [\<lparr>sj_id = se_next st, sj_snapshot = se_commits st, sj_auto = True\<rparr>]"
      using save_jobs [OF save] by auto
    ultimately show ?thesis using False assms(2-7) by (auto simp: may_start_def inTransaction_def)
  qed
qed

lemma step_starts:
  assumes "session_ok o' st" and "session_step o' ev st = Some st'" and "starts_auto st st'"
  shows "may_start st st'"
proof -
  have auto: "auto_ok o' st" using assms(1) by (simp add: session_ok_def)
  have idle: "\<not> se_running st \<Longrightarrow> \<forall>j \<in> set (se_queue st). \<not> sj_auto j" using auto by (auto simp: auto_ok_def)
  have same: "se_queue st' \<noteq> se_queue st" using assms(3) by (auto simp: starts_auto_def)
  show ?thesis
  proof (cases ev)
    case (Timer_fires c)
    then have run: "st' = run_auto c st" using assms(2) by (simp split: if_splits)
    from run_auto_starts [OF assms(3) [unfolded run], of st] idle show ?thesis by (simp add: run)
  next
    case (Check_fires held c)
    let ?st = "st\<lparr>se_checking := False, se_checked := se_commits st\<rparr>"
    have st': "st' = check_fires o' held c st" using Check_fires assms(2) by (simp split: if_splits)
    show ?thesis
    proof (cases "se_stopped st \<or> se_closed st")
      case True
      then have "se_queue st' = se_queue st" by (simp add: st' check_fires_def active_def stop_def)
      then show ?thesis using same by simp
    next
      case False
      then have "st' = run_auto c ?st \<or> st' = ?st" by (auto simp: st' check_fires_def active_def Let_def)
      then have run: "st' = run_auto c ?st" using same by auto
      then have "starts_auto ?st (run_auto c ?st)" using assms(3) by (simp add: starts_auto_def)
      from run_auto_starts [OF this, of st] idle show ?thesis by (simp add: run)
    qed
  next
    case (Auto_settles c)
    let ?st = "st\<lparr>se_running := False, se_again := False\<rparr>"
    have r: "se_running st" "\<And>i. se_auto st = Some i \<Longrightarrow> \<not> queued st i"
      using Auto_settles assms(2) by (auto simp: auto_settles_def split: if_splits)
    then have none: "\<forall>j \<in> set (se_queue st). \<not> sj_auto j" using auto by (auto simp: auto_ok_def queued_def)
    have "st' = run_auto c ?st \<or> st' = st\<lparr>se_running := False\<rparr>"
      using Auto_settles assms(2) by (auto simp: auto_settles_def Let_def split: if_splits)
    then have run: "st' = run_auto c ?st" using same by auto
    then have "starts_auto ?st (run_auto c ?st)" using assms(3) by (simp add: starts_auto_def)
    from run_auto_starts [OF this, of st] none show ?thesis by (simp add: run)
  next
    case Save_settles
    then show ?thesis using assms(2,3) by (auto simp: save_settles_def starts_auto_def split: list.splits)
  next
    case Commits
    then show ?thesis using assms(2) same by (auto simp: committed_def Let_def split: if_splits)
  next
    case Save_called
    then show ?thesis using assms(2,3)
      by (auto simp: session_save_def starts_auto_def split: if_splits)
  next
    case (Close_called save)
    then show ?thesis using assms(2,3)
      by (auto simp: close_called_def close_database_def session_save_def stop_def starts_auto_def Let_def split: if_splits)
  next
    case Close_goes_on
    then show ?thesis using assms(2) same
      by (auto simp: close_goes_on_def close_database_def split: close_phase.splits if_splits)
  qed (use assms(2) same in \<open>auto split: if_splits\<close>)
qed

section \<open>Properties\<close>


definition ex_options :: auto_options where
  "ex_options = \<lparr>ao_after = True, ao_maxHeld = Some 100\<rparr>"

text \<open>A commit, its automatic save during which another commit falls, whose save waits for the first.\<close>

definition ex_events :: "session_event list" where
  "ex_events = [Commits, Timer_fires Chosen, Commits, Save_called, Timer_fires Chosen, Save_settles,
     Check_fires 50 Chosen, Auto_settles Chosen, Save_settles, Save_settles, Auto_settles Chosen]"


text \<open>
  A transaction that is open when the timer fires puts the save off to "the commit that ends it", but if
  it ends otherwise, as by ROLLBACK, no save of the commit before it comes.
\<close>

lemma rollback_leaves_commit_unsaved:
  "\<exists>st. session_run ex_options [Commits, Transaction True True, Check_fires 200 Chosen, Timer_fires Chosen,
        Transaction False False] (new_session ex_options) = Some st
     \<and> se_commits st = 1 \<and> se_jobs st = [] \<and> \<not> se_timer st \<and> \<not> se_checking st \<and> \<not> se_running st"
  by (simp add: ex_options_def new_session_def committed_def run_auto_def active_def check_fires_def inTransaction_def Let_def)

end
