(* ===== verification/Web_Locks.thy ===== *)
theory Web_Locks
  imports Prelude
begin

text \<open>
  The locks of snapshot storages: what \<open>SnapshotStorage\<close> requests (\<open>hold\<close>, \<open>exclusive\<close> and the cleaning
  of \<open>retain\<close>) of the Web Locks API, and the implementation in memory, \<open>MemoryLocks\<close> of
  memory-file-system.js: shared and exclusive locks by name, given in the order of the requests, and
  requests that do not wait. Requests are numbered in their order. A callback that runs holds its lock until
  its promise settles, which is \<open>lock_release\<close>.
\<close>

section \<open>MemoryLocks\<close>

datatype lock_mode = Shared | Exclusive

record held_lock =
  hl_mode :: lock_mode
  hl_count :: nat

text \<open>
  \<open>lk_running\<close> are the callbacks that run, \<open>lk_next\<close> numbers the requests and \<open>lk_history\<close> has the locks
  that were given, in order; the latter two are no state of the code.
\<close>

record 'n locks =
  lk_held :: "('n \<times> held_lock) list"
  lk_waiting :: "('n \<times> (lock_mode \<times> nat) list) list"
  lk_running :: "((nat \<times> 'n) \<times> lock_mode) list"
  lk_next :: nat
  lk_history :: "(nat \<times> 'n) list"

definition no_locks :: "'n locks" where
  "no_locks = \<lparr>lk_held = [], lk_waiting = [], lk_running = [], lk_next = 0, lk_history = []\<rparr>"

definition compatible :: "'n locks \<Rightarrow> 'n \<Rightarrow> lock_mode \<Rightarrow> bool" where
  "compatible lk name mode =
     (case map_get (lk_held lk) name of
        None \<Rightarrow> True
      | Some held \<Rightarrow> mode = Shared \<and> hl_mode held = Shared)"

definition run_lock :: "'n \<Rightarrow> lock_mode \<times> nat \<Rightarrow> 'n locks \<Rightarrow> 'n locks" where
  "run_lock name w lk =
     (let state = (case map_get (lk_held lk) name of
                     None \<Rightarrow> \<lparr>hl_mode = fst w, hl_count = 0\<rparr> | Some held \<Rightarrow> held)
      in lk\<lparr>lk_held := map_set name (state\<lparr>hl_count := hl_count state + 1\<rparr>) (lk_held lk),
            lk_running := lk_running lk @ [((snd w, name), fst w)],
            lk_history := lk_history lk @ [(snd w, name)]\<rparr>)"

definition queue_of :: "'n locks \<Rightarrow> 'n \<Rightarrow> (lock_mode \<times> nat) list" where
  "queue_of lk name = (case map_get (lk_waiting lk) name of None \<Rightarrow> [] | Some q \<Rightarrow> q)"

datatype lock_answer = Granted | Refused | Queued

definition lock_request :: "'n \<Rightarrow> lock_mode \<Rightarrow> bool \<Rightarrow> 'n locks \<Rightarrow> 'n locks \<times> lock_answer" where
  "lock_request name mode ifAvailable lk =
     (let i = lk_next lk;
          queue = queue_of lk name;
          lk = lk\<lparr>lk_waiting := map_set name queue (lk_waiting lk), lk_next := i + 1\<rparr>
      in if queue = [] \<and> compatible lk name mode then (run_lock name (mode, i) lk, Granted)
         else if ifAvailable then (lk, Refused)
         else (lk\<lparr>lk_waiting := map_set name (queue @ [(mode, i)]) (lk_waiting lk)\<rparr>, Queued))"

text \<open>\<open>next\<close>: the loop over a queue, which gives the queue that is left.\<close>

primrec next_granted :: "'n \<Rightarrow> (lock_mode \<times> nat) list \<Rightarrow> 'n locks \<Rightarrow> 'n locks \<times> (lock_mode \<times> nat) list" where
  "next_granted name [] lk = (lk, [])"
| "next_granted name (w # queue) lk =
     (if compatible lk name (fst w) then next_granted name queue (run_lock name w lk) else (lk, w # queue))"

definition next_lock :: "'n \<Rightarrow> 'n locks \<Rightarrow> 'n locks" where
  "next_lock name lk =
     (case map_get (lk_waiting lk) name of
        None \<Rightarrow> lk
      | Some queue \<Rightarrow>
          (case next_granted name queue lk of
             (lk', rest) \<Rightarrow> lk'\<lparr>lk_waiting := map_set name rest (lk_waiting lk')\<rparr>))"

text \<open>The \<open>finally\<close> of the callback for request \<open>i\<close> of \<open>name\<close>.\<close>

definition lock_release :: "nat \<Rightarrow> 'n \<Rightarrow> 'n locks \<Rightarrow> 'n locks" where
  "lock_release i name lk =
     (case map_get (lk_running lk) (i, name) of
        None \<Rightarrow> lk
      | Some mode \<Rightarrow>
          (case map_get (lk_held lk) name of
             None \<Rightarrow> lk
           | Some state \<Rightarrow>
               let count = hl_count state - 1;
                   held = (if count = 0 then map_delete name (lk_held lk)
                           else map_set name (state\<lparr>hl_count := count\<rparr>) (lk_held lk))
               in next_lock name (lk\<lparr>lk_held := held, lk_running := map_delete (i, name) (lk_running lk)\<rparr>)))"

section \<open>What SnapshotStorage requests\<close>

text \<open>The name of a lock is \<open>JSON.stringify\<close> of this, which tells different ones apart.\<close>

datatype lock_kind = Read | Write

type_synonym lock_name = "string \<times> lock_kind \<times> string"

definition hold_request :: "string \<Rightarrow> string \<Rightarrow> lock_name locks \<Rightarrow> lock_name locks \<times> lock_answer" where
  "hold_request store key = lock_request (store, Read, key) Shared False"

definition exclusive_request :: "string \<Rightarrow> string \<Rightarrow> lock_name locks \<Rightarrow> lock_name locks \<times> lock_answer" where
  "exclusive_request store key = lock_request (store, Write, key) Exclusive False"

definition cleanup_request :: "string \<Rightarrow> string \<Rightarrow> lock_name locks \<Rightarrow> lock_name locks \<times> lock_answer" where
  "cleanup_request store key = lock_request (store, Read, key) Exclusive True"

section \<open>Runs\<close>

datatype 'n lock_op = Request 'n lock_mode bool | Release nat 'n

definition lock_step :: "'n lock_op \<Rightarrow> 'n locks \<Rightarrow> 'n locks" where
  "lock_step op lk =
     (case op of
        Request name mode ifAvailable \<Rightarrow> fst (lock_request name mode ifAvailable lk)
      | Release i name \<Rightarrow> lock_release i name lk)"

definition holders :: "'n locks \<Rightarrow> 'n \<Rightarrow> ((nat \<times> 'n) \<times> lock_mode) list" where
  "holders lk name = filter (\<lambda>((i, n), m). n = name) (lk_running lk)"

definition given :: "'n locks \<Rightarrow> 'n \<Rightarrow> nat list" where
  "given lk name = map fst (filter (\<lambda>(i, n). n = name) (lk_history lk))"

section \<open>Invariant\<close>

text \<open>The count and the mode under a name are those of the callbacks that run.\<close>

definition held_ok :: "'n locks \<Rightarrow> 'n \<Rightarrow> bool" where
  "held_ok lk name =
     (case map_get (lk_held lk) name of
        None \<Rightarrow> holders lk name = []
      | Some h \<Rightarrow> holders lk name \<noteq> [] \<and> hl_count h = length (holders lk name)
          \<and> (\<forall>(k, m) \<in> set (holders lk name). m = hl_mode h)
          \<and> (hl_mode h = Exclusive \<longrightarrow> length (holders lk name) = 1))"

definition waits :: "'n locks \<Rightarrow> 'n \<Rightarrow> bool" where
  "waits lk name \<longleftrightarrow> (\<forall>w ws. queue_of lk name = w # ws \<longrightarrow> \<not> compatible lk name (fst w))"

definition ordered :: "'n locks \<Rightarrow> 'n \<Rightarrow> bool" where
  "ordered lk name \<longleftrightarrow> sorted_wrt (<) (given lk name @ map snd (queue_of lk name))
     \<and> (\<forall>i \<in> set (given lk name @ map snd (queue_of lk name)). i < lk_next lk)"

definition running_ok :: "'n locks \<Rightarrow> 'n \<Rightarrow> bool" where
  "running_ok lk name \<longleftrightarrow> distinct (map fst (holders lk name)) \<and> set (map (fst \<circ> fst) (holders lk name)) \<subseteq> set (given lk name)"

definition name_ok :: "'n locks \<Rightarrow> 'n \<Rightarrow> bool" where
  "name_ok lk name \<longleftrightarrow> held_ok lk name \<and> ordered lk name \<and> running_ok lk name"

definition locks_ok :: "'n locks \<Rightarrow> bool" where
  "locks_ok lk \<longleftrightarrow> (\<forall>name. name_ok lk name \<and> waits lk name)"

lemma holders_run [simp]:
  "holders (run_lock name w lk) n = holders lk n @ (if n = name then [((snd w, name), fst w)] else [])"
  by (auto simp: holders_def run_lock_def Let_def)

lemma given_run [simp]: "given (run_lock name w lk) n = given lk n @ (if n = name then [snd w] else [])"
  by (auto simp: given_def run_lock_def Let_def)

lemma run_fields [simp]:
  "lk_waiting (run_lock name w lk) = lk_waiting lk" "lk_next (run_lock name w lk) = lk_next lk"
  "queue_of (run_lock name w lk) n = queue_of lk n"
  by (simp_all add: run_lock_def Let_def queue_of_def)

lemma held_run_other: "n \<noteq> name \<Longrightarrow> map_get (lk_held (run_lock name w lk)) n = map_get (lk_held lk) n"
  by (simp add: run_lock_def Let_def map_get_set)

lemma compatible_run_other: "n \<noteq> name \<Longrightarrow> compatible (run_lock name w lk) n m = compatible lk n m"
  by (simp add: compatible_def held_run_other)

lemma held_run:
  assumes "held_ok lk n" and "compatible lk name (fst w)"
  shows "held_ok (run_lock name w lk) n"
proof (cases "n = name")
  case False
  then show ?thesis using assms(1) by (simp add: held_ok_def held_run_other split: option.splits)
next
  case True
  show ?thesis
  proof (cases "map_get (lk_held lk) name")
    case None
    then have "map_get (lk_held (run_lock name w lk)) name = Some \<lparr>hl_mode = fst w, hl_count = 1\<rparr>"
      by (simp add: run_lock_def Let_def map_get_set)
    then show ?thesis using assms(1) None True by (simp add: held_ok_def)
  next
    case (Some h)
    then have "map_get (lk_held (run_lock name w lk)) name = Some (h\<lparr>hl_count := hl_count h + 1\<rparr>)"
      by (simp add: run_lock_def Let_def map_get_set)
    moreover have "fst w = Shared" "hl_mode h = Shared" using assms(2) Some by (simp_all add: compatible_def)
    ultimately show ?thesis using assms(1) Some True by (auto simp: held_ok_def)
  qed
qed

text \<open>
  The queue that is being given out is not that of the name any more, so it is an argument here.
\<close>

definition ordered_with :: "'n locks \<Rightarrow> 'n \<Rightarrow> (lock_mode \<times> nat) list \<Rightarrow> bool" where
  "ordered_with lk name queue \<longleftrightarrow> sorted_wrt (<) (given lk name @ map snd queue)
     \<and> (\<forall>i \<in> set (given lk name @ map snd queue). i < lk_next lk)"

lemma ordered_eq: "ordered lk name = ordered_with lk name (queue_of lk name)"
  by (simp add: ordered_def ordered_with_def)

lemma running_run:
  assumes "running_ok lk n" and "ordered_with lk name (w # queue)"
  shows "running_ok (run_lock name w lk) n"
proof (cases "n = name")
  case True
  have "snd w \<notin> set (given lk name)" using assms(2) by (auto simp: ordered_with_def sorted_wrt_append)
  then have "snd w \<notin> set (map (fst \<circ> fst) (holders lk name))" using assms(1) True by (auto simp: running_ok_def)
  then have "(snd w, name) \<notin> set (map fst (holders lk name))" by (force simp: image_iff)
  then show ?thesis using assms(1) True by (auto simp: running_ok_def)
qed (use assms(1) in \<open>simp add: running_ok_def\<close>)

lemma ordered_run: "ordered_with lk name (w # queue) \<Longrightarrow> ordered_with (run_lock name w lk) name queue"
  by (simp add: ordered_with_def)

text \<open>The loop gives locks to the front of the queue, as far as they go together.\<close>

lemma next_granted_spec:
  assumes "next_granted name queue lk = (lk', rest)" and "\<And>n. held_ok lk n \<and> running_ok lk n"
    and "ordered_with lk name queue"
  shows "\<exists>front. queue = front @ rest
    \<and> (\<forall>n. held_ok lk' n \<and> running_ok lk' n) \<and> ordered_with lk' name rest
    \<and> (\<forall>w ws. rest = w # ws \<longrightarrow> \<not> compatible lk' name (fst w))
    \<and> lk_waiting lk' = lk_waiting lk \<and> lk_next lk' = lk_next lk
    \<and> (\<forall>n. n \<noteq> name \<longrightarrow> given lk' n = given lk n \<and> (\<forall>m. compatible lk' n m = compatible lk n m))"
  using assms
proof (induction queue arbitrary: lk)
  case Nil
  then show ?case by auto
next
  case (Cons w queue)
  show ?case
  proof (cases "compatible lk name (fst w)")
    case False
    then show ?thesis using Cons.prems by (intro exI [of _ "[]"]) auto
  next
    case True
    let ?lk = "run_lock name w lk"
    have "next_granted name queue ?lk = (lk', rest)" using Cons.prems(1) True by simp
    moreover have "held_ok ?lk n \<and> running_ok ?lk n" for n
      using held_run [OF _ True] running_run [OF _ Cons.prems(3)] Cons.prems(2) by blast
    moreover note ordered_run [OF Cons.prems(3)]
    ultimately obtain front where f: "queue = front @ rest"
      "\<forall>n. held_ok lk' n \<and> running_ok lk' n" "ordered_with lk' name rest"
      "\<forall>w ws. rest = w # ws \<longrightarrow> \<not> compatible lk' name (fst w)"
      "lk_waiting lk' = lk_waiting ?lk" "lk_next lk' = lk_next ?lk"
      "\<forall>n. n \<noteq> name \<longrightarrow> given lk' n = given ?lk n \<and> (\<forall>m. compatible lk' n m = compatible ?lk n m)"
      using Cons.IH by blast
    show ?thesis
      by (rule exI [of _ "w # front"]) (use f in \<open>simp add: compatible_run_other\<close>)
  qed
qed

lemma waiting_fields [simp]:
  "holders (lk\<lparr>lk_waiting := ws\<rparr>) n = holders lk n" "given (lk\<lparr>lk_waiting := ws\<rparr>) n = given lk n"
  "held_ok (lk\<lparr>lk_waiting := ws\<rparr>) n = held_ok lk n" "running_ok (lk\<lparr>lk_waiting := ws\<rparr>) n = running_ok lk n"
  "compatible (lk\<lparr>lk_waiting := ws\<rparr>) n m = compatible lk n m"
  "ordered_with (lk\<lparr>lk_waiting := ws\<rparr>) n q = ordered_with lk n q"
  by (simp_all add: holders_def given_def held_ok_def running_ok_def compatible_def ordered_with_def cong: option.case_cong)

lemma next_fields [simp]:
  "holders (lk\<lparr>lk_next := k\<rparr>) n = holders lk n" "given (lk\<lparr>lk_next := k\<rparr>) n = given lk n"
  "held_ok (lk\<lparr>lk_next := k\<rparr>) n = held_ok lk n" "running_ok (lk\<lparr>lk_next := k\<rparr>) n = running_ok lk n"
  "compatible (lk\<lparr>lk_next := k\<rparr>) n m = compatible lk n m"
  by (simp_all add: holders_def given_def held_ok_def running_ok_def compatible_def cong: option.case_cong)

text \<open>Giving out the queue of a name, in a state that is in order but for that queue.\<close>

lemma next_lock_ok:
  assumes "\<And>n. name_ok lk n" and "\<And>n. n \<noteq> name \<Longrightarrow> waits lk n"
  shows "locks_ok (next_lock name lk)"
proof (cases "map_get (lk_waiting lk) name")
  case None
  then have "waits lk name" by (simp add: waits_def queue_of_def)
  then have "name_ok lk n \<and> waits lk n" for n using assms by (cases "n = name") simp_all
  then show ?thesis using None by (simp add: next_lock_def locks_ok_def)
next
  case (Some queue)
  then have q: "queue_of lk name = queue" by (simp add: queue_of_def)
  obtain lk' rest where g: "next_granted name queue lk = (lk', rest)" by (cases "next_granted name queue lk")
  have "\<exists>front. queue = front @ rest
    \<and> (\<forall>n. held_ok lk' n \<and> running_ok lk' n) \<and> ordered_with lk' name rest
    \<and> (\<forall>w ws. rest = w # ws \<longrightarrow> \<not> compatible lk' name (fst w))
    \<and> lk_waiting lk' = lk_waiting lk \<and> lk_next lk' = lk_next lk
    \<and> (\<forall>n. n \<noteq> name \<longrightarrow> given lk' n = given lk n \<and> (\<forall>m. compatible lk' n m = compatible lk n m))"
    by (rule next_granted_spec [OF g]) (use assms(1) q in \<open>auto simp: name_ok_def ordered_eq\<close>)
  then obtain front where f: "\<forall>n. held_ok lk' n \<and> running_ok lk' n" "ordered_with lk' name rest"
    "\<forall>w ws. rest = w # ws \<longrightarrow> \<not> compatible lk' name (fst w)" "lk_waiting lk' = lk_waiting lk" "lk_next lk' = lk_next lk"
    "\<forall>n. n \<noteq> name \<longrightarrow> given lk' n = given lk n \<and> (\<forall>m. compatible lk' n m = compatible lk n m)"
    by blast
  let ?lk = "lk'\<lparr>lk_waiting := map_set name rest (lk_waiting lk')\<rparr>"
  have queues: "queue_of ?lk n = (if n = name then rest else queue_of lk n)" for n
    using f(4) by (simp add: queue_of_def map_get_set)
  have "name_ok ?lk n \<and> waits ?lk n" for n
  proof (cases "n = name")
    case True
    then show ?thesis using f(1-3) queues by (auto simp: name_ok_def ordered_eq waits_def)
  next
    case False
    then have "ordered_with lk' n (queue_of lk n)"
      using assms(1) [of n] f(5,6) by (simp add: name_ok_def ordered_eq ordered_with_def)
    then show ?thesis using f(1,6) False assms(2) queues by (simp add: name_ok_def ordered_eq waits_def)
  qed
  then show ?thesis using Some g by (simp add: next_lock_def locks_ok_def)
qed

lemma request_ok:
  assumes "locks_ok lk"
  shows "locks_ok (fst (lock_request name mode ifAvailable lk))"
proof -
  let ?i = "lk_next lk" and ?q = "queue_of lk name"
  define lk1 where "lk1 = lk\<lparr>lk_waiting := map_set name ?q (lk_waiting lk), lk_next := ?i + 1\<rparr>"
  have queues: "queue_of lk1 n = queue_of lk n" for n
    by (simp add: lk1_def queue_of_def map_get_set split: option.split)
  have ok: "held_ok lk n" "running_ok lk n" "ordered_with lk n (queue_of lk n)" "waits lk n" for n
    using assms by (simp_all add: locks_ok_def name_ok_def ordered_eq)
  have same: "held_ok lk1 n = held_ok lk n" "running_ok lk1 n = running_ok lk n" "given lk1 n = given lk n"
    "compatible lk1 n m = compatible lk n m" for n m
    by (simp_all add: lk1_def)
  have later: "ordered_with lk1 n (queue_of lk n)" for n
    using ok(3) [of n] by (auto simp: ordered_with_def same lk1_def intro: less_SucI)
  have new: "ordered_with lk1 name (?q @ [(mode, ?i)])"
    using ok(3) [of name] by (auto simp: ordered_with_def same lk1_def sorted_wrt_append intro: less_SucI)
  have run: "locks_ok lk1"
    using ok(1,2,4) later by (simp add: locks_ok_def name_ok_def ordered_eq queues same waits_def)
  show ?thesis
  proof (cases "?q = [] \<and> compatible lk name mode")
    case True
    let ?lk = "run_lock name (mode, ?i) lk1"
    have "ordered_with lk1 name [(mode, ?i)]" using new True by simp
    note r = held_run [OF _, of lk1 _ name "(mode, ?i)"] running_run [OF _ this] ordered_run [OF this]
    have "name_ok ?lk n \<and> waits ?lk n" for n
    proof (cases "n = name")
      case True
      then show ?thesis using r ok(1,2) \<open>?q = [] \<and> compatible lk name mode\<close>
        by (simp add: name_ok_def ordered_eq queues same waits_def)
    next
      case False
      then have "ordered_with ?lk n (queue_of lk n)" using later by (simp add: ordered_with_def)
      then show ?thesis using r(1,2) ok(1,2,4) False \<open>?q = [] \<and> compatible lk name mode\<close>
        by (simp add: name_ok_def ordered_eq queues same waits_def compatible_run_other)
    qed
    then have "locks_ok ?lk" by (simp add: locks_ok_def)
    moreover have "fst (lock_request name mode ifAvailable lk) = ?lk"
      using True by (simp add: lock_request_def Let_def lk1_def)
    ultimately show ?thesis by simp
  next
    case False
    let ?lk = "lk1\<lparr>lk_waiting := map_set name (?q @ [(mode, ?i)]) (lk_waiting lk1)\<rparr>"
    have "queue_of ?lk n = (if n = name then ?q @ [(mode, ?i)] else queue_of lk n)" for n
      using queues by (simp add: queue_of_def map_get_set)
    moreover have "\<not> compatible lk name (fst w)" if "?q @ [(mode, ?i)] = w # ws" for w ws
      using that False ok(4) [of name] by (cases ?q) (auto simp: waits_def)
    ultimately have "name_ok ?lk n \<and> waits ?lk n" for n
      using ok(1,2,4) later new by (auto simp: name_ok_def ordered_eq same waits_def)
    then have "locks_ok ?lk" by (simp add: locks_ok_def)
    moreover have "fst (lock_request name mode ifAvailable lk) = (if ifAvailable then lk1 else ?lk)"
      using False by (auto simp: lock_request_def Let_def lk1_def)
    ultimately show ?thesis using run by simp
  qed
qed

lemma delete_held:
  assumes "distinct (map fst xs)" and "map_get xs k = Some v"
  shows "Suc (length (map_delete k xs)) = length xs"
proof -
  have "length (filter (\<lambda>(k', _). k \<noteq> k') xs) + length (filter (\<lambda>(k', _). k = k') xs) = length xs"
    using sum_length_filter_compl [of "\<lambda>(k', _). k \<noteq> k'" xs] by (simp add: case_prod_unfold)
  moreover have "length (filter (\<lambda>(k', _). k = k') xs) = 1"
    using assms
  proof (induction xs)
    case (Cons x xs)
    then show ?case
      by (cases x) (force simp: filter_empty_conv split: if_splits)
  qed simp
  ultimately show ?thesis by (simp add: AList.delete_eq)
qed

lemma release_ok:
  assumes "locks_ok lk"
  shows "locks_ok (lock_release i name lk)"
proof (cases "map_get (lk_running lk) (i, name)")
  case None
  then show ?thesis using assms by (simp add: lock_release_def)
next
  case (Some mode)
  have ok: "held_ok lk n" "running_ok lk n" "ordered_with lk n (queue_of lk n)" "waits lk n" for n
    using assms by (simp_all add: locks_ok_def name_ok_def ordered_eq)
  have mem: "((i, name), mode) \<in> set (holders lk name)" using map_of_SomeD [OF Some] by (simp add: holders_def)
  then obtain h where h: "map_get (lk_held lk) name = Some h" "hl_count h = length (holders lk name)"
    "\<forall>(k, m) \<in> set (holders lk name). m = hl_mode h" "hl_mode h = Exclusive \<longrightarrow> length (holders lk name) = 1"
    using ok(1) [of name] by (auto simp: held_ok_def split: option.splits)
  define held where "held = (if hl_count h - 1 = 0 then map_delete name (lk_held lk)
      else map_set name (h\<lparr>hl_count := hl_count h - 1\<rparr>) (lk_held lk))"
  define lk1 where "lk1 = lk\<lparr>lk_held := held, lk_running := map_delete (i, name) (lk_running lk)\<rparr>"
  have left: "holders lk1 n = (if n = name then map_delete (i, name) (holders lk name) else holders lk n)" for n
    by (auto simp: lk1_def holders_def AList.delete_eq intro!: filter_cong)
  have d: "distinct (map fst (holders lk name))" using ok(2) by (simp add: running_ok_def)
  have count: "hl_count h - 1 = length (map_delete (i, name) (holders lk name))"
    using delete_held [OF d, of "(i, name)" mode] mem d h(2) by simp
  have given: "given lk1 n = given lk n" "queue_of lk1 n = queue_of lk n" for n
    by (simp_all add: lk1_def given_def queue_of_def)
  have held: "held_ok lk1 name"
  proof (cases "hl_count h - 1 = 0")
    case True
    then have "map_get (lk_held lk1) name = None" by (simp add: lk1_def held_def map_get_delete)
    then show ?thesis using count True by (simp add: held_ok_def left)
  next
    case False
    then have "hl_mode h \<noteq> Exclusive" using h(2,4) by auto
    have "map_get (lk_held lk1) name = Some (h\<lparr>hl_count := hl_count h - 1\<rparr>)"
      using False by (simp add: lk1_def held_def map_get_set)
    then show ?thesis using False count h(3) \<open>hl_mode h \<noteq> Exclusive\<close>
      by (auto simp: held_ok_def left AList.delete_eq)
  qed
  have other: "map_get (lk_held lk1) n = map_get (lk_held lk) n" if "n \<noteq> name" for n
    using that by (simp add: lk1_def held_def map_get_set map_get_delete)
  have "held_ok lk1 n" "compatible lk1 n = compatible lk n" if "n \<noteq> name" for n
    using ok(1) [of n] that by (simp_all add: held_ok_def left compatible_def other fun_eq_iff split: option.splits)
  moreover have "running_ok lk1 n" for n
    using ok(2) [of n] distinct_map_filter [OF d] by (auto simp: running_ok_def left given AList.delete_eq)
  moreover have "ordered_with lk1 n (queue_of lk1 n)" for n
    using ok(3) [of n] by (simp add: ordered_with_def given) (simp add: lk1_def)
  ultimately have "locks_ok (next_lock name lk1)"
    using held ok(4) by (intro next_lock_ok) (metis name_ok_def ordered_eq, simp add: waits_def given)
  moreover have "lock_release i name lk = next_lock name lk1"
    by (simp add: lock_release_def Let_def lk1_def held_def Some h(1))
  ultimately show ?thesis by simp
qed

lemma no_locks_ok: "locks_ok no_locks"
  by (simp add: locks_ok_def name_ok_def held_ok_def ordered_def running_ok_def waits_def no_locks_def holders_def
      given_def queue_of_def)

lemma lock_step_ok: "locks_ok lk \<Longrightarrow> locks_ok (lock_step op lk)"
  by (cases op) (simp_all add: lock_step_def request_ok release_ok)

definition locks_run :: "'n lock_op list \<Rightarrow> 'n locks" where
  "locks_run ops = foldl (\<lambda>lk op. lock_step op lk) no_locks ops"

lemma locks_run_ok: "locks_ok (locks_run ops)"
  unfolding locks_run_def by (induction ops rule: rev_induct) (simp_all add: no_locks_ok lock_step_ok)

lemma held_None: "locks_ok lk \<Longrightarrow> map_get (lk_held lk) name = None \<longleftrightarrow> holders lk name = []"
  by (auto simp: locks_ok_def name_ok_def held_ok_def split: option.splits dest!: spec [of _ name])

lemma idle_empty:
  assumes "locks_ok lk" and "holders lk name = []"
  shows "queue_of lk name = []" and "compatible lk name mode"
proof -
  have n: "map_get (lk_held lk) name = None" using held_None [OF assms(1)] assms(2) by blast
  then show "compatible lk name mode" by (simp add: compatible_def)
  have "waits lk name" using assms(1) by (simp add: locks_ok_def)
  then show "queue_of lk name = []"
    using n by (cases "queue_of lk name") (auto simp: waits_def compatible_def)
qed

lemma exclusive_alone:
  assumes "locks_ok lk" and "(k, Exclusive) \<in> set (holders lk name)"
  shows "holders lk name = [(k, Exclusive)]"
proof -
  obtain h where "map_get (lk_held lk) name = Some h" using held_None [OF assms(1), of name] assms(2) by fastforce
  then have h: "\<forall>(k, m) \<in> set (holders lk name). m = hl_mode h"
    "hl_mode h = Exclusive \<longrightarrow> length (holders lk name) = 1"
    using assms(1) by (auto simp: locks_ok_def name_ok_def held_ok_def dest!: spec [of _ name])
  then have "hl_mode h = Exclusive" using assms(2) by fastforce
  then have "length (holders lk name) = 1" using h(2) by simp
  then show ?thesis using assms(2) by (cases "holders lk name") auto
qed

section \<open>Properties\<close>

text \<open>
  C22. In every run of requests and releases: an exclusive lock is held alone; nobody waits for a name
  that nobody holds, so a lock is never forgotten; locks of a name are given in the order of the requests,
  those that wait after those that have it; a request that is not to wait is answered at once, and an
  exclusive one gets the lock exactly if nobody has it. So \<open>retain\<close> cleans a snapshot up, which takes it
  exclusively, only while no database holds it, and of two that write a key one waits.
\<close>

theorem locks_exclusive:
  fixes ops :: "lock_name lock_op list"
  defines "lk \<equiv> locks_run ops"
  shows "((k, Exclusive) \<in> set (holders lk name) \<longrightarrow> holders lk name = [(k, Exclusive)])
    \<and> (holders lk name = [] \<longrightarrow> queue_of lk name = [])
    \<and> sorted_wrt (<) (given lk name @ map snd (queue_of lk name))
    \<and> set (map (fst \<circ> fst) (holders lk name)) \<subseteq> set (given lk name)
    \<and> snd (lock_request name Exclusive True lk) = (if holders lk name = [] then Granted else Refused)
    \<and> (snd (cleanup_request store key lk) = Granted \<longleftrightarrow> holders lk (store, Read, key) = [])
    \<and> (holders lk (store, Write, key) \<noteq> [] \<longrightarrow> snd (exclusive_request store key lk) = Queued)"
proof -
  have ok: "locks_ok lk" unfolding lk_def by (rule locks_run_ok)
  have at_once: "snd (lock_request n Exclusive True lk) = (if holders lk n = [] then Granted else Refused)" for n
    using idle_empty [OF ok, of n] held_None [OF ok, of n]
    by (auto simp: lock_request_def Let_def compatible_def split: option.splits)
  have "snd (exclusive_request store key lk) = Queued" if "holders lk (store, Write, key) \<noteq> []"
    using that held_None [OF ok, of "(store, Write, key)"]
    by (auto simp: exclusive_request_def lock_request_def Let_def compatible_def split: option.splits)
  moreover have "ordered lk name" "running_ok lk name" using ok unfolding locks_ok_def name_ok_def by blast+
  moreover have "snd (cleanup_request store key lk) = Granted \<longleftrightarrow> holders lk (store, Read, key) = []"
    using at_once by (simp add: cleanup_request_def)
  ultimately show ?thesis using exclusive_alone [OF ok, of k name] idle_empty(1) [OF ok, of name] at_once
    by (simp add: ordered_def running_ok_def)
qed

text \<open>Two readers of \<open>''a''\<close>, \<open>retain\<close> that tries it and then one that waits, and the readers that close.\<close>

definition ex_name :: lock_name where "ex_name = (''s'', Read, ''a'')"

theorem locks_exclusive_witness:
  "holders (locks_run [Request ex_name Shared False, Request ex_name Shared False, Request ex_name Exclusive True,
       Request ex_name Exclusive False, Release 0 ex_name]) ex_name = [((1, ex_name), Shared)]
   \<and> snd (cleanup_request ''s'' ''a'' (locks_run [Request ex_name Shared False])) \<noteq> Granted
   \<and> holders (locks_run [Request ex_name Shared False, Request ex_name Shared False,
       Request ex_name Exclusive False, Release 0 ex_name, Release 1 ex_name]) ex_name = [((2, ex_name), Exclusive)]"
proof (intro conjI)
  show "snd (cleanup_request ''s'' ''a'' (locks_run [Request ex_name Shared False])) \<noteq> Granted"
    using locks_exclusive [of undefined "[Request ex_name Shared False]" undefined "''s''" "''a''"]
    by (simp add: locks_run_def lock_step_def no_locks_def lock_request_def run_lock_def compatible_def queue_of_def
        holders_def ex_name_def)
qed (simp_all add: locks_run_def lock_step_def no_locks_def lock_request_def run_lock_def compatible_def queue_of_def
      holders_def lock_release_def next_lock_def)

end
