(* ===== verification/Memory_File.thy ===== *)
theory Memory_File
  imports Snapshot_Write Sync_File
begin

text \<open>
  The files in memory of memory-file-system.js: \<open>MemoryFile\<close>, which keeps its bytes in a buffer that is larger
  than they are, and \<open>MemoryFileSystem\<close> with the files as a crash leaves them. A file refines the plain list
  of its bytes: \<open>writer_write\<close> and \<open>writer_truncate\<close>, which the writers of snapshots are made of.
\<close>

section \<open>MemoryFile\<close>

record mem_file =
  mf_data :: bytes
  mf_size :: nat
  mf_synced :: bytes
  mf_open :: bool
  mf_failWrites :: bool
  mf_failReads :: bool

definition new_MemoryFile :: mem_file where
  "new_MemoryFile =
     \<lparr>mf_data = [], mf_size = 0, mf_synced = [], mf_open = False, mf_failWrites = False, mf_failReads = False\<rparr>"

text \<open>\<open>d.fill(0, a, b)\<close>\<close>

definition fill_zeros :: "bytes \<Rightarrow> nat \<Rightarrow> nat \<Rightarrow> bytes" where
  "fill_zeros d a b = take a d @ zeros (min b (length d) - a) @ drop (max a b) d"

definition mf_read :: "mem_file reader" where
  "mf_read f buf ofs =
     (if mf_failReads f then (f, buf, Inl (JsError ''read failed''))
      else (let n = min (length buf) (mf_size f - ofs)
            in case u8_set buf (subarray (mf_data f) ofs (ofs + n)) 0 of
                 Inl e \<Rightarrow> (f, buf, Inl e)
               | Inr buf' \<Rightarrow> (f, buf', Inr n)))"

definition mf_write :: "mem_file \<Rightarrow> bytes \<Rightarrow> nat \<Rightarrow> mem_file \<times> nat result" where
  "mf_write f buf pos =
     (if mf_failWrites f then (f, Inl (JsError ''write failed''))
      else (let stop = pos + length buf;
                data = (if stop > length (mf_data f)
                        then overwrite (zeros (max stop (length (mf_data f) * 2))) (subarray (mf_data f) 0 (mf_size f)) 0
                        else mf_data f);
                data = (if pos > mf_size f then fill_zeros data (mf_size f) pos else data)
            in case u8_set data buf pos of
                 Inl e \<Rightarrow> (f\<lparr>mf_data := data\<rparr>, Inl e)
               | Inr data' \<Rightarrow> (f\<lparr>mf_data := data', mf_size := max (mf_size f) stop\<rparr>, Inr (length buf))))"

definition mf_truncate :: "mem_file \<Rightarrow> nat \<Rightarrow> mem_file" where
  "mf_truncate f n =
     f\<lparr>mf_data := (if n < mf_size f then fill_zeros (mf_data f) n (mf_size f) else mf_data f), mf_size := n\<rparr>"

definition mf_bytes :: "mem_file \<Rightarrow> bytes" where
  "mf_bytes f = subarray (mf_data f) 0 (mf_size f)"

definition mf_flush :: "mem_file \<Rightarrow> mem_file" where
  "mf_flush f = f\<lparr>mf_synced := mf_bytes f\<rparr>"

definition mf_close :: "mem_file \<Rightarrow> mem_file" where
  "mf_close f = f\<lparr>mf_open := False\<rparr>"

text \<open>The buffer holds the file. Only \<open>truncate\<close> past the end breaks that.\<close>

definition mf_ok :: "mem_file \<Rightarrow> bool" where
  "mf_ok f \<longleftrightarrow> mf_size f \<le> length (mf_data f)"

lemma length_fill_zeros [simp]: "a \<le> b \<Longrightarrow> length (fill_zeros d a b) = length d"
  by (auto simp: fill_zeros_def min_def)

lemma nth_fill_zeros:
  "a \<le> b \<Longrightarrow> i < length d \<Longrightarrow> fill_zeros d a b ! i = (if a \<le> i \<and> i < b then 0 else d ! i)"
  by (auto simp: fill_zeros_def nth_append min_def)

lemma length_mf_bytes: "mf_ok f \<Longrightarrow> length (mf_bytes f) = mf_size f"
  by (simp add: mf_ok_def mf_bytes_def)

lemma nth_mf_bytes: "mf_ok f \<Longrightarrow> i < mf_size f \<Longrightarrow> mf_bytes f ! i = mf_data f ! i"
  by (simp add: mf_ok_def mf_bytes_def nth_subarray)

section \<open>Refinement\<close>

lemma mf_new: "mf_ok new_MemoryFile \<and> mf_bytes new_MemoryFile = []"
  by (simp add: mf_ok_def mf_bytes_def new_MemoryFile_def)

lemma mf_write_refines:
  assumes "mf_ok f" and "\<not> mf_failWrites f"
  shows "\<exists>f'. mf_write f buf pos = (f', Inr (length buf)) \<and> mf_ok f'
    \<and> mf_bytes f' = writer_write (mf_bytes f) buf pos \<and> mf_synced f' = mf_synced f"
proof -
  let ?stop = "pos + length buf"
  define d1 where "d1 = (if ?stop > length (mf_data f)
      then overwrite (zeros (max ?stop (length (mf_data f) * 2))) (subarray (mf_data f) 0 (mf_size f)) 0 else mf_data f)"
  define d2 where "d2 = (if pos > mf_size f then fill_zeros d1 (mf_size f) pos else d1)"
  define f' where "f' = f\<lparr>mf_data := overwrite d2 buf pos, mf_size := max (mf_size f) ?stop\<rparr>"
  have size: "mf_size f \<le> length (mf_data f)" using assms(1) by (simp add: mf_ok_def)
  have len: "length d2 = length d1" "?stop \<le> length d1" "mf_size f \<le> length d1"
    using size by (auto simp: d1_def d2_def)
  have d1: "d1 ! i = mf_data f ! i" if "i < mf_size f" for i
    using that size by (simp add: d1_def nth_overwrite nth_subarray)
  have ok: "mf_ok f'" using len by (simp add: f'_def mf_ok_def)
  moreover have "mf_bytes f' = writer_write (mf_bytes f) buf pos"
  proof (rule nth_equalityI)
    show "length (mf_bytes f') = length (writer_write (mf_bytes f) buf pos)"
      using length_mf_bytes [OF ok] length_mf_bytes [OF assms(1)] by (simp add: f'_def writer_write_def Let_def)
  next
    fix i
    assume "i < length (mf_bytes f')"
    then have i: "i < mf_size f'" using length_mf_bytes [OF ok] by simp
    then show "mf_bytes f' ! i = writer_write (mf_bytes f) buf pos ! i"
      using nth_mf_bytes [OF ok i] length_mf_bytes [OF assms(1)] len d1
      by (auto simp: f'_def writer_write_def Let_def nth_overwrite nth_append nth_mf_bytes [OF assms(1)] d2_def
          nth_fill_zeros max_def split: if_splits)
  qed
  moreover have "mf_write f buf pos = (f', Inr (length buf))"
  proof -
    have "mf_write f buf pos = (case u8_set d2 buf pos of
        Inl e \<Rightarrow> (f\<lparr>mf_data := d2\<rparr>, Inl e)
      | Inr data' \<Rightarrow> (f\<lparr>mf_data := data', mf_size := max (mf_size f) ?stop\<rparr>, Inr (length buf)))"
      by (simp only: mf_write_def Let_def d1_def d2_def assms(2) if_False)
    then show ?thesis using len by (simp add: f'_def)
  qed
  ultimately show ?thesis by (intro exI [of _ f']) (simp add: f'_def)
qed

lemma mf_truncate_refines:
  assumes "mf_ok f" and "n \<le> mf_size f"
  shows "mf_ok (mf_truncate f n)" and "mf_bytes (mf_truncate f n) = writer_truncate (mf_bytes f) n"
proof -
  show ok: "mf_ok (mf_truncate f n)" using assms by (simp add: mf_ok_def mf_truncate_def)
  show "mf_bytes (mf_truncate f n) = writer_truncate (mf_bytes f) n"
  proof (rule nth_equalityI)
    show "length (mf_bytes (mf_truncate f n)) = length (writer_truncate (mf_bytes f) n)"
      using length_mf_bytes [OF ok] length_mf_bytes [OF assms(1)] assms(2)
      by (simp add: mf_truncate_def writer_truncate_def)
  next
    fix i
    assume "i < length (mf_bytes (mf_truncate f n))"
    then have i: "i < n" using length_mf_bytes [OF ok] by (simp add: mf_truncate_def)
    then have "mf_bytes (mf_truncate f n) ! i = mf_data f ! i"
      using nth_mf_bytes [OF ok, of i] assms by (simp add: mf_truncate_def nth_fill_zeros mf_ok_def)
    then show "mf_bytes (mf_truncate f n) ! i = writer_truncate (mf_bytes f) n ! i"
      using i assms nth_mf_bytes [OF assms(1), of i] length_mf_bytes [OF assms(1)] by (simp add: writer_truncate_def nth_append)
  qed
qed

text \<open>
  Past the end, \<open>truncate\<close> makes the file longer than its buffer: \<open>bytes\<close> gives fewer bytes than \<open>getSize\<close>
  says, and a read counts bytes that it does not leave in the buffer.
\<close>

lemma truncate_past_end:
  "let f = mf_truncate new_MemoryFile 2
   in mf_size f = 2 \<and> mf_bytes f = [] \<and> mf_read f [7, 7] 0 = (f, [7, 7], Inr 2)"
  by (simp add: mf_truncate_def new_MemoryFile_def mf_bytes_def mf_read_def subarray_def Let_def overwrite_def)

text \<open>Reads are what \<open>SyncFile\<close> promises.\<close>

lemma mf_read_eq:
  assumes "mf_ok f" and "mf_read f buf ofs = (f', buf', r)"
  shows "f' = f \<and> length buf' = length buf
    \<and> (\<forall>n. r = Inr n \<longrightarrow> n = read_count (mf_bytes f) buf ofs \<and> buf' = read_buffer (mf_bytes f) buf ofs)"
proof (cases "mf_failReads f")
  case False
  let ?n = "min (length buf) (mf_size f - ofs)"
  have n: "?n = read_count (mf_bytes f) buf ofs" by (simp add: read_count_def length_mf_bytes [OF assms(1)])
  have "length (subarray (mf_data f) ofs (ofs + ?n)) \<le> length buf" by simp
  then have r: "f' = f" "buf' = overwrite buf (subarray (mf_data f) ofs (ofs + ?n)) 0" "r = Inr ?n"
    using assms(2) False by (auto simp: mf_read_def Let_def)
  have "buf' = read_buffer (mf_bytes f) buf ofs"
  proof (rule nth_equalityI)
    fix i
    assume "i < length buf'"
    then have "i < length buf" by (simp add: r(2))
    then show "buf' ! i = read_buffer (mf_bytes f) buf ofs ! i"
      using assms(1) nth_mf_bytes [OF assms(1), of "ofs + i"]
      by (auto simp: r(2) nth_read_buffer n [symmetric] nth_overwrite nth_subarray mf_ok_def min_def split: if_splits)
  qed (simp add: r(2))
  then show ?thesis using r n by simp
qed (use assms(2) in \<open>auto simp: mf_read_def\<close>)

interpretation mem: sync_file mf_read "\<lambda>f. mf_ok f \<and> mf_bytes f = content" content for content
  by unfold_locales (use mf_read_eq in blast)+

section \<open>The writers of MemorySnapshotDirectory\<close>

text \<open>\<open>truncate\<close> takes care not to go past the end; so a writer does what Directory_Store has of it.\<close>

definition dw_truncate :: "mem_file \<Rightarrow> nat \<Rightarrow> mem_file" where
  "dw_truncate f n = (if n < mf_size f then mf_truncate f n else fst (mf_write f [] n))"

lemma dw_truncate_refines:
  assumes "mf_ok f" and "\<not> mf_failWrites f"
  shows "mf_ok (dw_truncate f n) \<and> mf_bytes (dw_truncate f n) = writer_truncate (mf_bytes f) n"
proof (cases "n < mf_size f")
  case True
  then show ?thesis using mf_truncate_refines [OF assms(1)] by (simp add: dw_truncate_def)
next
  case False
  then have "writer_write (mf_bytes f) [] n = writer_truncate (mf_bytes f) n"
    using length_mf_bytes [OF assms(1)] by (simp add: writer_write_def writer_truncate_def)
  then show ?thesis using mf_write_refines [OF assms, of "[]" n] False by (auto simp: dw_truncate_def)
qed

section \<open>MemoryFileSystem\<close>

text \<open>Files are objects that a name refers to; one that is open stays when its name is removed.\<close>

record 'n mem_fs =
  fs_names :: "('n \<times> nat) list"
  fs_objects :: "mem_file list"

definition new_MemoryFileSystem :: "'n mem_fs" where
  "new_MemoryFileSystem = \<lparr>fs_names = [], fs_objects = []\<rparr>"

definition mfs_file :: "'n \<Rightarrow> 'n mem_fs \<Rightarrow> 'n mem_fs \<times> nat" where
  "mfs_file name fs =
     (case map_get (fs_names fs) name of
        Some i \<Rightarrow> (fs, i)
      | None \<Rightarrow> (fs\<lparr>fs_names := map_set name (length (fs_objects fs)) (fs_names fs),
                    fs_objects := fs_objects fs @ [new_MemoryFile]\<rparr>, length (fs_objects fs)))"

definition mfs_open :: "'n \<Rightarrow> 'n mem_fs \<Rightarrow> 'n mem_fs \<times> nat result" where
  "mfs_open name fs =
     (case mfs_file name fs of
        (fs, i) \<Rightarrow>
          if mf_open (fs_objects fs ! i) then (fs, Inl (JsError ''file is open''))
          else (fs\<lparr>fs_objects := (fs_objects fs)[i := (fs_objects fs ! i)\<lparr>mf_open := True\<rparr>]\<rparr>, Inr i))"

definition mfs_remove :: "'n \<Rightarrow> 'n mem_fs \<Rightarrow> 'n mem_fs" where
  "mfs_remove name fs = fs\<lparr>fs_names := map_delete name (fs_names fs)\<rparr>"

definition durable_file :: "mem_file \<Rightarrow> 'n \<Rightarrow> 'n mem_fs \<Rightarrow> 'n mem_fs" where
  "durable_file file name copy =
     (case mfs_file name copy of
        (copy, i) \<Rightarrow> copy\<lparr>fs_objects := (fs_objects copy)
           [i := mf_flush (fst (mf_write (fs_objects copy ! i) (mf_synced file) 0))]\<rparr>)"

definition afterCrash :: "'n mem_fs \<Rightarrow> 'n mem_fs" where
  "afterCrash fs =
     fold (\<lambda>(name, i) copy. durable_file (fs_objects fs ! i) name copy) (fs_names fs) new_MemoryFileSystem"

text \<open>Every file after a crash has the bytes of its last \<open>flush\<close>, also as flushed, and is closed.\<close>

definition durable :: "bytes \<Rightarrow> mem_file \<Rightarrow> bool" where
  "durable content f \<longleftrightarrow> mf_ok f \<and> mf_bytes f = content \<and> mf_synced f = content \<and> \<not> mf_open f"

lemma durable_new: "durable content (mf_flush (fst (mf_write new_MemoryFile content 0)))"
proof -
  obtain f where f: "mf_write new_MemoryFile content 0 = (f, Inr (length content))" "mf_ok f"
    "mf_bytes f = writer_write [] content 0"
    using mf_write_refines [of new_MemoryFile content 0] mf_new by (auto simp: new_MemoryFile_def)
  have "mf_open f = mf_open new_MemoryFile"
    using f(1) by (auto simp: mf_write_def Let_def split: if_splits sum.splits)
  moreover have "mf_bytes f = content" unfolding f(3) by (simp add: writer_write_def overwrite_def)
  ultimately show ?thesis using f(1,2)
    by (simp add: durable_def mf_flush_def mf_ok_def mf_bytes_def new_MemoryFile_def)
qed

definition crashed :: "'n mem_fs \<Rightarrow> ('n \<times> nat) list \<Rightarrow> 'n mem_fs \<Rightarrow> bool" where
  "crashed fs names copy \<longleftrightarrow>
     map fst (fs_names copy) = map fst names
     \<and> (\<forall>(name, i) \<in> set names. \<exists>j. map_get (fs_names copy) name = Some j \<and> j < length (fs_objects copy)
          \<and> durable (mf_synced (fs_objects fs ! i)) (fs_objects copy ! j))"

lemma crashed_step:
  assumes "crashed fs names copy" and "name \<notin> set (map fst names)"
  shows "crashed fs (names @ [(name, i)]) (durable_file (fs_objects fs ! i) name copy)"
proof -
  have k: "map fst (fs_names copy) = map fst names" using assms(1) by (simp add: crashed_def)
  then have "name \<notin> set (map fst (fs_names copy))" using assms(2) by simp
  then have n: "map_get (fs_names copy) name = None" by (simp add: map_of_eq_None_iff)
  let ?copy = "durable_file (fs_objects fs ! i) name copy"
  have c: "fs_names ?copy = map_set name (length (fs_objects copy)) (fs_names copy)"
    "fs_objects ?copy = fs_objects copy @ [mf_flush (fst (mf_write new_MemoryFile (mf_synced (fs_objects fs ! i)) 0))]"
    by (simp_all add: durable_file_def mfs_file_def n)
  have "map fst (fs_names ?copy) = map fst names @ [name]"
    using \<open>name \<notin> set (map fst (fs_names copy))\<close> by (simp add: c update_keys k)
  moreover have "\<exists>j. map_get (fs_names ?copy) nm = Some j \<and> j < length (fs_objects ?copy)
      \<and> durable (mf_synced (fs_objects fs ! k)) (fs_objects ?copy ! j)" if "(nm, k) \<in> set (names @ [(name, i)])" for nm k
  proof (cases "nm = name")
    case True
    then have "k = i" using that assms(2) by force
    then show ?thesis using True durable_new by (simp add: c map_get_set nth_append)
  next
    case False
    then have "(nm, k) \<in> set names" using that by simp
    then show ?thesis using assms(1) False
      by (auto simp: crashed_def c map_get_set nth_append dest!: bspec [of _ _ "(nm, k)"])
  qed
  ultimately show ?thesis by (auto simp: crashed_def)
qed

lemma after_crash:
  assumes "map_ok (fs_names fs)"
  shows "crashed fs (fs_names fs) (afterCrash fs)"
proof -
  have "crashed fs names (fold (\<lambda>(name, i) copy. durable_file (fs_objects fs ! i) name copy) names new_MemoryFileSystem)"
    if "distinct (map fst names)" for names
    using that
  proof (induction names rule: rev_induct)
    case Nil
    then show ?case by (simp add: crashed_def new_MemoryFileSystem_def)
  next
    case (snoc x xs)
    then show ?case using crashed_step [of fs xs _ "fst x" "snd x"] by (simp add: case_prod_unfold)
  qed
  then show ?thesis using assms by (simp add: afterCrash_def map_ok_def)
qed

end
