(* ===== verification/Db_Heap.thy ===== *)
theory Db_Heap
  imports Snapshot_Compare Idb_Load
begin

text \<open>
  What Database.ts reads from and writes to the Wasm heap apart from statements: the arguments of the
  commit listener (\<open>onCommit\<close>), the pages a database holds (\<open>pages\<close>), the pieces an image is loaded in
  (\<open>load\<close>) and \<open>export\<close>. The heap is a list of bytes, and the functions of SQLite are parameters: here
  it is what they leave in the heap, as sqlite3-bridge.c lays it out.
\<close>

section \<open>getValue\<close>

text \<open>
  Emscripten's \<open>getValue\<close> reads \<open>HEAP32\<close> or, for a pointer, \<open>HEAPU32\<close> at a quarter of the address.
\<close>

definition getValue_ptr :: "bytes \<Rightarrow> nat \<Rightarrow> nat" where
  "getValue_ptr heap ptr = u32_at heap (ptr div 4)"

definition getValue_i32 :: "bytes \<Rightarrow> nat \<Rightarrow> int" where
  "getValue_i32 heap ptr = sint (word_of_nat (u32_at heap (ptr div 4)) :: 32 word)"

section \<open>onCommit\<close>

text \<open>
  The \<open>Map\<close> of the chunks a commit changed, by index. An index is stored in 64 bits and only its low half
  is read.
\<close>

definition changed_chunks :: "bytes \<Rightarrow> nat \<Rightarrow> nat \<Rightarrow> nat \<Rightarrow> nat \<Rightarrow> (int \<times> bytes) list" where
  "changed_chunks heap indexes chunks chunkSize count =
     fold (\<lambda>i changed.
         let data = getValue_ptr heap (chunks + 4 * i)
         in map_set (getValue_i32 heap (indexes + 8 * i)) (subarray heap data (data + chunkSize)) changed)
       [0..<count] []"

definition commit_of :: "bytes \<Rightarrow> nat \<Rightarrow> nat \<Rightarrow> nat \<Rightarrow> nat \<Rightarrow> nat \<Rightarrow> nat \<Rightarrow> commit" where
  "commit_of heap count indexes chunks chunkSize size' minSize =
     \<lparr>cm_chunkSize = chunkSize, cm_size = size', cm_minSize = minSize,
      cm_chunks = map (\<lambda>(index, data). (nat index, data)) (changed_chunks heap indexes chunks chunkSize count)\<rparr>"

text \<open>What the callback returns to SQLite: an exception of the listener must not unwind through it.\<close>

definition commit_callback :: "(commit \<Rightarrow> unit result) \<Rightarrow> commit \<Rightarrow> nat" where
  "commit_callback listener c = (case listener c of Inl _ \<Rightarrow> SQLITE_ERROR | Inr _ \<Rightarrow> 0)"

section \<open>pages\<close>

text \<open>
  \<open>alinea_pages\<close> returned \<open>code\<close> and, if that is 0, filled \<open>info\<close> and \<open>sizes\<close>; \<open>getValue_double\<close> reads a
  \<open>double\<close> that is a whole number.
\<close>

definition db_pages :: "(bytes \<Rightarrow> nat \<Rightarrow> nat) \<Rightarrow> nat \<Rightarrow> bytes \<Rightarrow> nat \<Rightarrow> nat \<Rightarrow> pages_held result" where
  "db_pages getValue_double code heap info sizes =
     (if code \<noteq> 0 then Inl (SqliteError code)
      else let count = getValue_i32 heap (info + 4);
               indexes = getValue_ptr heap (info + 8);
               pointers = getValue_ptr heap (info + 12)
           in Inr \<lparr>pg_chunkSize = nat (getValue_i32 heap info), pg_size = getValue_double heap sizes,
                pg_visible = getValue_double heap (sizes + 8),
                pg_pages = map (\<lambda>i. (nat (getValue_i32 heap (indexes + 8 * i)), getValue_ptr heap (pointers + 4 * i)))
                  [0..<nat count]\<rparr>)"

section \<open>load and export\<close>

definition LOAD_CHUNK_SIZE :: nat where "LOAD_CHUNK_SIZE = 2 ^ 20"

text \<open>
  The loop of \<open>load\<close>, from \<open>pos\<close> (\<open>done\<close> in the code) on: the calls of \<open>alinea_load\<close> it makes, each with
  where its piece goes, and the code that ended it. \<open>sqlite\<close> is what \<open>alinea_load\<close> returns for a call.
\<close>

function load_pieces :: "(nat \<Rightarrow> bytes \<Rightarrow> nat) \<Rightarrow> bytes \<Rightarrow> nat \<Rightarrow> nat \<Rightarrow> nat \<Rightarrow> (nat \<times> bytes) list \<times> nat" where
  "load_pieces sqlite data pieceSize offset pos =
     (if pos < length data \<and> 0 < pieceSize
      then let piece = subarray data pos (pos + pieceSize);
               code = sqlite (offset + pos) piece
           in if code \<noteq> 0 then ([(offset + pos, piece)], code)
              else (case load_pieces sqlite data pieceSize offset (pos + pieceSize) of
                      (calls, code) \<Rightarrow> ((offset + pos, piece) # calls, code))
      else ([], 0))"
  by pat_completeness auto
termination by (relation "measure (\<lambda>(sqlite, data, pieceSize, offset, pos). length data - pos)") auto

declare load_pieces.simps [simp del]

text \<open>
  \<open>load\<close> with what it leaves: the calls, the result, whether the database is still open (\<open>fail\<close> closes it)
  and whether the piece's memory is free. \<open>allocated\<close> tells if \<open>alinea_malloc\<close> gave memory.
\<close>

record load_outcome =
  lo_calls :: "(nat \<times> bytes) list"
  lo_result :: "unit result"
  lo_open :: bool
  lo_freed :: bool

definition db_load :: "(nat \<Rightarrow> bytes \<Rightarrow> nat) \<Rightarrow> bool \<Rightarrow> bytes \<Rightarrow> nat \<Rightarrow> load_outcome" where
  "db_load sqlite allocated data offset =
     (if \<not> allocated
      then \<lparr>lo_calls = [], lo_result = Inl (SqliteError SQLITE_ERROR), lo_open = False, lo_freed = True\<rparr>
      else case load_pieces sqlite data (min (length data) LOAD_CHUNK_SIZE) offset 0 of
             (calls, code) \<Rightarrow>
               \<lparr>lo_calls = calls, lo_result = (if code = 0 then Inr () else Inl (SqliteError code)),
                lo_open = (code = 0), lo_freed = True\<rparr>)"

text \<open>\<open>alinea_serialize\<close> gave a pointer, or NULL, and left the number of bytes.\<close>

definition db_export :: "bytes \<Rightarrow> nat \<Rightarrow> nat \<Rightarrow> bytes result" where
  "db_export heap dataPtr tempInt32 =
     (if dataPtr = 0 then Inl (JsError ''Unable to serialize the database'')
      else let byteLength = nat (getValue_i32 heap tempInt32)
           in Inr (subarray heap dataPtr (dataPtr + byteLength)))"

section \<open>What is in the heap\<close>

definition le_bytes :: "nat \<Rightarrow> nat \<Rightarrow> bytes" where
  "le_bytes k n = map (\<lambda>j. word_of_nat (n div 256 ^ j)) [0..<k]"

definition stored_at :: "bytes \<Rightarrow> nat \<Rightarrow> bytes \<Rightarrow> bool" where
  "stored_at heap ptr bs \<longleftrightarrow> ptr + length bs \<le> length heap \<and> subarray heap ptr (ptr + length bs) = bs"

text \<open>
  The two arrays SQLite passes: of 64-bit indexes and of pointers to the chunks, which are in the heap.
\<close>

definition arrays_ok :: "bytes \<Rightarrow> nat \<Rightarrow> nat \<Rightarrow> nat \<Rightarrow> (nat \<times> nat \<times> bytes) list \<Rightarrow> bool" where
  "arrays_ok heap indexes pointers chunkSize es \<longleftrightarrow> indexes mod 4 = 0 \<and> pointers mod 4 = 0
   \<and> (\<forall>i < length es. case es ! i of (index, p, d) \<Rightarrow>
        index < 2 ^ 31 \<and> p < 2 ^ 32 \<and> length d = chunkSize \<and> stored_at heap p d
        \<and> stored_at heap (indexes + 8 * i) (le_bytes 8 index) \<and> stored_at heap (pointers + 4 * i) (le_bytes 4 p))"

definition info_ok :: "bytes \<Rightarrow> nat \<Rightarrow> nat \<Rightarrow> nat \<Rightarrow> nat \<Rightarrow> nat \<Rightarrow> bool" where
  "info_ok heap info chunkSize count indexes pointers \<longleftrightarrow> info mod 4 = 0
   \<and> chunkSize < 2 ^ 31 \<and> count < 2 ^ 31 \<and> indexes < 2 ^ 32 \<and> pointers < 2 ^ 32
   \<and> stored_at heap info (le_bytes 4 chunkSize) \<and> stored_at heap (info + 4) (le_bytes 4 count)
   \<and> stored_at heap (info + 8) (le_bytes 4 indexes) \<and> stored_at heap (info + 12) (le_bytes 4 pointers)"

lemma stored_at_nth: "stored_at heap ptr bs \<Longrightarrow> i < length bs \<Longrightarrow> heap ! (ptr + i) = bs ! i"
  by (metis add_diff_cancel_left' min.absorb1 nth_subarray stored_at_def)

lemma le_bytes_nth: "j < k \<Longrightarrow> unat (le_bytes k n ! j) = n div 256 ^ j mod 256"
  by (simp add: le_bytes_def unsigned_of_nat take_bit_eq_mod)

lemma length_le_bytes [simp]: "length (le_bytes k n) = k"
  by (simp add: le_bytes_def)

lemma digits_256:
  fixes n :: nat
  assumes "n < 2 ^ 32"
  shows "n mod 256 + 256 * (n div 256 mod 256) + 65536 * (n div 65536 mod 256) + 16777216 * (n div 16777216 mod 256) = n"
proof -
  let ?a = "n div 256" and ?b = "n div 65536" and ?c = "n div 16777216"
  have b: "?b = ?a div 256" and c: "?c = ?b div 256" by (simp_all flip: div_mult2_eq)
  have "?c < 256" using assms by (simp add: div_less_iff_less_mult)
  then have "?b mod 256 + 256 * (?c mod 256) = ?b" unfolding c by simp
  moreover have "?a mod 256 + 256 * ?b = ?a" unfolding b by simp
  moreover have "n mod 256 + 256 * ?a = n" by simp
  ultimately show ?thesis by linarith
qed

lemma u32_stored:
  assumes "stored_at heap ptr (le_bytes k n)" and "4 \<le> k" and "ptr mod 4 = 0" and "n < 2 ^ 32"
  shows "u32_at heap (ptr div 4) = n"
proof -
  have p: "4 * (ptr div 4) = ptr" using assms(3) by presburger
  have "unat (heap ! (ptr + j)) = n div 256 ^ j mod 256" if "j < 4" for j
    using stored_at_nth [OF assms(1), of j] le_bytes_nth [of j k n] that assms(2) by simp
  from this [of 0] this [of 1] this [of 2] this [of 3] show ?thesis
    using digits_256 [OF assms(4)] by (simp add: u32_at_def p)
qed

lemma ptr_stored: "stored_at heap ptr (le_bytes 4 n) \<Longrightarrow> ptr mod 4 = 0 \<Longrightarrow> n < 2 ^ 32 \<Longrightarrow> getValue_ptr heap ptr = n"
  by (simp add: getValue_ptr_def u32_stored)

lemma i32_stored:
  assumes "stored_at heap ptr (le_bytes k n)" and "4 \<le> k" and "ptr mod 4 = 0" and "n < 2 ^ 31"
  shows "getValue_i32 heap ptr = int n"
proof -
  have "u32_at heap (ptr div 4) = n" using assms by (intro u32_stored) auto
  moreover have "sint (word_of_nat n :: 32 word) = int n"
    using assms(4) by (simp add: signed_of_nat signed_take_bit_int_eq_self)
  ultimately show ?thesis by (simp add: getValue_i32_def)
qed

lemma arrays_read:
  assumes "arrays_ok heap indexes pointers chunkSize es" and "i < length es" and "es ! i = (index, p, d)"
  shows "getValue_i32 heap (indexes + 8 * i) = int index" and "getValue_ptr heap (pointers + 4 * i) = p"
    and "subarray heap p (p + chunkSize) = d"
proof -
  have e: "index < 2 ^ 31" "p < 2 ^ 32" "length d = chunkSize" "stored_at heap p d"
    "stored_at heap (indexes + 8 * i) (le_bytes 8 index)" "stored_at heap (pointers + 4 * i) (le_bytes 4 p)"
    and m: "indexes mod 4 = 0" "pointers mod 4 = 0"
    using assms by (auto simp: arrays_ok_def)
  show "getValue_i32 heap (indexes + 8 * i) = int index"
    by (rule i32_stored [OF e(5) _ _ e(1)]) (use m in presburger)+
  show "getValue_ptr heap (pointers + 4 * i) = p"
    by (rule ptr_stored [OF e(6) _ e(2)]) (use m in presburger)
  show "subarray heap p (p + chunkSize) = d" using e(3,4) by (simp add: stored_at_def)
qed

lemma set_new: "map_get m k = None \<Longrightarrow> map_set k v m = m @ [(k, v)]"
  by (induction m) (auto split: if_splits)

lemma changed_prefix:
  assumes "arrays_ok heap indexes chunks chunkSize es" and "distinct (map fst es)" and "n \<le> length es"
  shows "changed_chunks heap indexes chunks chunkSize n = map (\<lambda>(index, p, d). (int index, d)) (take n es)"
  using assms(3)
proof (induction n)
  case 0
  then show ?case by (simp add: changed_chunks_def)
next
  case (Suc n)
  obtain index p d where e: "es ! n = (index, p, d)" by (cases "es ! n") auto
  have n: "n < length es" using Suc.prems by simp
  note r = arrays_read [OF assms(1) n e]
  let ?m = "map (\<lambda>(index, p, d). (int index, d)) (take n es)"
  have "index \<notin> fst ` set (take n es)"
  proof
    assume "index \<in> fst ` set (take n es)"
    then obtain j where "j < n" "fst (es ! j) = index" by (auto simp: in_set_conv_nth)
    then show False using assms(2) n e by (metis (no_types, lifting) distinct_conv_nth fst_conv length_map less_irrefl
        less_trans nth_map)
  qed
  then have "map_get ?m (int index) = None" by (force simp: map_of_eq_None_iff)
  from set_new [OF this, of d]
  have "changed_chunks heap indexes chunks chunkSize (Suc n) = ?m @ [(int index, d)]"
    using Suc by (simp add: changed_chunks_def r Let_def)
  then show ?case using n by (simp add: take_Suc_conv_app_nth e)
qed

section \<open>Loading\<close>

text \<open>The calls, as long as they succeed, have the image from \<open>pos\<close> on, piece after piece.\<close>

lemma load_pieces_spec:
  assumes "load_pieces sqlite data pieceSize offset pos = (calls, code)" and "0 < pieceSize"
  shows "contiguous (offset + pos) calls \<and> (\<forall>c \<in> set calls. length (snd c) \<le> pieceSize)
    \<and> concat (map snd calls) = take (length (concat (map snd calls))) (drop pos data)
    \<and> (code = 0 \<longrightarrow> concat (map snd calls) = drop pos data)"
  using assms
proof (induction sqlite data pieceSize offset pos arbitrary: calls code rule: load_pieces.induct)
  case (1 sqlite data pieceSize offset pos)
  let ?piece = "subarray data pos (pos + pieceSize)"
  show ?case
  proof (cases "pos < length data")
    case False
    then show ?thesis using "1.prems" by (simp add: load_pieces.simps)
  next
    case True
    have d: "drop pos data = ?piece @ drop (pos + pieceSize) data"
      using append_take_drop_id [of pieceSize "drop pos data"] by (simp add: subarray_def drop_take add.commute)
    show ?thesis
    proof (cases "sqlite (offset + pos) ?piece = 0")
      case False
      then have "calls = [(offset + pos, ?piece)]" "code \<noteq> 0"
        using "1.prems" True by (auto simp: load_pieces.simps [of sqlite data pieceSize offset pos] Let_def)
      then show ?thesis unfolding d by simp
    next
      case ok: True
      obtain rest code' where r: "load_pieces sqlite data pieceSize offset (pos + pieceSize) = (rest, code')"
        by (cases "load_pieces sqlite data pieceSize offset (pos + pieceSize)")
      have c: "calls = (offset + pos, ?piece) # rest" "code = code'"
        using "1.prems" True ok r by (auto simp: load_pieces.simps [of sqlite data pieceSize offset pos] Let_def)
      have IH: "contiguous (offset + (pos + pieceSize)) rest \<and> (\<forall>c \<in> set rest. length (snd c) \<le> pieceSize)
          \<and> concat (map snd rest) = take (length (concat (map snd rest))) (drop (pos + pieceSize) data)
          \<and> (code' = 0 \<longrightarrow> concat (map snd rest) = drop (pos + pieceSize) data)"
        using "1.IH" [OF _ refl refl] True ok r "1.prems"(2) by simp
      have "contiguous (offset + pos + length ?piece) rest"
      proof (cases "pos + pieceSize \<le> length data")
        case True
        then show ?thesis using IH by (simp add: add.assoc)
      next
        case False
        then have "rest = []" using r by (simp add: load_pieces.simps)
        then show ?thesis by simp
      qed
      then show ?thesis using IH unfolding c d by simp
    qed
  qed
qed

lemma load_passes_image:
  assumes "data \<noteq> []"
  shows "let l = db_load sqlite allocated data offset; passed = concat (map snd (lo_calls l))
    in contiguous offset (lo_calls l) \<and> (\<forall>c \<in> set (lo_calls l). length (snd c) \<le> LOAD_CHUNK_SIZE)
       \<and> passed = take (length passed) data \<and> lo_freed l
       \<and> (lo_open l \<longleftrightarrow> lo_result l = Inr ()) \<and> (lo_open l \<longrightarrow> passed = data)"
proof -
  obtain calls code where c: "load_pieces sqlite data (min (length data) LOAD_CHUNK_SIZE) offset 0 = (calls, code)"
    by (cases "load_pieces sqlite data (min (length data) LOAD_CHUNK_SIZE) offset 0")
  have "0 < min (length data) LOAD_CHUNK_SIZE" using assms by (simp add: LOAD_CHUNK_SIZE_def)
  from load_pieces_spec [OF c this] show ?thesis by (auto simp: db_load_def c Let_def)
qed

section \<open>Properties\<close>

text \<open>
  C10. What SQLite lays out in the heap is what arrives. For arrays of distinct chunk indexes below
  \<open>2 ^ 31\<close> and of pointers to the chunks, the commit that \<open>onCommit\<close> reports has exactly those chunks, by
  their indexes and in their order, with its sizes; and \<open>pages\<close> gives the indexes and, for each, where the
  heap has its content, or throws the code of SQLite.
\<close>

theorem commit_arrives:
  assumes "arrays_ok heap indexes chunks chunkSize es" and "distinct (map fst es)"
    and "info_ok heap info chunkSize (length es) indexes chunks"
  shows "commit_of heap (length es) indexes chunks chunkSize n m =
      \<lparr>cm_chunkSize = chunkSize, cm_size = n, cm_minSize = m, cm_chunks = map (\<lambda>(index, p, d). (index, d)) es\<rparr>
    \<and> db_pages double 0 heap info sizes =
        Inr \<lparr>pg_chunkSize = chunkSize, pg_size = double heap sizes, pg_visible = double heap (sizes + 8),
             pg_pages = map (\<lambda>(index, p, d). (index, p)) es\<rparr>
    \<and> (\<forall>(index, p, d) \<in> set es. subarray heap p (p + chunkSize) = d)
    \<and> (code \<noteq> 0 \<longrightarrow> db_pages double code heap info sizes = Inl (SqliteError code))"
proof (intro conjI)
  show "commit_of heap (length es) indexes chunks chunkSize n m =
      \<lparr>cm_chunkSize = chunkSize, cm_size = n, cm_minSize = m, cm_chunks = map (\<lambda>(index, p, d). (index, d)) es\<rparr>"
    using changed_prefix [OF assms(1,2) order.refl] by (simp add: commit_of_def comp_def case_prod_unfold)
  have i: "info mod 4 = 0" "chunkSize < 2 ^ 31" "length es < 2 ^ 31" "indexes < 2 ^ 32" "chunks < 2 ^ 32"
    "stored_at heap info (le_bytes 4 chunkSize)" "stored_at heap (info + 4) (le_bytes 4 (length es))"
    "stored_at heap (info + 8) (le_bytes 4 indexes)" "stored_at heap (info + 12) (le_bytes 4 chunks)"
    using assms(3) by (simp_all add: info_ok_def)
  have m: "(info + 4) mod 4 = 0" "(info + 8) mod 4 = 0" "(info + 12) mod 4 = 0" using i(1) by presburger+
  note r = i32_stored [OF i(6) _ i(1,2)] i32_stored [OF i(7) _ m(1) i(3)] ptr_stored [OF i(8) m(2) i(4)]
    ptr_stored [OF i(9) m(3) i(5)]
  have "map (\<lambda>k. (nat (getValue_i32 heap (indexes + 8 * k)), getValue_ptr heap (chunks + 4 * k))) [0..<length es]
      = map (\<lambda>(index, p, d). (index, p)) es"
  proof (rule nth_equalityI)
    fix k
    assume k: "k < length (map (\<lambda>k. (nat (getValue_i32 heap (indexes + 8 * k)), getValue_ptr heap (chunks + 4 * k))) [0..<length es])"
    obtain index p d where e: "es ! k = (index, p, d)" by (cases "es ! k") auto
    show "map (\<lambda>k. (nat (getValue_i32 heap (indexes + 8 * k)), getValue_ptr heap (chunks + 4 * k))) [0..<length es] ! k
        = map (\<lambda>(index, p, d). (index, p)) es ! k"
      using arrays_read [OF assms(1) _ e] k by (simp add: e)
  qed simp
  then show "db_pages double 0 heap info sizes =
        Inr \<lparr>pg_chunkSize = chunkSize, pg_size = double heap sizes, pg_visible = double heap (sizes + 8),
             pg_pages = map (\<lambda>(index, p, d). (index, p)) es\<rparr>"
    by (simp add: db_pages_def r Let_def)
  show "\<forall>(index, p, d) \<in> set es. subarray heap p (p + chunkSize) = d"
    using arrays_read(3) [OF assms(1)] by (fastforce simp: in_set_conv_nth)
  show "code \<noteq> 0 \<longrightarrow> db_pages double code heap info sizes = Inl (SqliteError code)"
    by (simp add: db_pages_def)
qed

text \<open>A heap with one chunk of two bytes, its index 3, and the record of \<open>alinea_pages\<close>.\<close>

definition ex_commit_heap :: bytes where
  "ex_commit_heap = [3, 0, 0, 0, 0, 0, 0, 0, 12, 0, 0, 0, 7, 9, 0, 0, 2, 0, 0, 0, 1, 0, 0, 0, 0, 0, 0, 0, 8, 0, 0, 0]"

theorem commit_arrives_witness:
  "cm_chunks (commit_of ex_commit_heap 1 0 8 2 10 6) = [(3, [7, 9])]
    \<and> db_pages (\<lambda>_ _. 0) 0 ex_commit_heap 16 40 =
        Inr \<lparr>pg_chunkSize = 2, pg_size = 0, pg_visible = 0, pg_pages = [(3, 12)]\<rparr>"
proof -
  have "arrays_ok ex_commit_heap 0 8 2 [(3, 12, [7, 9])]"
    by (simp add: arrays_ok_def stored_at_def subarray_def ex_commit_heap_def le_bytes_def upt_rec)
  moreover have "info_ok ex_commit_heap 16 2 (length [(3 :: nat, 12 :: nat, [7, 9 :: byte])]) 0 8"
    by (simp add: info_ok_def stored_at_def subarray_def ex_commit_heap_def le_bytes_def upt_rec)
  ultimately show ?thesis
    using commit_arrives [of ex_commit_heap 0 8 2 "[(3, 12, [7, 9])]" 16 10 6 "\<lambda>_ _. 0" 40 0] by simp
qed

end
