(* ===== verification/Db_Storing.thy ===== *)
theory Db_Storing
  imports Prelude
begin

text \<open>
  Where a \<open>Database\<close> of Database.ts is stored, and whom SQLite calls when it commits: attaching a storage
  and detaching it, the file of the js VFS, the commit listener a storage registers (\<open>onCommit\<close>), those of
  sessions (\<open>watchCommits\<close>), and closing. Both kinds of callback are slots of the function table of the
  Wasm module; SQLite keeps a slot until it is given another. SQLite's answers are parameters.
\<close>

section \<open>State\<close>

text \<open>
  \<open>attaching\<close> of the code is True in the last two phases: the storage has not used the database yet, or it
  has.
\<close>

datatype attach_phase = Not_attaching | Attaching | Attach_used

text \<open>
  \<open>sg_table\<close> has the slots in use for this database. The two fields \<open>sg_sqlite_*\<close> are what SQLite has
  registered. \<open>sg_null_call\<close> notes that SQLite was called for a database that is closed, with NULL.
\<close>

record storing =
  sg_open :: bool
  sg_table :: "nat set"
  sg_listener :: "nat option"
  sg_watch :: "(nat \<times> nat list) option"
  sg_file :: "string option"
  sg_attaching :: attach_phase
  sg_sqlite_listener :: "nat option"
  sg_sqlite_hook :: "nat option"
  sg_null_call :: bool

definition new_storing :: "string option \<Rightarrow> storing" where
  "new_storing f = \<lparr>sg_open = True, sg_table = {}, sg_listener = None, sg_watch = None, sg_file = f,
     sg_attaching = Not_attaching, sg_sqlite_listener = None, sg_sqlite_hook = None, sg_null_call = False\<rparr>"

section \<open>Listeners\<close>

text \<open>
  \<open>onCommit\<close>: \<open>free\<close> is \<open>addFunction\<close>'s choice of a slot, \<open>chunkSize\<close> what \<open>alinea_persist\<close> returns, 0 if
  it refuses.
\<close>

definition on_commit :: "(nat set \<Rightarrow> nat) \<Rightarrow> nat \<Rightarrow> storing \<Rightarrow> storing \<times> nat result" where
  "on_commit free chunkSize st =
     (let callback = free (sg_table st);
          st = st\<lparr>sg_table := insert callback (sg_table st), sg_null_call := sg_null_call st \<or> \<not> sg_open st\<rparr>
      in if chunkSize = 0
         then (st\<lparr>sg_table := sg_table st - {callback}\<rparr>, Inl (JsError ''Unable to track commits''))
         else let st = st\<lparr>sg_sqlite_listener := Some callback\<rparr>;
                  st = (case sg_listener st of None \<Rightarrow> st | Some p \<Rightarrow> st\<lparr>sg_table := sg_table st - {p}\<rparr>)
              in (st\<lparr>sg_listener := Some callback\<rparr>, Inr chunkSize))"

definition stopCommits :: "storing \<Rightarrow> storing" where
  "stopCommits st =
     (case sg_listener st of
        None \<Rightarrow> st
      | Some p \<Rightarrow> st\<lparr>sg_sqlite_listener := None, sg_table := sg_table st - {p}, sg_listener := None\<rparr>)"

definition watchCommits :: "(nat set \<Rightarrow> nat) \<Rightarrow> nat \<Rightarrow> storing \<Rightarrow> storing result" where
  "watchCommits free listener st =
     (if \<not> sg_open st then Inl (JsError ''Database closed'')
      else let st = (case sg_watch st of
                   Some _ \<Rightarrow> st
                 | None \<Rightarrow>
                     let pointer = free (sg_table st)
                     in st\<lparr>sg_table := insert pointer (sg_table st), sg_sqlite_hook := Some pointer,
                           sg_watch := Some (pointer, [])\<rparr>)
           in Inr (st\<lparr>sg_watch := map_option (\<lambda>(p, ls). (p, if listener \<in> set ls then ls else ls @ [listener])) (sg_watch st)\<rparr>))"

definition unwatch :: "nat \<Rightarrow> storing \<Rightarrow> storing" where
  "unwatch listener st =
     st\<lparr>sg_watch := map_option (\<lambda>(p, ls). (p, removeAll listener ls)) (sg_watch st)\<rparr>"

section \<open>Storing\<close>

text \<open>\<open>attach\<close> up to calling the storage, and its \<open>finally\<close>.\<close>

definition attach_called :: "storing \<Rightarrow> storing result" where
  "attach_called st =
     (if \<not> sg_open st then Inl (JsError ''Database closed'')
      else if sg_attaching st \<noteq> Not_attaching \<or> sg_listener st \<noteq> None \<or> sg_file st \<noteq> None
      then Inl (SqliteError SQLITE_MISUSE)
      else Inr (st\<lparr>sg_attaching := Attaching\<rparr>))"

definition attach_ends :: "storing \<Rightarrow> storing" where
  "attach_ends st = st\<lparr>sg_attaching := Not_attaching\<rparr>"

definition attachFile :: "string \<Rightarrow> nat \<Rightarrow> storing \<Rightarrow> storing result" where
  "attachFile f code st =
     (if \<not> sg_open st then Inl (JsError ''Database closed'')
      else if code \<noteq> 0 then Inl (SqliteError code)
      else Inr (st\<lparr>sg_file := Some f\<rparr>))"

text \<open>\<open>detachFile\<close>, which FilePersistence calls, and \<open>detach\<close>; \<open>code\<close> is that of \<open>alinea_detach_file\<close>.\<close>

definition detachFile :: "nat \<Rightarrow> storing \<Rightarrow> storing result" where
  "detachFile code st =
     (if \<not> sg_open st \<or> sg_file st = None then Inr st
      else if code \<noteq> 0 then Inl (SqliteError code)
      else Inr (st\<lparr>sg_file := None\<rparr>))"

definition db_detach :: "nat \<Rightarrow> storing \<Rightarrow> storing result" where
  "db_detach code st =
     (if sg_file st \<noteq> None then detachFile code st
      else if sg_listener st = None then Inr st
      else Inr (stopCommits st))"

text \<open>\<open>close\<close>, as far as it concerns the callbacks.\<close>

definition close_storing :: "storing \<Rightarrow> storing" where
  "close_storing st =
     (let st = stopCommits st;
          st = (case sg_watch st of
                  None \<Rightarrow> st
                | Some (p, _) \<Rightarrow> st\<lparr>sg_sqlite_hook := None, sg_table := sg_table st - {p}, sg_watch := None\<rparr>)
      in st\<lparr>sg_open := False\<rparr>)"

text \<open>
  What the two storages do with the database of \<open>attach\<close> in the turn in which they use it: FileStorage
  attaches the file; IndexedDBStorage registers its listener and reports everything, and detaches if that
  fails with the code \<open>all\<close>.
\<close>

definition file_storage_uses :: "string \<Rightarrow> nat \<Rightarrow> storing \<Rightarrow> storing" where
  "file_storage_uses f code st = (case attachFile f code st of Inl _ \<Rightarrow> st | Inr st' \<Rightarrow> st')"

definition idb_storage_uses :: "(nat set \<Rightarrow> nat) \<Rightarrow> nat \<Rightarrow> nat \<Rightarrow> storing \<Rightarrow> storing" where
  "idb_storage_uses free chunkSize all st =
     (case on_commit free chunkSize st of
        (st', Inl _) \<Rightarrow> (case db_detach 0 st' of Inl _ \<Rightarrow> st' | Inr st'' \<Rightarrow> st'')
      | (st', Inr _) \<Rightarrow>
          if all = 0 then st' else (case db_detach 0 st' of Inl _ \<Rightarrow> st' | Inr st'' \<Rightarrow> st''))"

section \<open>Steps\<close>

inductive storing_step :: "(nat set \<Rightarrow> nat) \<Rightarrow> storing \<Rightarrow> storing \<Rightarrow> bool" for free where
  attach: "attach_called st = Inr st' \<Longrightarrow> storing_step free st st'"
| use_file: "sg_attaching st = Attaching \<Longrightarrow>
    storing_step free st (file_storage_uses f code (st\<lparr>sg_attaching := Attach_used\<rparr>))"
| use_idb: "sg_attaching st = Attaching \<Longrightarrow> sg_open st \<or> chunkSize = 0 \<Longrightarrow>
    storing_step free st (idb_storage_uses free chunkSize all (st\<lparr>sg_attaching := Attach_used\<rparr>))"
| attached: "storing_step free st (attach_ends st)"
| detach: "db_detach code st = Inr st' \<Longrightarrow> storing_step free st st'"
| watch: "watchCommits free l st = Inr st' \<Longrightarrow> storing_step free st st'"
| unwatch: "storing_step free st (unwatch l st)"
| close: "sg_open st \<Longrightarrow> storing_step free st (close_storing st)"

inductive storing_run :: "(nat set \<Rightarrow> nat) \<Rightarrow> storing \<Rightarrow> storing \<Rightarrow> bool" for free where
  start: "storing_run free st st"
| step: "storing_run free st st' \<Longrightarrow> storing_step free st' st'' \<Longrightarrow> storing_run free st st''"

section \<open>Invariant\<close>

text \<open>\<open>addFunction\<close> gives a slot that is not in use.\<close>

definition free_slots :: "(nat set \<Rightarrow> nat) \<Rightarrow> bool" where
  "free_slots free \<longleftrightarrow> (\<forall>used. finite used \<longrightarrow> free used \<notin> used)"

text \<open>
  SQLite calls exactly the listeners the database has, their slots are in use and no others are; a closed
  database has none; and it is not stored in two places.
\<close>

definition callbacks_ok :: "storing \<Rightarrow> bool" where
  "callbacks_ok st \<longleftrightarrow> sg_sqlite_listener st = sg_listener st \<and> sg_sqlite_hook st = map_option fst (sg_watch st)
   \<and> sg_table st = set_option (sg_listener st) \<union> set_option (sg_sqlite_hook st)
   \<and> (\<forall>p. sg_listener st = Some p \<longrightarrow> sg_sqlite_hook st \<noteq> Some p)
   \<and> (\<not> sg_open st \<longrightarrow> sg_listener st = None \<and> sg_watch st = None)"

definition places_ok :: "storing \<Rightarrow> bool" where
  "places_ok st \<longleftrightarrow> (sg_listener st = None \<or> sg_file st = None)
   \<and> (sg_attaching st = Attaching \<longrightarrow> sg_listener st = None \<and> sg_file st = None)"

lemma callbacks_table: "callbacks_ok st \<Longrightarrow> finite (sg_table st)"
  by (simp add: callbacks_ok_def)

lemma free_slot: "free_slots free \<Longrightarrow> callbacks_ok st \<Longrightarrow> free (sg_table st) \<notin> sg_table st"
  using callbacks_table by (simp add: free_slots_def)

lemma callbacks_fields [simp]:
  "callbacks_ok (st\<lparr>sg_attaching := a\<rparr>) = callbacks_ok st" "callbacks_ok (st\<lparr>sg_file := f\<rparr>) = callbacks_ok st"
  by (simp_all add: callbacks_ok_def)

lemma stopCommits_ok: "callbacks_ok st \<Longrightarrow> callbacks_ok (stopCommits st)"
  by (cases "sg_listener st") (auto simp: stopCommits_def callbacks_ok_def)

lemma stop_fields [simp]:
  "sg_listener (stopCommits st) = None" "sg_file (stopCommits st) = sg_file st"
  "sg_attaching (stopCommits st) = sg_attaching st" "sg_open (stopCommits st) = sg_open st"
  "sg_watch (stopCommits st) = sg_watch st"
  by (cases "sg_listener st"; simp add: stopCommits_def)+

lemma on_commit_ok:
  assumes "free_slots free" and "callbacks_ok st" and "sg_open st \<or> chunkSize = 0"
    and "on_commit free chunkSize st = (st', r)"
  shows "callbacks_ok st'" and "sg_file st' = sg_file st" and "sg_attaching st' = sg_attaching st"
    and "r = Inl e \<Longrightarrow> sg_listener st' = sg_listener st"
proof -
  have new: "free (sg_table st) \<notin> sg_table st" by (rule free_slot [OF assms(1,2)])
  have t: "sg_table st = set_option (sg_listener st) \<union> set_option (sg_sqlite_hook st)"
    using assms(2) by (simp add: callbacks_ok_def)
  show "callbacks_ok st'"
  proof (cases "chunkSize = 0")
    case True
    then show ?thesis using assms(2,4) new by (auto simp: on_commit_def callbacks_ok_def Let_def)
  next
    case False
    then show ?thesis using assms(2,3,4) new unfolding t
      by (cases "sg_listener st") (auto simp: on_commit_def callbacks_ok_def Let_def)
  qed
  show "sg_file st' = sg_file st" "sg_attaching st' = sg_attaching st" "r = Inl e \<Longrightarrow> sg_listener st' = sg_listener st"
    using assms(4) by (auto simp: on_commit_def Let_def split: if_splits option.splits)
qed

lemma watch_ok:
  assumes "free_slots free" and "callbacks_ok st" and "watchCommits free l st = Inr st'"
  shows "callbacks_ok st'" and "sg_file st' = sg_file st" "sg_attaching st' = sg_attaching st"
    "sg_listener st' = sg_listener st"
proof -
  have new: "free (sg_table st) \<notin> sg_table st" by (rule free_slot [OF assms(1,2)])
  have o': "sg_open st" using assms(3) by (simp add: watchCommits_def split: if_splits)
  show "callbacks_ok st'"
    using assms(2,3) new o' by (cases "sg_watch st") (auto simp: watchCommits_def callbacks_ok_def Let_def)
  show "sg_file st' = sg_file st" "sg_attaching st' = sg_attaching st" "sg_listener st' = sg_listener st"
    using assms(3) o' by (auto simp: watchCommits_def Let_def split: option.splits)
qed

lemma unwatch_ok: "callbacks_ok st \<Longrightarrow> callbacks_ok (unwatch l st)"
  by (cases "sg_watch st") (auto simp: unwatch_def callbacks_ok_def)

lemma close_ok: "callbacks_ok st \<Longrightarrow> callbacks_ok (close_storing st) \<and> sg_table (close_storing st) = {}"
  by (cases "sg_listener st"; cases "sg_watch st")
    (auto simp: close_storing_def stopCommits_def callbacks_ok_def Let_def)

lemma close_places: "places_ok st \<Longrightarrow> places_ok (close_storing st)"
  by (cases "sg_watch st") (auto simp: close_storing_def places_ok_def Let_def)

lemma detach_ok:
  assumes "db_detach code st = Inr st'" and "callbacks_ok st" and "places_ok st"
  shows "callbacks_ok st' \<and> places_ok st'"
  using assms stopCommits_ok [OF assms(2)]
  by (auto simp: db_detach_def detachFile_def places_ok_def split: if_splits)

lemma idb_uses_ok:
  assumes "free_slots free" and "callbacks_ok st" and "sg_open st \<or> chunkSize = 0"
    and "sg_file st = None" and "sg_attaching st \<noteq> Attaching"
  shows "callbacks_ok (idb_storage_uses free chunkSize all st) \<and> places_ok (idb_storage_uses free chunkSize all st)"
proof -
  obtain st' r where c: "on_commit free chunkSize st = (st', r)" by (cases "on_commit free chunkSize st")
  note ok = on_commit_ok [OF assms(1-3) c]
  have p: "places_ok st'" using ok(2,3) assms(4,5) by (simp add: places_ok_def)
  have d: "callbacks_ok st'' \<and> places_ok st''" if "db_detach 0 st' = Inr st''" for st''
    by (rule detach_ok [OF that ok(1) p])
  show ?thesis using ok(1) p d
    by (auto simp: idb_storage_uses_def c split: sum.split)
qed

lemma storing_step_ok:
  assumes "storing_step free st st'" and "free_slots free" and "callbacks_ok st" and "places_ok st"
  shows "callbacks_ok st' \<and> places_ok st'"
  using assms(1)
proof (cases rule: storing_step.cases)
  case attach
  then show ?thesis using assms(3,4) by (auto simp: attach_called_def places_ok_def split: if_splits)
next
  case (use_file f code)
  then show ?thesis using assms(3,4)
    by (auto simp: file_storage_uses_def attachFile_def places_ok_def split: sum.splits if_splits)
next
  case (use_idb chunkSize all)
  have "sg_file (st\<lparr>sg_attaching := Attach_used\<rparr>) = None" using use_idb assms(4) by (simp add: places_ok_def)
  then show ?thesis unfolding use_idb using use_idb assms(2,3) by (intro idb_uses_ok) auto
next
  case attached
  then show ?thesis using assms(3,4) by (simp add: attach_ends_def places_ok_def)
next
  case (detach code)
  then show ?thesis using detach_ok assms(3,4) by blast
next
  case (watch l)
  then show ?thesis using watch_ok [OF assms(2,3)] assms(4) by (auto simp: places_ok_def)
next
  case (unwatch l)
  then show ?thesis using unwatch_ok [OF assms(3)] assms(4) by (simp add: places_ok_def unwatch_def)
next
  case close
  then show ?thesis using close_ok [OF assms(3)] close_places [OF assms(4)] by simp
qed

lemma storing_run_ok:
  "storing_run free st st' \<Longrightarrow> free_slots free \<Longrightarrow> callbacks_ok st \<and> places_ok st \<Longrightarrow> callbacks_ok st' \<and> places_ok st'"
  by (induction rule: storing_run.induct) (auto dest: storing_step_ok)

lemma new_ok: "callbacks_ok (new_storing f) \<and> places_ok (new_storing f)"
  by (simp add: new_storing_def callbacks_ok_def places_ok_def)

section \<open>Properties\<close>

text \<open>
  C18. Whatever is attached, detached, watched and closed, in any order and whatever fails: a database is
  stored in at most one place; SQLite calls exactly the listeners the database has, whose slots of the
  function table are in use, and no slot is left over; once it is closed none is. Attaching is refused
  with \<open>SQLITE_MISUSE\<close> exactly while it is stored or being attached, so it works after a detach.
\<close>

theorem stored_once:
  assumes "free_slots free" and "storing_run free (new_storing f) st"
  shows "(sg_listener st = None \<or> sg_file st = None)
    \<and> sg_sqlite_listener st = sg_listener st \<and> sg_sqlite_hook st = map_option fst (sg_watch st)
    \<and> sg_table st = set_option (sg_sqlite_listener st) \<union> set_option (sg_sqlite_hook st)
    \<and> (\<forall>p. sg_sqlite_listener st = Some p \<longrightarrow> sg_sqlite_hook st \<noteq> Some p)
    \<and> (\<not> sg_open st \<longrightarrow> sg_table st = {})
    \<and> (attach_called st = Inl (SqliteError SQLITE_MISUSE) \<longleftrightarrow>
         sg_open st \<and> (sg_attaching st \<noteq> Not_attaching \<or> sg_listener st \<noteq> None \<or> sg_file st \<noteq> None))
    \<and> (sg_open st \<and> sg_attaching st = Not_attaching \<and> db_detach code st = Inr st' \<longrightarrow>
         (\<exists>st''. attach_called st' = Inr st''))"
proof -
  have ok: "callbacks_ok st" "places_ok st" using storing_run_ok [OF assms(2,1) new_ok] by simp_all
  have a: "attach_called st = Inl (SqliteError SQLITE_MISUSE) \<longleftrightarrow>
      sg_open st \<and> (sg_attaching st \<noteq> Not_attaching \<or> sg_listener st \<noteq> None \<or> sg_file st \<noteq> None)"
    by (simp add: attach_called_def)
  have d: "\<exists>st''. attach_called st' = Inr st''"
    if "sg_open st" "sg_attaching st = Not_attaching" "db_detach code st = Inr st'"
    using that ok(2) by (auto simp: db_detach_def detachFile_def attach_called_def places_ok_def split: if_splits)
  show ?thesis using ok(1)[unfolded callbacks_ok_def] ok(2)[unfolded places_ok_def] a d
    by (intro conjI) (elim conjE; simp)+
qed

definition ex_free :: "nat set \<Rightarrow> nat" where
  "ex_free used = (if used = {} then 1 else Suc (Max used))"

lemma ex_free_ok: "free_slots ex_free"
  by (auto simp: free_slots_def ex_free_def dest: Max_ge)

theorem stored_once_witness:
  "\<exists>st. storing_run ex_free (new_storing None) st \<and> sg_listener st = Some 1 \<and> sg_sqlite_listener st = Some 1
     \<and> sg_sqlite_hook st = Some 2 \<and> sg_table st = {1, 2} \<and> attach_called st = Inl (SqliteError SQLITE_MISUSE)"
proof -
  let ?run = "storing_run ex_free (new_storing None)"
  define st1 where "st1 = (new_storing None)\<lparr>sg_attaching := Attaching\<rparr>"
  define st2 where "st2 = idb_storage_uses ex_free 4096 0 (st1\<lparr>sg_attaching := Attach_used\<rparr>)"
  define st where "st = (attach_ends st2)\<lparr>sg_table := {1, 2}, sg_sqlite_hook := Some 2, sg_watch := Some (2, [7])\<rparr>"
  have "?run st1" by (rule storing_run.step [OF start attach]) (simp add: st1_def attach_called_def new_storing_def)
  then have "?run st2" unfolding st2_def
    by (rule storing_run.step) (rule use_idb; simp add: st1_def new_storing_def)
  then have "?run (attach_ends st2)" by (rule storing_run.step [OF _ attached])
  then have run: "?run st"
    by (rule storing_run.step [OF _ watch [of _ 7]])
      (simp add: st_def st2_def st1_def idb_storage_uses_def on_commit_def new_storing_def watchCommits_def
        attach_ends_def ex_free_def Let_def insert_commute numeral_2_eq_2)
  have "sg_open st" "sg_listener st = Some 1" "sg_sqlite_hook st = Some 2"
    by (simp_all add: st_def st2_def st1_def idb_storage_uses_def on_commit_def new_storing_def attach_ends_def
        ex_free_def Let_def)
  moreover note stored_once [OF ex_free_ok run]
  ultimately show ?thesis using run by (intro exI [of _ st]) auto
qed

text \<open>
  A database may be closed while \<open>attach\<close> awaits its storage. \<open>attachFile\<close> looks, but \<open>onCommit\<close> calls
  SQLite for a connection that is NULL.
\<close>

lemma attach_calls_closed_database:
  "\<exists>st. storing_run ex_free (new_storing None) st \<and> sg_null_call st"
proof -
  let ?run = "storing_run ex_free (new_storing None)"
  let ?st1 = "(new_storing None)\<lparr>sg_attaching := Attaching\<rparr>"
  let ?st2 = "close_storing ?st1"
  have "?run ?st1" by (rule storing_run.step [OF start attach]) (simp add: attach_called_def new_storing_def)
  then have "?run ?st2" by (rule storing_run.step) (rule close; simp add: new_storing_def)
  then have "?run (idb_storage_uses ex_free 0 0 (?st2\<lparr>sg_attaching := Attach_used\<rparr>))"
    by (rule storing_run.step) (rule use_idb; simp add: close_storing_def stopCommits_def new_storing_def)
  moreover have "sg_null_call (idb_storage_uses ex_free 0 0 (?st2\<lparr>sg_attaching := Attach_used\<rparr>))"
    by (simp add: idb_storage_uses_def on_commit_def db_detach_def close_storing_def stopCommits_def new_storing_def Let_def)
  ultimately show ?thesis by blast
qed

end
