(* ===== verification/Spec2Isabelle.thy ===== *)
theory Spec2Isabelle
  imports Snapshot_Storage Idb_Names Node_File File_Storage Db_Statements Save_Write Directory_Store Value_Types
    Sessions Web_Locks Memory_File Db_Heap Db_Storing
begin

text \<open>
  The storages of sqlite-wasm, SQLite compiled to WebAssembly, and the classes an application uses it
  through. This development models the TypeScript of src/src and proves what makes it correct.

  \<^bold>\<open>The program.\<close> A \<open>Database\<close> (Database.ts) with its \<open>Statement\<close>s (Statement.ts) is a connection of SQLite,
  which runs in Wasm. By itself it is in memory. It can be stored in three ways. \<open>indexedDBStorage\<close>
  (indexeddb.ts) loads a database from IndexedDB and writes the chunks of every commit back in the background.
  \<open>FileStorage\<close> (opfs.ts) gives SQLite a file and its journal through the "js" VFS, whose calls from Wasm
  the class \<open>Files\<close> answers. \<open>SnapshotStorage\<close> (snapshots.ts) opens a database on an immutable snapshot,
  a file of the same VFS; changes stay in memory until a \<open>Session\<close> saves them as a new snapshot, in full or as a
  delta: the pages that changed, over the snapshot below. The snapshots are in a \<open>SnapshotStore\<close>: in memory,
  in IndexedDB, or in a directory of files.

  \<^bold>\<open>How it is modelled.\<close> State is a record with the fields of the class, an operation a function on it that
  returns the new state and a result; a throw is \<open>Inl\<close> of an error (\<open>js_error\<close>). A part whose operations
  await is a state machine or is split where it awaits, so others run between. Bytes are \<open>8 word\<close>, a \<open>Map\<close> an
  association list in insertion order, times rational numbers. Sizes and offsets, whole numbers below \<open>2 ^ 53\<close>
  in the code, are \<open>nat\<close>; where the code subtracts, the first operand is the larger one (in \<open>composeBlob\<close>
  every page starts before the end). Values read at 32 bits are \<open>32 word\<close>. Keys and names are lists of
  characters below 256; text for SQLite has all code points. Not under src/src, and so
  parameters: SQLite and the functions of the bridge, \<open>malloc\<close> and \<open>addFunction\<close>, the files of the platform
  (OPFS, Node), transactions of IndexedDB, Web Locks, \<open>now()\<close>, the text of JSON. What is relied on of them are
  hypotheses of the theorems, and each theorem with any has a witness in which they hold.

  \<^bold>\<open>The theories.\<close>

  Prelude has errors and results, \<open>Map\<close> (the locale \<open>js_map\<close>) and the operations of \<open>Uint8Array\<close>. Sync_File is
  what SQLite relies on of a file (the locale \<open>sync_file\<close>, interpreted for the files of blobs, of layers, of
  Node and in memory).

  Snapshots (snapshots.ts):
  \<^item> Read_Only_File: \<open>readOnlyFile\<close>, a file over a Blob with a cache of blocks. Its reads are right whatever
    reads of the Blob throw (C1), and scanning reads a block once (\<open>ro_scan_reads_block_once\<close>).
  \<^item> Delta_Runs, Layers: \<open>runs\<close>, \<open>Layer\<close>, \<open>layerFile\<close>, \<open>layerContent\<close>. Where each byte of a chain of deltas
    comes from (C3), and that both ways of reading it give what it denotes (\<open>layer_bytes\<close>, C4, C5).
  \<^item> Page_Runs, Snapshot_Write: \<open>pageRuns\<close>, and what each store writes: the same content (C6, C7), and a
    delta the same as saving in full (C8). The specification is \<open>new_bytes\<close>, byte by byte.
  \<^item> Snapshot_Stores: the memory and IndexedDB stores, with their contract as the locale \<open>snapshot_store\<close>:
    every delta keeps its parent (C9).
  \<^item> Dir_Names, Directory_Store: the directory store over any \<open>SnapshotDirectory\<close> (the locale
    \<open>snapshot_directory\<close>, interpreted for OPFS and for the one in memory): names of files, and that
    a snapshot appears at once to whoever reads, whatever fails (C39). \<open>write_step\<close> is one await;
    \<open>write_run\<close> is a run with others between.
  \<^item> Snapshot_Resolve, New_Snapshot, Snapshot_Compare: \<open>resolve\<close> finds what is stored and a consistent
    chain also while the store changes (C11, C12); a save reads back as what was saved (C13, C14); \<open>existing\<close>
    tells if a key has the content that would be written (C15, C16).
  \<^item> Snapshot_Storage: \<open>retain\<close>, \<open>open\<close>, \<open>list\<close>, \<open>head\<close> over either store (the locale \<open>listed_store\<close>): C17, C19
    to C21, and \<open>storage_head_newest\<close>.
  \<^item> Memory_File: the files in memory below that directory, which refine the list of their bytes
    (\<open>mf_write_refines\<close>, \<open>dw_truncate_refines\<close>) and keep over a crash what was flushed (\<open>after_crash\<close>).
  \<^item> Web_Locks: \<open>MemoryLocks\<close>, and the locks that the storage requests (C22).
  \<^item> Base_Files, Save_Write: the databases on snapshots, their locks, and \<open>write\<close>: a database
    holds the locks on what it reads (C37), and a save moves it onto what it wrote (C38).
  \<^item> Sessions: \<open>save\<close>, \<open>close\<close> and the automatic saves (C40).

  Storing databases (Database.ts, indexeddb.ts, opfs.ts, file.ts):
  \<^item> Db_Storing: attaching, detaching and the listeners (C18). Db_Heap: what is read from the heap for a commit
    and for the pages held (C10), loading and exporting.
  \<^item> Js_Number, Db_Header: checks of what is read back (C23).
  \<^item> Indexed_DB, Idb_Load, Idb_Persistence, Idb_Names: batches of commits and their transactions, loading (C24),
    the queue of writes, of which the specification is "the file after a prefix of the commits" (C25, C26),
    and the names in use (C27).
  \<^item> Js_Files, Node_File, File_Storage: the files of the VFS (C28, C29), those of Node (C30), and
    what \<open>FileStorage\<close> takes and gives back (C36).

  Using databases (Database.ts, Statement.ts):
  \<^item> Text_Codec, Statements: text to and from the heap (C31), the memory of bound values (C32), the cache of
    column names (C33). Value_Types: the types of values in SQL and back (C2). Db_Functions: functions in SQL
    (C34). Db_Statements: that no statement is left (C35).

  \<^bold>\<open>Bounds and fuel.\<close> \<open>resolve_loop\<close> follows at most \<open>MAX_CHAIN\<close> deltas, as the code does; C11 takes chains no
  deeper than that, and C13 and C14 saves whose \<open>maxDepth\<close> keeps them so. \<open>open_loop\<close> gives None if it does not
  end, which C20 excludes. All other loops are recursive functions whose termination is proved; the twelve
  awaits of C39 are the longest path of \<open>write_step\<close>.

  \<^bold>\<open>What it showed.\<close> Lemmas that are no properties show where the code does not do what it, or its
  documentation, means to: \<open>cached_names_stale\<close>, \<open>overload_calls_wrong_function\<close>,
  \<open>bind_error_leaves_statement\<close>, \<open>rollback_leaves_commit_unsaved\<close>, \<open>abort_of_written_file\<close>,
  \<open>attach_calls_closed_database\<close>, \<open>truncate_past_end\<close>; and C31 has the byte order mark that \<open>decodeText\<close> drops.

  \<^bold>\<open>Not modelled.\<close> Loading the module and the entry points (load-module.ts, native.ts, init-*.ts) and the
  declarations of types have no logic of their own; scripts and tests are no part of the program; the C sources
  (overlay.c, jsvfs.c, sqlite3-bridge.c) are another language, and are seen here only through what the TypeScript
  relies on. Of the modelled files: opening IndexedDB and OPFS (requests that the platform answers),
  messages of errors where only the class or code matters, getters, \<open>getRowsModified\<close>, and
  \<open>iterateStatements\<close>, which throws. Without Web Locks (\<open>locks\<close> null) \<open>hold\<close> does nothing; the theorems on
  locks are for when there are any. The locks of one \<open>resolve\<close> are taken one after the other in the code and
  together in Base_Files; Snapshot_Resolve has the single reads.
\<close>

end
